(* ===== verification/SO_Prelude.thy ===== *)
theory SO_Prelude
  imports Main "HOL-Library.Word"
begin

text \<open>
  Shared vocabulary of the development: the machine types of the Go sources, the
  theorem collections used by the component proofs, and the generic facts on lists and
  words that several components need.
\<close>

section \<open>Machine types\<close>

type_synonym byte = "8 word"
type_synonym bytes = "byte list"
type_synonym u32 = "32 word"
type_synonym u64 = "64 word"

text \<open>
  A Go \<open>int64\<close> is a \<open>64 word\<close> read through \<open>sint\<close>; \<open>uint64(x)\<close> of an \<open>int64\<close> is the
  same word.  Go strings are byte strings, hence HOL's \<open>string\<close> (a list of 8-bit
  characters).
\<close>

type_synonym i64 = "64 word"

definition bytes_of_string :: "string \<Rightarrow> bytes" where
  "bytes_of_string s = map of_char s"

definition string_of_bytes :: "bytes \<Rightarrow> string" where
  "string_of_bytes bs = map (\<lambda>b. char_of (unat b)) bs"

section \<open>Theorem collections\<close>

named_theorems step_simps \<open>unfolding rules of step functions and their guards\<close>
named_theorems event_simps \<open>projections of event lists\<close>
named_theorems codec_simps \<open>lengths and injectivity of byte encodings\<close>

section \<open>Words\<close>

lemma of_char_byte_eq: "(of_char c :: byte) = of_nat (of_char c)"
  by (cases c) (simp add: of_char_def)

lemma unat_of_char_byte [simp]: "unat (of_char c :: byte) = of_char c"
proof -
  have "(of_char c :: nat) < 256" by simp
  then show ?thesis by (subst of_char_byte_eq) (simp add: unat_of_nat)
qed

lemma char_of_unat_of_char [simp]: "char_of (unat (of_char c :: byte)) = c"
  by simp

lemma of_char_byte_inject [simp]: "(of_char c :: byte) = of_char d \<longleftrightarrow> c = d"
  by (metis char_of_unat_of_char)

lemma string_of_bytes_of_string [simp]: "string_of_bytes (bytes_of_string s) = s"
  by (simp add: string_of_bytes_def bytes_of_string_def comp_def del: unat_of_char_byte)

lemma inj_bytes_of_string [simp]: "bytes_of_string s = bytes_of_string t \<longleftrightarrow> s = t"
  by (auto simp: bytes_of_string_def inj_map_eq_map inj_def)

lemma length_bytes_of_string [simp]: "length (bytes_of_string s) = length s"
  by (simp add: bytes_of_string_def)

lemma bytes_of_string_append [simp]:
  "bytes_of_string (s @ t) = bytes_of_string s @ bytes_of_string t"
  by (simp add: bytes_of_string_def)

lemma unat_Suc_nowrap: "w \<noteq> - 1 \<Longrightarrow> unat (w + 1) = Suc (unat (w :: 'a::len word))"
proof -
  assume "w \<noteq> - 1"
  then have "1 + w \<noteq> 0" by (simp add: add_eq_0_iff)
  then show ?thesis by (metis add.commute unatSuc)
qed

lemma word_Suc_nonzero: "w \<noteq> - 1 \<Longrightarrow> w + 1 \<noteq> (0 :: 'a::len word)"
  by (metis add.commute add_eq_0_iff minus_equation_iff)

lemma unat_byte_less [simp]: "unat (b :: byte) < 256"
proof -
  have "unat b < 2 ^ LENGTH(8)" by (rule unsigned_less)
  then show ?thesis by simp
qed

section \<open>Lists\<close>

lemma sorted_wrt_append_bound:
  assumes "sorted_wrt (<) (xs :: 'a::linorder list)" and "sorted_wrt (<) ys"
    and "\<And>x. x \<in> set xs \<Longrightarrow> x \<le> m" and "\<And>y. y \<in> set ys \<Longrightarrow> m < y"
  shows "sorted_wrt (<) (xs @ ys)"
  using assms by (fastforce simp: sorted_wrt_append)

text \<open>Splitting at the first occurrence of a separator is unambiguous.\<close>

lemma separator_split_unique:
  "c \<notin> set xs \<Longrightarrow> c \<notin> set ys \<Longrightarrow> xs @ c # us = ys @ c # vs \<longleftrightarrow> xs = ys \<and> us = vs"
proof (induction xs arbitrary: ys)
  case Nil
  then show ?case by (cases ys) auto
next
  case (Cons x xs)
  then show ?case by (cases ys) auto
qed

text \<open>The batches a consumer of a stream sees when it always takes \<open>n\<close> elements at a time.\<close>

lemma concat_prefix_lengths_unique:
  "\<forall>x \<in> set xss. length x = n \<Longrightarrow> \<forall>y \<in> set yss. length y = n \<Longrightarrow> 0 < n \<Longrightarrow>
   length xss \<le> length yss \<Longrightarrow> concat xss @ r = s \<Longrightarrow> concat yss @ r' = s @ t \<Longrightarrow>
   xss = take (length xss) yss"
proof (induction xss arbitrary: yss s)
  case Nil
  then show ?case by simp
next
  case (Cons x xss)
  then obtain y yss' where y: "yss = y # yss'" by (cases yss) auto
  from Cons.prems y have "x @ (concat xss @ r @ t) = y @ (concat yss' @ r')" by auto
  with Cons.prems y have "x = y" and "concat yss' @ r' = (concat xss @ r) @ t" by auto
  with Cons y show ?case by auto
qed

end
