(* ===== verification/Transactions.thy ===== *)
theory Transactions
  imports SO_Prelude "HOL-Library.Product_Lexorder"
begin

text \<open>
  The transaction record every component exchanges
  (\<open>pkg/sequencing/queue.go\<close>, type \<open>EncryptedTransaction\<close>), the errors a backend returns
  and the part of \<open>context.Context\<close> and \<open>time.Time\<close> the sources use.
\<close>

section \<open>Time\<close>

text \<open>
  A \<open>time.Time\<close> is an instant in nanoseconds since the Unix epoch.  \<open>UnixNano\<close> is an
  \<open>int64\<close> computed with wrapping arithmetic; \<open>time.Unix(0, ns)\<close> is its inverse on
  \<open>int64\<close>.
\<close>

type_synonym time = int

definition UnixNano :: "time \<Rightarrow> i64" where
  "UnixNano t = word_of_int t"

definition time_Unix0 :: "i64 \<Rightarrow> time" where
  "time_Unix0 ns = sint ns"

lemma UnixNano_time_Unix0 [simp]: "UnixNano (time_Unix0 ns) = ns"
  by (simp add: UnixNano_def time_Unix0_def)

text \<open>The zero value of \<open>time.Time\<close> is midnight of January 1 in year 1, not the Unix epoch.\<close>

definition zero_time :: time where
  "zero_time = - 62135596800 * 10 ^ 9"

section \<open>Transactions\<close>

record EncryptedTransaction =
  ID :: u64
  Ciphertext :: bytes
  ArrivedAt :: time

definition zero_tx :: EncryptedTransaction where
  "zero_tx = \<lparr>ID = 0, Ciphertext = [], ArrivedAt = zero_time\<rparr>"

abbreviation tx_id :: "EncryptedTransaction \<Rightarrow> nat" where
  "tx_id tx \<equiv> unat (ID tx)"

text \<open>
  \<open>make([]EncryptedTransaction, 0, n)\<close> panics if \<open>n\<close> is negative or the array would not fit the address
  space: 56 bytes for an element, \<open>2^48\<close> bytes at most on 64-bit Linux.  (A size below that which the machine
  cannot provide is a fatal error of the run-time system, which is not modelled.)
\<close>

definition cap_out_of_range :: "int \<Rightarrow> bool" where
  [simp]: "cap_out_of_range n \<longleftrightarrow> n < 0 \<or> 2 ^ 48 < 56 * n"

text \<open>The total order of the documentation: \<open>(ArrivedAt, ID)\<close>, lexicographically.\<close>

datatype order_key = OrderKey (key_time: time) (key_id: u64)

definition tx_key :: "EncryptedTransaction \<Rightarrow> order_key" where
  "tx_key tx = OrderKey (ArrivedAt tx) (ID tx)"

instantiation order_key :: linorder
begin

definition less_eq_order_key :: "order_key \<Rightarrow> order_key \<Rightarrow> bool" where
  "less_eq_order_key j k \<longleftrightarrow> (key_time j, key_id j) \<le> (key_time k, key_id k)"

definition less_order_key :: "order_key \<Rightarrow> order_key \<Rightarrow> bool" where
  "less_order_key j k \<longleftrightarrow> (key_time j, key_id j) < (key_time k, key_id k)"

instance
proof
  fix x y z :: order_key
  show "(x < y) = (x \<le> y \<and> \<not> y \<le> x)"
    by (auto simp: less_eq_order_key_def less_order_key_def)
  show "x \<le> x" by (simp add: less_eq_order_key_def)
  show "x \<le> y \<Longrightarrow> y \<le> z \<Longrightarrow> x \<le> z"
    unfolding less_eq_order_key_def by (rule order_trans)
  show "x \<le> y \<Longrightarrow> y \<le> x \<Longrightarrow> x = y"
    unfolding less_eq_order_key_def by (metis order_antisym order_key.expand prod.inject)
  show "x \<le> y \<or> y \<le> x" unfolding less_eq_order_key_def by (rule linear)
qed

end

section \<open>Errors and contexts\<close>

datatype ctx_error = Canceled | DeadlineExceeded

datatype log_error =
    ErrQueueClosed
  | ErrCtx ctx_error
  | ErrRaft string

end
