(* ===== verification/Encrypted_Mempool.thy ===== *)
theory Encrypted_Mempool
  imports Transactions
begin

text \<open>
  \<open>pkg/sequencing/encrypted_mempool.go\<close>, each method as a function on the sequence of
  transactions held.  A Go \<open>nil\<close> slice result is \<open>None\<close>.  Every method runs under the
  mutex, so a method (or one round of the polling loop of \<open>DrainWait\<close>) is one atomic step;
  what other goroutines do while \<open>DrainWait\<close> sleeps is an explicit sequence of steps.
  \<open>Mempool_Slices\<close> refines these functions down to Go slices and backing arrays.
\<close>

record EncryptedMempool =
  items :: "EncryptedTransaction list"

definition NewEncryptedMempool :: "int \<Rightarrow> EncryptedMempool" where
  "NewEncryptedMempool capacity = \<lparr>items = []\<rparr>"

definition mempool_Add :: "EncryptedTransaction \<Rightarrow> EncryptedMempool \<Rightarrow> EncryptedMempool" where
  "mempool_Add tx m = m\<lparr>items := items m @ [tx]\<rparr>"

definition mempool_Size :: "EncryptedMempool \<Rightarrow> nat" where
  "mempool_Size m = length (items m)"

definition mempool_DrainUpTo ::
  "int \<Rightarrow> EncryptedMempool \<Rightarrow> EncryptedMempool \<times> EncryptedTransaction list option" where
  "mempool_DrainUpTo n m =
     (if n \<le> 0 then (m, None)
      else if length (items m) = 0 then (m, None)
      else let k = (if n > int (length (items m)) then length (items m) else nat n)
           in (m\<lparr>items := drop k (items m)\<rparr>, Some (take k (items m))))"

definition mempool_DrainAll ::
  "EncryptedMempool \<Rightarrow> EncryptedMempool \<times> EncryptedTransaction list option" where
  "mempool_DrainAll m =
     (if length (items m) = 0 then (m, None) else (m\<lparr>items := []\<rparr>, Some (items m)))"

section \<open>The blocking drain\<close>

text \<open>
  What a goroutine can do to the mempool, and what ends one wait of the polling loop: the
  context, or a tick before which other goroutines performed some operations.
\<close>

datatype mempool_op = OpAdd EncryptedTransaction | OpDrainUpTo int | OpDrainAll

fun mempool_apply ::
  "mempool_op \<Rightarrow> EncryptedMempool \<Rightarrow> EncryptedMempool \<times> EncryptedTransaction list option" where
  "mempool_apply (OpAdd tx) m = (mempool_Add tx m, None)"
| "mempool_apply (OpDrainUpTo n) m = mempool_DrainUpTo n m"
| "mempool_apply OpDrainAll m = mempool_DrainAll m"

fun mempool_run ::
  "mempool_op list \<Rightarrow> EncryptedMempool \<Rightarrow> EncryptedMempool \<times> EncryptedTransaction list" where
  "mempool_run [] m = (m, [])"
| "mempool_run (p # ps) m =
     (let (m1, out) = mempool_apply p m; (m2, outs) = mempool_run ps m1
      in (m2, (case out of None \<Rightarrow> [] | Some b \<Rightarrow> b) @ outs))"

datatype wakeup = CtxDone | TickerC "mempool_op list"

text \<open>One round under the lock: \<open>Some\<close> when \<open>n\<close> transactions are there to be taken.\<close>

definition mempool_try_drain ::
  "int \<Rightarrow> EncryptedMempool \<Rightarrow> (EncryptedMempool \<times> EncryptedTransaction list) option" where
  "mempool_try_drain n m =
     (if int (length (items m)) \<ge> n then
        let k = nat (if n > int (length (items m)) then int (length (items m)) else n)
        in Some (m\<lparr>items := drop k (items m)\<rparr>, take k (items m))
      else None)"

fun mempool_DrainWait_loop ::
  "wakeup list \<Rightarrow> int \<Rightarrow> EncryptedMempool \<Rightarrow>
   (EncryptedMempool \<times> EncryptedTransaction list option) option" where
  "mempool_DrainWait_loop ws n m =
     (case mempool_try_drain n m of
        Some (m', out) \<Rightarrow> Some (m', Some out)
      | None \<Rightarrow>
         (case ws of
            [] \<Rightarrow> None
          | CtxDone # _ \<Rightarrow> Some (m, None)
          | TickerC ps # ws' \<Rightarrow> mempool_DrainWait_loop ws' n (fst (mempool_run ps m))))"

text \<open>
  The result \<open>None\<close> is a call that is still blocked after the wake-ups \<open>ws\<close>; \<open>Some (m, r)\<close>
  is a return with value \<open>r\<close>.
\<close>

definition mempool_DrainWait ::
  "wakeup list \<Rightarrow> int \<Rightarrow> EncryptedMempool \<Rightarrow>
   (EncryptedMempool \<times> EncryptedTransaction list option) option" where
  "mempool_DrainWait ws n m = (if n \<le> 0 then Some (m, None) else mempool_DrainWait_loop ws n m)"

declare mempool_DrainWait_loop.simps [simp del]

section \<open>FIFO behaviour\<close>

fun ops_added :: "mempool_op list \<Rightarrow> EncryptedTransaction list" where
  "ops_added [] = []"
| "ops_added (OpAdd tx # ps) = tx # ops_added ps"
| "ops_added (_ # ps) = ops_added ps"

lemma mempool_try_drain_Some:
  "mempool_try_drain n m = Some (m', out) \<Longrightarrow> 0 < n \<Longrightarrow>
     length out = nat n \<and> out @ items m' = items m"
  by (auto simp: mempool_try_drain_def Let_def split: if_splits)

lemma mempool_try_drain_None:
  "mempool_try_drain n m = None \<longleftrightarrow> int (length (items m)) < n"
  by (auto simp: mempool_try_drain_def Let_def)

lemma mempool_apply_fifo:
  "mempool_apply p m = (m', out) \<Longrightarrow>
     (case out of None \<Rightarrow> [] | Some b \<Rightarrow> b) @ items m' = items m @ ops_added [p]"
  by (cases p)
    (auto simp: mempool_Add_def mempool_DrainUpTo_def mempool_DrainAll_def Let_def split: if_splits)

lemma ops_added_Cons: "ops_added (p # ps) = ops_added [p] @ ops_added ps"
  by (cases p) simp_all

lemma mempool_run_fifo:
  "mempool_run ps m = (m', outs) \<Longrightarrow> outs @ items m' = items m @ ops_added ps"
proof (induction ps arbitrary: m m' outs)
  case Nil
  then show ?case by simp
next
  case (Cons p ps)
  obtain m1 out m2 outs2 where steps: "mempool_apply p m = (m1, out)" "mempool_run ps m1 = (m2, outs2)"
    by (metis prod.exhaust)
  with Cons.prems have res: "m' = m2" "outs = (case out of None \<Rightarrow> [] | Some b \<Rightarrow> b) @ outs2" by auto
  have "outs @ items m' = (case out of None \<Rightarrow> [] | Some b \<Rightarrow> b) @ items m1 @ ops_added ps"
    using res Cons.IH [OF steps(2)] by simp
  also have "\<dots> = items m @ ops_added [p] @ ops_added ps"
    using mempool_apply_fifo [OF steps(1)] by (simp flip: append_assoc)
  finally show ?case by (simp only: ops_added_Cons [of p ps])
qed

lemma mempool_run_append:
  "mempool_run (ps @ qs) m =
     (let (m1, o1) = mempool_run ps m; (m2, o2) = mempool_run qs m1 in (m2, o1 @ o2))"
  by (induction ps arbitrary: m) (auto simp: Let_def split: prod.splits)

fun waited :: "wakeup list \<Rightarrow> mempool_op list" where
  "waited [] = []"
| "waited (CtxDone # _) = []"
| "waited (TickerC ps # ws) = ps @ waited ws"

fun only_adds :: "mempool_op list \<Rightarrow> bool" where
  "only_adds [] = True"
| "only_adds (OpAdd _ # ps) = only_adds ps"
| "only_adds (_ # ps) = False"

lemma mempool_run_only_adds:
  "only_adds ps \<Longrightarrow> mempool_run ps m = (m\<lparr>items := items m @ ops_added ps\<rparr>, [])"
  by (induction ps arbitrary: m rule: only_adds.induct)
    (simp_all add: mempool_Add_def)

lemma only_adds_append [simp]: "only_adds (ps @ qs) \<longleftrightarrow> only_adds ps \<and> only_adds qs"
  by (induction ps rule: only_adds.induct) auto

lemma ops_added_append [simp]: "ops_added (ps @ qs) = ops_added ps @ ops_added qs"
  by (induction ps rule: ops_added.induct) auto

lemma DrainWait_loop_enough:
  "0 < n \<Longrightarrow> n \<le> int (length (items m)) \<Longrightarrow> mempool_DrainWait_loop ws n m =
     Some (m\<lparr>items := drop (nat n) (items m)\<rparr>, Some (take (nat n) (items m)))"
  by (subst mempool_DrainWait_loop.simps) (simp add: mempool_try_drain_def Let_def)

lemma DrainWait_loop_wait:
  "int (length (items m)) < n \<Longrightarrow> mempool_DrainWait_loop ws n m =
     (case ws of [] \<Rightarrow> None | CtxDone # _ \<Rightarrow> Some (m, None)
      | TickerC ps # ws' \<Rightarrow> mempool_DrainWait_loop ws' n (fst (mempool_run ps m)))"
  by (subst mempool_DrainWait_loop.simps) (simp add: mempool_try_drain_def split: list.split)

lemma DrainWait_loop_returns:
  "0 < n \<Longrightarrow> only_adds (waited ws) \<Longrightarrow> n \<le> int (length (items m @ ops_added (waited ws))) \<Longrightarrow>
   \<exists>m'. mempool_DrainWait_loop ws n m = Some (m', Some (take (nat n) (items m @ ops_added (waited ws))))"
proof (induction ws arbitrary: m)
  case Nil
  then show ?case by (simp add: DrainWait_loop_enough)
next
  case (Cons w ws)
  show ?case
  proof (cases "n \<le> int (length (items m))")
    case True
    with Cons.prems show ?thesis by (simp add: DrainWait_loop_enough)
  next
    case False
    with Cons.prems obtain ps where w: "w = TickerC ps" by (cases w) auto
    with Cons.prems have "only_adds ps" by simp
    with Cons.IH [of "m\<lparr>items := items m @ ops_added ps\<rparr>"] Cons.prems w False show ?thesis
      by (simp add: DrainWait_loop_wait mempool_run_only_adds)
  qed
qed

text \<open>
  The state a returning call leaves, in terms of the operations others completed before.
\<close>

lemma DrainWait_loop_result:
  "0 < n \<Longrightarrow> mempool_DrainWait_loop ws n m = Some (m', r) \<Longrightarrow>
   \<exists>ps qs m1 outs. waited ws = ps @ qs \<and> mempool_run ps m = (m1, outs) \<and>
     (case r of None \<Rightarrow> m' = m1 \<and> CtxDone \<in> set ws
      | Some out \<Rightarrow> length out = nat n \<and> out @ items m' = items m1)"
proof (induction ws arbitrary: m)
  case Nil
  then show ?case
    by (subst (asm) mempool_DrainWait_loop.simps)
      (auto dest: mempool_try_drain_Some split: option.splits)
next
  case (Cons w ws)
  show ?case
  proof (cases "n \<le> int (length (items m))")
    case True
    with Cons.prems show ?thesis
      by (rule_tac x = "[]" in exI, rule_tac x = "waited (w # ws)" in exI) (auto simp: DrainWait_loop_enough)
  next
    case wait: False
    show ?thesis
    proof (cases w)
      case CtxDone
      with wait Cons.prems show ?thesis
        by (intro exI [of _ "[]"]) (auto simp: DrainWait_loop_wait)
    next
      case (TickerC ps0)
      obtain m1 outs1 where run1: "mempool_run ps0 m = (m1, outs1)" by fastforce
      with wait TickerC Cons.prems have "mempool_DrainWait_loop ws n m1 = Some (m', r)"
        by (simp add: DrainWait_loop_wait)
      from Cons.IH [OF Cons.prems(1) this] obtain ps qs m2 outs2 where
        "waited ws = ps @ qs" "mempool_run ps m1 = (m2, outs2)" and
        r: "case r of None \<Rightarrow> m' = m2 \<and> CtxDone \<in> set ws
          | Some out \<Rightarrow> length out = nat n \<and> out @ items m' = items m2" by blast
      then have "waited (w # ws) = (ps0 @ ps) @ qs" "mempool_run (ps0 @ ps) m = (m2, outs1 @ outs2)"
        using TickerC run1 by (simp_all add: mempool_run_append)
      with r show ?thesis by (intro exI conjI) (auto split: option.splits)
    qed
  qed
qed

section \<open>Properties\<close>

text \<open>
  The mempool is first-in first-out.  Whatever sequence of \<open>Add\<close>, \<open>DrainUpTo\<close> and
  \<open>DrainAll\<close> calls is made, the transactions handed out, in order, followed by those still
  held, are exactly those held before followed by those added: nothing is lost, duplicated
  or reordered.
\<close>

lemma mempool_fifo:
  "snd (mempool_run ps m) @ items (fst (mempool_run ps m)) = items m @ ops_added ps"
  using mempool_run_fifo by (metis prod.collapse)

text \<open>
  When \<open>DrainWait\<close> returns after some operations of other goroutines, it has either been
  cancelled, and then it returned \<open>nil\<close> and removed nothing, or it returned exactly the
  \<open>n\<close> oldest transactions that were held at that moment and removed just those.
\<close>

lemma DrainWait_all_or_nothing:
  assumes "0 < n" and "mempool_DrainWait ws n m = Some (m', r)"
  shows "\<exists>ps qs m1 outs. waited ws = ps @ qs \<and> mempool_run ps m = (m1, outs) \<and>
     (case r of None \<Rightarrow> m' = m1 \<and> CtxDone \<in> set ws
      | Some out \<Rightarrow> length out = nat n \<and> out @ items m' = items m1)"
  using assms DrainWait_loop_result by (simp add: mempool_DrainWait_def)

text \<open>
  \<open>DrainWait\<close> does return: as soon as enough transactions have been added by the ticks it
  has seen, and nobody else drains, it returns the \<open>n\<close> oldest of them in arrival order.
\<close>

lemma DrainWait_returns_when_available:
  assumes "0 < n" and "only_adds (waited ws)"
    and "n \<le> int (length (items m @ ops_added (waited ws)))"
  shows "\<exists>m'. mempool_DrainWait ws n m =
    Some (m', Some (take (nat n) (items m @ ops_added (waited ws))))"
  using DrainWait_loop_returns [OF assms] assms(1) by (simp add: mempool_DrainWait_def)

section \<open>Witnesses\<close>

end
