(* ===== verification/Mempool_Slices.thy ===== *)
theory Mempool_Slices
  imports Encrypted_Mempool
begin

text \<open>
  \<open>pkg/sequencing/encrypted_mempool.go\<close> at the level of Go slices: a slice is a window on a
  backing array in a store, \<open>append\<close> writes in place when the capacity allows it, and draining
  shifts the remaining items to the front of the same array.  The sequence view of
  \<open>Encrypted_Mempool\<close> is an abstraction of this one, and the batches handed out share no memory
  with the mempool: the caller may even write into them.
\<close>

section \<open>Slices\<close>

record store =
  arrays :: "nat \<Rightarrow> EncryptedTransaction list"
  next_arr :: nat

record slice =
  arr :: nat
  off :: nat
  len :: nat
  cap :: nat

definition slice_read :: "store \<Rightarrow> slice \<Rightarrow> EncryptedTransaction list" where
  "slice_read h s = take (len s) (drop (off s) (arrays h (arr s)))"

text \<open>Overwrites the array from index \<open>i\<close> on.\<close>

definition blit :: "nat \<Rightarrow> nat \<Rightarrow> EncryptedTransaction list \<Rightarrow> store \<Rightarrow> store" where
  "blit a i xs h = h\<lparr>arrays := (arrays h)(a := take i (arrays h a) @ xs @ drop (i + length xs) (arrays h a))\<rparr>"

definition make_slice :: "nat \<Rightarrow> nat \<Rightarrow> store \<Rightarrow> store \<times> slice" where
  "make_slice n c h =
     (h\<lparr>arrays := (arrays h)(next_arr h := replicate c zero_tx), next_arr := Suc (next_arr h)\<rparr>,
      \<lparr>arr = next_arr h, off = 0, len = n, cap = c\<rparr>)"

text \<open>\<open>s[i:]\<close> and \<open>s[:j]\<close>, within range.\<close>

definition slice_from :: "nat \<Rightarrow> slice \<Rightarrow> slice" where
  "slice_from i s = s\<lparr>off := off s + i, len := len s - i, cap := cap s - i\<rparr>"

definition slice_to :: "nat \<Rightarrow> slice \<Rightarrow> slice" where
  "slice_to j s = s\<lparr>len := j\<rparr>"

text \<open>
  \<open>copy(dst, src)\<close>, and \<open>append(s, xs...)\<close>, where \<open>grow\<close> is the runtime's choice of a larger
  capacity; both behave as if the source were read before the target is written.
\<close>

definition copy_slice :: "slice \<Rightarrow> slice \<Rightarrow> store \<Rightarrow> store" where
  "copy_slice dst src h = blit (arr dst) (off dst) (take (min (len dst) (len src)) (slice_read h src)) h"

definition append_slice ::
  "(nat \<Rightarrow> nat \<Rightarrow> nat) \<Rightarrow> slice \<Rightarrow> EncryptedTransaction list \<Rightarrow> store \<Rightarrow> store \<times> slice" where
  "append_slice grow s xs h =
     (if len s + length xs \<le> cap s
      then (blit (arr s) (off s + len s) xs h, s\<lparr>len := len s + length xs\<rparr>)
      else let need = len s + length xs;
               (h1, t) = make_slice need (max need (grow (cap s) need)) h
           in (blit (arr t) 0 (slice_read h s @ xs) h1, t))"

section \<open>The mempool on slices\<close>

definition sl_New :: "int \<Rightarrow> store \<Rightarrow> store \<times> slice" where
  "sl_New capacity h = make_slice 0 (nat (if capacity < 0 then 0 else capacity)) h"

definition sl_Add :: "(nat \<Rightarrow> nat \<Rightarrow> nat) \<Rightarrow> EncryptedTransaction \<Rightarrow> store \<times> slice \<Rightarrow> store \<times> slice" where
  "sl_Add grow tx m = append_slice grow (snd m) [tx] (fst m)"

definition sl_Size :: "store \<times> slice \<Rightarrow> nat" where
  "sl_Size m = len (snd m)"

text \<open>The statements shared by the draining methods: copy out the first \<open>n\<close>, shift the rest.\<close>

definition sl_take :: "(nat \<Rightarrow> nat \<Rightarrow> nat) \<Rightarrow> nat \<Rightarrow> store \<times> slice \<Rightarrow> (store \<times> slice) \<times> slice" where
  "sl_take grow n m =
     (let (h, s) = m;
          (h1, out) = make_slice n n h;
          h2 = copy_slice out (slice_to n s) h1
      in (append_slice grow (slice_to 0 s) (slice_read h2 (slice_from n s)) h2, out))"

definition sl_DrainUpTo ::
  "(nat \<Rightarrow> nat \<Rightarrow> nat) \<Rightarrow> int \<Rightarrow> store \<times> slice \<Rightarrow> (store \<times> slice) \<times> slice option" where
  "sl_DrainUpTo grow n m =
     (if n \<le> 0 then (m, None)
      else if len (snd m) = 0 then (m, None)
      else let k = (if n > int (len (snd m)) then len (snd m) else nat n);
               (m', out) = sl_take grow k m
           in (m', Some out))"

definition sl_DrainAll :: "store \<times> slice \<Rightarrow> (store \<times> slice) \<times> slice option" where
  "sl_DrainAll m =
     (let (h, s) = m in
      if len s = 0 then (m, None)
      else let (h1, out) = make_slice (len s) (len s) h; h2 = copy_slice out s h1
           in ((h2, slice_to 0 s), Some out))"

text \<open>One round of \<open>DrainWait\<close>.\<close>

definition sl_try_drain ::
  "(nat \<Rightarrow> nat \<Rightarrow> nat) \<Rightarrow> int \<Rightarrow> store \<times> slice \<Rightarrow> ((store \<times> slice) \<times> slice) option" where
  "sl_try_drain grow n m =
     (if int (len (snd m)) \<ge> n
      then Some (sl_take grow (nat (if n > int (len (snd m)) then int (len (snd m)) else n)) m)
      else None)"

section \<open>Facts on the store\<close>

definition wf_slice :: "store \<Rightarrow> slice \<Rightarrow> bool" where
  "wf_slice h s \<longleftrightarrow> arr s < next_arr h \<and> off s + cap s \<le> length (arrays h (arr s)) \<and> len s \<le> cap s"

lemma length_slice_read [simp]: "wf_slice h s \<Longrightarrow> length (slice_read h s) = len s"
  by (auto simp: slice_read_def wf_slice_def min_def)

lemma arrays_blit_other [simp]: "b \<noteq> a \<Longrightarrow> arrays (blit a i xs h) b = arrays h b"
  by (simp add: blit_def)

lemma next_blit [simp]: "next_arr (blit a i xs h) = next_arr h"
  by (simp add: blit_def)

lemma length_blit [simp]:
  "i + length xs \<le> length (arrays h a) \<Longrightarrow> length (arrays (blit a i xs h) b) = length (arrays h b)"
  by (simp add: blit_def)

lemma slice_read_other: "arrays h (arr s) = arrays h' (arr s) \<Longrightarrow> slice_read h s = slice_read h' s"
  by (simp add: slice_read_def)

lemma blit_same:
  "i + length xs \<le> length (arrays h a) \<Longrightarrow>
     arrays (blit a i xs h) a = take i (arrays h a) @ xs @ drop (i + length xs) (arrays h a)"
  by (simp add: blit_def)

text \<open>What a call may do to the rest of the store: old arrays other than \<open>a\<close> stay as they are.\<close>

definition only_writes :: "nat \<Rightarrow> store \<Rightarrow> store \<Rightarrow> bool" where
  "only_writes a h h' \<longleftrightarrow> next_arr h \<le> next_arr h' \<and> (\<forall>b < next_arr h. b \<noteq> a \<longrightarrow> arrays h' b = arrays h b)"

lemma only_writes_read:
  "only_writes a h h' \<Longrightarrow> wf_slice h s \<Longrightarrow> arr s \<noteq> a \<Longrightarrow> slice_read h' s = slice_read h s \<and> wf_slice h' s"
  by (auto simp: only_writes_def wf_slice_def slice_read_def)

lemma append_slice_ok:
  assumes "wf_slice h s" and "append_slice grow s xs h = (h', s')"
  shows "wf_slice h' s' \<and> slice_read h' s' = slice_read h s @ xs \<and> only_writes (arr s) h h' \<and>
    (arr s' = arr s \<or> next_arr h \<le> arr s')"
proof (cases "len s + length xs \<le> cap s")
  case True
  let ?A = "arrays h (arr s)"
  from True assms(1) have room: "off s + len s + length xs \<le> length ?A" by (simp add: wf_slice_def)
  from True assms(2) have h': "h' = blit (arr s) (off s + len s) xs h" and s': "s' = s\<lparr>len := len s + length xs\<rparr>"
    by (simp_all add: append_slice_def)
  have A': "arrays h' (arr s) = take (off s + len s) ?A @ xs @ drop (off s + len s + length xs) ?A"
    using room h' by (simp add: blit_same)
  have "drop (off s) (take (off s + len s) ?A) = slice_read h s"
    by (simp add: slice_read_def drop_take)
  with A' room have "slice_read h' s' = slice_read h s @ xs"
    by (simp add: slice_read_def s')
  moreover have "wf_slice h' s'"
    using assms(1) True room by (simp add: wf_slice_def h' s')
  ultimately show ?thesis using s' by (simp add: only_writes_def h')
next
  case False
  let ?need = "len s + length xs" and ?c = "max (len s + length xs) (grow (cap s) (len s + length xs))"
  from False assms(2) have h': "h' = blit (next_arr h) 0 (slice_read h s @ xs) (fst (make_slice ?need ?c h))"
    and s': "s' = \<lparr>arr = next_arr h, off = 0, len = ?need, cap = ?c\<rparr>"
    by (auto simp: append_slice_def make_slice_def Let_def)
  have full: "length (slice_read h s @ xs) = ?need" using assms(1) by simp
  then have A': "arrays h' (next_arr h) = (slice_read h s @ xs) @ replicate (?c - ?need) zero_tx"
    by (simp add: h' blit_def make_slice_def del: append_assoc)
  have "slice_read h' s' = slice_read h s @ xs"
    unfolding slice_read_def [of h'] using A' full by (simp add: s' del: append_assoc)
  moreover have "wf_slice h' s'"
    using A' full by (simp add: wf_slice_def s' h' make_slice_def)
  moreover have "only_writes (arr s) h h'"
    by (auto simp: only_writes_def h' make_slice_def)
  ultimately show ?thesis by (simp add: s')
qed

lemma make_copy_ok:
  assumes "wf_slice h s" and "n \<le> len s" and "make_slice n n h = (h1, out)"
    and "h2 = copy_slice out (slice_to n s) h1"
  shows "wf_slice h2 s \<and> wf_slice h2 out \<and> arr out = next_arr h \<and> next_arr h2 = Suc (next_arr h) \<and>
    slice_read h2 s = slice_read h s \<and> slice_read h2 out = take n (slice_read h s) \<and>
    (\<forall>b < next_arr h. arrays h2 b = arrays h b)"
proof -
  have old: "arr s \<noteq> next_arr h" using assms(1) by (simp add: wf_slice_def)
  have h1: "h1 = h\<lparr>arrays := (arrays h)(next_arr h := replicate n zero_tx), next_arr := Suc (next_arr h)\<rparr>"
    and out: "out = \<lparr>arr = next_arr h, off = 0, len = n, cap = n\<rparr>"
    using assms(3) by (simp_all add: make_slice_def)
  have src: "take n (slice_read h1 (slice_to n s)) = take n (slice_read h s)"
    using assms(2) old by (simp add: slice_read_def slice_to_def h1 min_def)
  have full: "length (take n (slice_read h s)) = n" using assms(1,2) by simp
  have "h2 = blit (next_arr h) 0 (take n (slice_read h s)) h1"
    using assms(4) src by (simp add: copy_slice_def out slice_to_def)
  then have h2: "arrays h2 = (arrays h)(next_arr h := take n (slice_read h s))"
    using full by (simp add: blit_def h1)
  have n2: "next_arr h2 = Suc (next_arr h)" using assms(4) by (simp add: copy_slice_def h1)
  from h2 n2 old assms(1,2) show ?thesis
    by (auto simp: wf_slice_def slice_read_def out)
qed

lemma slice_read_from: "wf_slice h s \<Longrightarrow> n \<le> len s \<Longrightarrow> slice_read h (slice_from n s) = drop n (slice_read h s)"
  by (simp add: slice_read_def slice_from_def drop_take add.commute)

lemma sl_take_ok:
  assumes "wf_slice h s" and "n \<le> len s" and "sl_take grow n (h, s) = ((h', s'), out)"
  shows "wf_slice h' s' \<and> wf_slice h' out \<and> arr s' = arr s \<and> next_arr h \<le> arr out \<and>
    slice_read h' s' = drop n (slice_read h s) \<and> slice_read h' out = take n (slice_read h s) \<and>
    only_writes (arr s) h h'"
proof -
  obtain h1 where mk: "make_slice n n h = (h1, out)"
    and ap: "append_slice grow (slice_to 0 s) (slice_read (copy_slice out (slice_to n s) h1) (slice_from n s))
      (copy_slice out (slice_to n s) h1) = (h', s')"
    using assms(3) by (auto simp: sl_take_def Let_def split: prod.splits)
  define h2 where "h2 = copy_slice out (slice_to n s) h1"
  note c = make_copy_ok [OF assms(1,2) mk h2_def]
  have w0: "wf_slice h2 (slice_to 0 s)" using c by (simp add: wf_slice_def slice_to_def)
  have rest: "slice_read h2 (slice_from n s) = drop n (slice_read h s)"
    using c assms(2) slice_read_from by simp
  note a = append_slice_ok [OF w0 ap [folded h2_def]]
  have "length (slice_read h2 (slice_from n s)) \<le> cap s" using assms(1) rest by (auto simp: wf_slice_def)
  then have "arr s' = arr s"
    using ap [folded h2_def] by (auto simp: append_slice_def slice_to_def split: if_splits)
  moreover have "only_writes (arr s) h h'"
    using a c by (auto simp: only_writes_def slice_to_def)
  moreover have "arr out \<noteq> arr s" using c assms(1) by (auto simp: wf_slice_def)
  then have "slice_read h' out = slice_read h2 out \<and> wf_slice h' out"
    using only_writes_read [of "arr s" h2 h' out] a c by (simp add: slice_to_def)
  moreover have "slice_read h2 (slice_to 0 s) = []" by (simp add: slice_read_def slice_to_def)
  ultimately show ?thesis using a c rest by simp
qed

section \<open>Refinement\<close>

text \<open>
  The program around the mempool: it calls the methods and may write into any batch it has been
  given.  \<open>val_step\<close> says what that means if slices were values, \<open>sl_step\<close> what it does to the
  store.
\<close>

datatype pool_action = PoolOp mempool_op | ClientWrite nat nat EncryptedTransaction

fun val_step ::
  "pool_action \<Rightarrow> EncryptedMempool \<times> EncryptedTransaction list list \<Rightarrow>
   EncryptedMempool \<times> EncryptedTransaction list list" where
  "val_step (PoolOp p) (m, outs) =
     (let (m', r) = mempool_apply p m in (m', case r of None \<Rightarrow> outs | Some b \<Rightarrow> outs @ [b]))"
| "val_step (ClientWrite j i tx) (m, outs) = (m, outs[j := (outs ! j)[i := tx]])"

fun sl_apply ::
  "(nat \<Rightarrow> nat \<Rightarrow> nat) \<Rightarrow> mempool_op \<Rightarrow> store \<times> slice \<Rightarrow> (store \<times> slice) \<times> slice option" where
  "sl_apply grow (OpAdd tx) m = (sl_Add grow tx m, None)"
| "sl_apply grow (OpDrainUpTo n) m = sl_DrainUpTo grow n m"
| "sl_apply grow OpDrainAll m = sl_DrainAll m"

fun sl_step ::
  "(nat \<Rightarrow> nat \<Rightarrow> nat) \<Rightarrow> pool_action \<Rightarrow> (store \<times> slice) \<times> slice list \<Rightarrow> (store \<times> slice) \<times> slice list" where
  "sl_step grow (PoolOp p) (m, outs) =
     (let (m', r) = sl_apply grow p m in (m', case r of None \<Rightarrow> outs | Some b \<Rightarrow> outs @ [b]))"
| "sl_step grow (ClientWrite j i tx) ((h, s), outs) =
     (if j < length outs \<and> i < len (outs ! j)
      then ((blit (arr (outs ! j)) (off (outs ! j) + i) [tx] h, s), outs)
      else ((h, s), outs))"

definition pool_rel ::
  "(store \<times> slice) \<times> slice list \<Rightarrow> EncryptedMempool \<times> EncryptedTransaction list list \<Rightarrow> bool" where
  "pool_rel c v \<longleftrightarrow> (let ((h, s), os) = c; (m, outs) = v in
     wf_slice h s \<and> list_all (wf_slice h) os \<and> slice_read h s = items m \<and> map (slice_read h) os = outs \<and>
     distinct (arr s # map arr os))"

lemma pool_rel_mempool:
  assumes "pool_rel ((h, s), os) (m, outs)" and "wf_slice h' s'" and "only_writes (arr s) h h'"
    and "arr s' = arr s \<or> next_arr h \<le> arr s'" and "slice_read h' s' = items m'"
  shows "pool_rel ((h', s'), os) (m', outs)"
proof -
  have old: "slice_read h' x = slice_read h x \<and> wf_slice h' x \<and> arr x < next_arr h" if "x \<in> set os" for x
  proof -
    have "wf_slice h x" "arr x \<noteq> arr s" using that assms(1) by (auto simp: pool_rel_def list_all_iff image_iff)
    with only_writes_read [OF assms(3)] show ?thesis by (simp add: wf_slice_def)
  qed
  then show ?thesis using assms by (fastforce simp: pool_rel_def list_all_iff)
qed

lemma pool_rel_out:
  assumes "pool_rel ((h, s), os) (m, outs)" and "wf_slice h out" and "arr out \<noteq> arr s"
    and "list_all (\<lambda>x. arr x \<noteq> arr out) os"
  shows "pool_rel ((h, s), os @ [out]) (m, outs @ [slice_read h out])"
  using assms by (auto simp: pool_rel_def list_all_iff)

text \<open>A draining method: the mempool keeps the rest, a fresh array holds what is handed out.\<close>

lemma pool_rel_drain:
  assumes rel: "pool_rel ((h, s), os) (m, outs)"
    and "wf_slice h' s'" "only_writes (arr s) h h'" "arr s' = arr s" "slice_read h' s' = items m'"
    and "wf_slice h' out" "next_arr h \<le> arr out"
  shows "pool_rel ((h', s'), os @ [out]) (m', outs @ [slice_read h' out])"
proof (rule pool_rel_out)
  show "pool_rel ((h', s'), os) (m', outs)" using pool_rel_mempool [OF rel] assms by simp
  show "list_all (\<lambda>x. arr x \<noteq> arr out) os" "arr out \<noteq> arr s'"
    using rel assms(4,7) by (auto simp: pool_rel_def list_all_iff wf_slice_def)
qed (rule assms)

lemma pool_rel_DrainAll:
  assumes rel: "pool_rel ((h, s), os) (m, outs)"
    and d: "sl_DrainAll (h, s) = ((h', s'), Some out)"
  shows "pool_rel ((h', s'), os @ [out]) (m\<lparr>items := []\<rparr>, outs @ [items m])"
proof -
  have wf: "wf_slice h s" using rel by (simp add: pool_rel_def)
  from d obtain h1 where mk: "make_slice (len s) (len s) h = (h1, out)" and s': "s' = slice_to 0 s"
    and h': "h' = copy_slice out s h1"
    by (auto simp: sl_DrainAll_def Let_def split: if_splits prod.splits)
  have "slice_to (len s) s = s" by (simp add: slice_to_def)
  with make_copy_ok [OF wf order.refl mk, of h'] h'
  have c: "wf_slice h' s" "wf_slice h' out" "arr out = next_arr h" "next_arr h' = Suc (next_arr h)"
    "slice_read h' out = slice_read h s" "\<forall>b < next_arr h. arrays h' b = arrays h b"
    using wf by simp_all
  have "pool_rel ((h', s'), os @ [out]) (m\<lparr>items := []\<rparr>, outs @ [slice_read h' out])"
    by (rule pool_rel_drain [OF rel])
      (use c wf in \<open>simp_all add: s' slice_to_def wf_slice_def only_writes_def slice_read_def\<close>)
  moreover have "slice_read h' out = items m" using c(5) rel by (simp add: pool_rel_def)
  ultimately show ?thesis by simp
qed

lemma pool_rel_write:
  assumes "pool_rel ((h, s), os) (m, outs)" and "j < length os" and "i < len (os ! j)"
  shows "pool_rel ((blit (arr (os ! j)) (off (os ! j) + i) [tx] h, s), os) (m, outs[j := (outs ! j)[i := tx]])"
proof -
  let ?t = "os ! j" and ?h' = "blit (arr (os ! j)) (off (os ! j) + i) [tx] h"
  have wf: "wf_slice h ?t" and dist: "distinct (arr s # map arr os)"
    using assms(1,2) by (simp_all add: pool_rel_def list_all_length)
  have room: "off ?t + i + length [tx] \<le> length (arrays h (arr ?t))"
    using wf assms(3) by (simp add: wf_slice_def)
  have other: "slice_read ?h' x = slice_read h x" if "arr x \<noteq> arr ?t" for x
    using that by (simp add: slice_read_def)
  have wf': "wf_slice ?h' x \<longleftrightarrow> wf_slice h x" for x
    using length_blit [OF room, of "arr x"] by (simp add: wf_slice_def)
  have "arrays ?h' (arr ?t) = (arrays h (arr ?t))[off ?t + i := tx]"
    using blit_same [OF room] room by (simp add: upd_conv_take_nth_drop)
  then have self: "slice_read ?h' ?t = (slice_read h ?t)[i := tx]"
    using assms(3) by (simp add: slice_read_def drop_update_swap take_update_swap)
  have "map (slice_read ?h') os = (map (slice_read h) os)[j := (map (slice_read h) os ! j)[i := tx]]"
  proof (rule nth_equalityI)
    fix k assume "k < length (map (slice_read ?h') os)"
    then have k: "k < length os" by simp
    show "map (slice_read ?h') os ! k =
        (map (slice_read h) os)[j := (map (slice_read h) os ! j)[i := tx]] ! k"
    proof (cases "k = j")
      case False
      then have "arr (os ! k) \<noteq> arr ?t"
        using dist k assms(2) nth_eq_iff_index_eq [of "map arr os" k j] by simp
      with False k other show ?thesis by simp
    qed (use self k in simp)
  qed simp
  moreover have "arr s \<noteq> arr ?t" using dist assms(2) by (metis distinct.simps(2) length_map nth_map nth_mem)
  ultimately show ?thesis using assms(1) wf' other by (simp add: pool_rel_def list_all_iff)
qed

lemma sl_step_rel:
  assumes rel: "pool_rel c v"
  shows "pool_rel (sl_step grow a c) (val_step a v)"
proof -
  obtain h s os m outs where c: "c = ((h, s), os)" and v: "v = (m, outs)" by (metis prod.collapse)
  have wf: "wf_slice h s" and rd: "slice_read h s = items m" and n: "len s = length (items m)"
    using rel length_slice_read [of h s] by (auto simp: pool_rel_def c v)
  show ?thesis
  proof (cases a)
    case (PoolOp p)
    show ?thesis
    proof (cases p)
      case (OpAdd tx)
      obtain h' s' where ap: "append_slice grow s [tx] h = (h', s')" by fastforce
      with append_slice_ok [OF wf ap] rel PoolOp OpAdd rd show ?thesis
        by (simp add: c v sl_Add_def mempool_Add_def pool_rel_mempool [OF rel [unfolded c v]])
    next
      case (OpDrainUpTo k)
      show ?thesis
      proof (cases "k \<le> 0 \<or> len s = 0")
        case True
        with PoolOp OpDrainUpTo rel n show ?thesis
          by (auto simp: c v sl_DrainUpTo_def mempool_DrainUpTo_def)
      next
        case False
        let ?k = "if k > int (len s) then len s else nat k"
        obtain h' s' out where t: "sl_take grow ?k (h, s) = ((h', s'), out)" by (metis prod.collapse)
        have "?k \<le> len s" by auto
        note ok = sl_take_ok [OF wf this t]
        have "pool_rel ((h', s'), os @ [out]) (m\<lparr>items := drop ?k (items m)\<rparr>, outs @ [slice_read h' out])"
          by (rule pool_rel_drain [OF rel [unfolded c v]]) (use ok rd in simp_all)
        with False PoolOp OpDrainUpTo n t ok rd show ?thesis
          by (auto simp: c v sl_DrainUpTo_def mempool_DrainUpTo_def Let_def)
      qed
    next
      case OpDrainAll
      show ?thesis
      proof (cases "len s = 0")
        case True
        with PoolOp OpDrainAll rel n show ?thesis by (simp add: c v sl_DrainAll_def mempool_DrainAll_def)
      next
        case False
        then obtain h' s' out where d: "sl_DrainAll (h, s) = ((h', s'), Some out)"
          by (cases "make_slice (len s) (len s) h") (simp add: sl_DrainAll_def Let_def)
        from pool_rel_DrainAll [OF rel [unfolded c v] this] False PoolOp OpDrainAll n d show ?thesis
          by (simp add: c v mempool_DrainAll_def)
      qed
    qed
  next
    case (ClientWrite j i tx)
    have lens: "length outs = length os" "length (outs ! j) = len (os ! j)" if "j < length os"
      using rel that by (auto simp: pool_rel_def c v list_all_length)
    show ?thesis
    proof (cases "j < length os \<and> i < len (os ! j)")
      case True
      with pool_rel_write [OF rel [unfolded c v]] ClientWrite show ?thesis by (simp add: c v)
    next
      case False
      have "outs[j := (outs ! j)[i := tx]] = outs"
      proof (cases "j < length os")
        case True
        with False lens have "(outs ! j)[i := tx] = outs ! j" by (simp add: list_update_beyond)
        then show ?thesis by simp
      next
        case False
        then have "length outs \<le> j" using rel by (auto simp: pool_rel_def c v)
        then show ?thesis by (rule list_update_beyond)
      qed
      with False rel ClientWrite show ?thesis by (auto simp: c v)
    qed
  qed
qed

lemma sl_New_rel: "pool_rel (sl_New n h, []) (NewEncryptedMempool n, [])"
  by (auto simp: pool_rel_def sl_New_def NewEncryptedMempool_def make_slice_def wf_slice_def slice_read_def)

text \<open>
  C9: value semantics.  Whatever sequence of \<open>Add\<close>, \<open>DrainUpTo\<close> and \<open>DrainAll\<close> calls and of
  writes by callers into the batches they own is made, and however the runtime grows arrays, the
  slice-level mempool holds exactly the sequence the abstract one holds, and every batch handed
  out reads, at the end, as if it had been a value: the in-place shift of the backing array
  never reaches a caller, and no caller reaches the mempool.
\<close>

theorem slices_refine_values:
  "case foldl (\<lambda>c a. sl_step grow a c) (sl_New n h, []) as of ((h', s'), outs) \<Rightarrow>
     (\<lparr>items = slice_read h' s'\<rparr>, map (slice_read h') outs) =
       foldl (\<lambda>v a. val_step a v) (NewEncryptedMempool n, []) as"
proof -
  have "pool_rel (foldl (\<lambda>c a. sl_step grow a c) c as) (foldl (\<lambda>v a. val_step a v) v as)" if "pool_rel c v" for c v
    using that
  proof (induction as arbitrary: c v)
    case (Cons a as)
    from Cons.IH [OF sl_step_rel [OF Cons.prems]] show ?case by simp
  qed simp
  note rel = this [OF sl_New_rel]
  obtain h' s' outs where c: "foldl (\<lambda>c a. sl_step grow a c) (sl_New n h, []) as = ((h', s'), outs)"
    by (metis prod.collapse)
  obtain m vs where v: "foldl (\<lambda>v a. val_step a v) (NewEncryptedMempool n, []) as = (m, vs)"
    by (metis prod.collapse)
  from rel [of n h] show ?thesis unfolding c v by (simp add: pool_rel_def)
qed

text \<open>A round of \<open>DrainWait\<close> refines the abstract round in the same way.\<close>

lemma sl_try_drain_refines:
  assumes "wf_slice h s" and "0 < n"
  shows "mempool_try_drain n \<lparr>items = slice_read h s\<rparr> =
    (case sl_try_drain grow n (h, s) of
       None \<Rightarrow> None
     | Some ((h', s'), out) \<Rightarrow> Some (\<lparr>items = slice_read h' s'\<rparr>, slice_read h' out))"
proof (cases "n \<le> int (len s)")
  case True
  obtain h' s' out where t: "sl_take grow (nat n) (h, s) = ((h', s'), out)" by (metis prod.collapse)
  from sl_take_ok [OF assms(1) _ t] True t assms show ?thesis
    by (simp add: sl_try_drain_def mempool_try_drain_def Let_def)
qed (use assms in \<open>simp add: sl_try_drain_def mempool_try_drain_def\<close>)

text \<open>A batch of two, the first overwritten by its owner while the mempool goes on.\<close>

lemma slices_example:
  "foldl (\<lambda>v a. val_step a v) (NewEncryptedMempool 1, [])
     [PoolOp (OpAdd (zero_tx\<lparr>ID := 1\<rparr>)), PoolOp (OpAdd (zero_tx\<lparr>ID := 2\<rparr>)), PoolOp (OpAdd (zero_tx\<lparr>ID := 3\<rparr>)),
      PoolOp (OpDrainUpTo 2), ClientWrite 0 0 zero_tx, PoolOp (OpAdd (zero_tx\<lparr>ID := 4\<rparr>)), PoolOp OpDrainAll] =
   (\<lparr>items = []\<rparr>, [[zero_tx, zero_tx\<lparr>ID := 2\<rparr>], [zero_tx\<lparr>ID := 3\<rparr>, zero_tx\<lparr>ID := 4\<rparr>]])"
  by (simp add: NewEncryptedMempool_def mempool_Add_def mempool_DrainUpTo_def mempool_DrainAll_def Let_def)

end
