(* ===== verification/Step_System.thy ===== *)
theory Step_System
  imports Main
begin

text \<open>
  Concurrent components are modelled as labelled step functions: an action names the
  goroutine that moves and the branch its \<open>select\<close> takes, \<open>None\<close> says the action is not
  enabled (the goroutine is blocked or the branch is not ready), \<open>Some (s', es)\<close> gives the
  next state and the observable events.  A run is a sequence of actions: every interleaving
  of the goroutines is one, since the actions are arbitrary.
\<close>

type_synonym ('a, 's, 'e) stepper = "'a \<Rightarrow> 's \<Rightarrow> ('s \<times> 'e list) option"

fun run :: "('a, 's, 'e) stepper \<Rightarrow> 'a list \<Rightarrow> 's \<Rightarrow> ('s \<times> 'e list) option" where
  "run step [] s = Some (s, [])"
| "run step (a # as) s =
     (case step a s of
        None \<Rightarrow> None
      | Some (s1, es) \<Rightarrow>
         (case run step as s1 of
            None \<Rightarrow> None
          | Some (s2, es') \<Rightarrow> Some (s2, es @ es')))"

lemma run_Cons_Some:
  "run step (a # as) s = Some (s2, evs) \<longleftrightarrow>
     (\<exists>s1 es es'. step a s = Some (s1, es) \<and> run step as s1 = Some (s2, es') \<and> evs = es @ es')"
  by (auto split: option.splits)

lemma run_ConsE:
  assumes "run step (a # as) s = Some (s2, evs)"
  obtains s1 es es' where "step a s = Some (s1, es)" "run step as s1 = Some (s2, es')" "evs = es @ es'"
  using assms unfolding run_Cons_Some by blast

lemma run_append:
  "run step (as @ bs) s =
     (case run step as s of
        None \<Rightarrow> None
      | Some (s1, es) \<Rightarrow>
         (case run step bs s1 of None \<Rightarrow> None | Some (s2, es') \<Rightarrow> Some (s2, es @ es')))"
  by (induction as arbitrary: s) (auto split: option.splits)

text \<open>
  The invariant rule.  \<open>P\<close> relates the actions performed, the state reached and the events
  observed so far.
\<close>

lemma run_invariant:
  assumes "run step as s = Some (s', evs)" and "P [] s []"
    and "\<And>as s evs a s' es. P as s evs \<Longrightarrow> step a s = Some (s', es) \<Longrightarrow> P (as @ [a]) s' (evs @ es)"
  shows "P as s' evs"
proof -
  have "P (bs @ as) s' (evs0 @ evs)" if "P bs s evs0" "run step as s = Some (s', evs)" for bs evs0
    using that
  proof (induction as arbitrary: s bs evs0 evs)
    case Nil
    then show ?case by simp
  next
    case (Cons a as)
    from Cons.prems(2) obtain s1 es es' where step: "step a s = Some (s1, es)"
      and rest: "run step as s1 = Some (s', es')" and evs: "evs = es @ es'"
      by (blast elim: run_ConsE)
    from assms(3) [OF Cons.prems(1) step] have "P (bs @ [a]) s1 (evs0 @ es)" .
    from Cons.IH [OF this rest] evs show ?case by simp
  qed
  from this [of "[]" "[]"] assms show ?thesis by simp
qed

text \<open>A run none of whose steps is of a given kind.\<close>

fun run_avoids :: "('a, 's, 'e) stepper \<Rightarrow> ('a \<Rightarrow> 's \<Rightarrow> bool) \<Rightarrow> 'a list \<Rightarrow> 's \<Rightarrow> bool" where
  "run_avoids step bad [] s \<longleftrightarrow> True"
| "run_avoids step bad (a # as) s \<longleftrightarrow>
     \<not> bad a s \<and> (case step a s of None \<Rightarrow> True | Some (s1, _) \<Rightarrow> run_avoids step bad as s1)"

lemma run_avoids_prefix: "run_avoids step bad (as @ bs) s \<Longrightarrow> run_avoids step bad as s"
  by (induction as arbitrary: s) (auto split: option.splits)

lemma run_avoids_weaken:
  assumes "run_avoids step bad as s" and "P s"
    and "\<And>a s s' es. P s \<Longrightarrow> \<not> bad a s \<Longrightarrow> step a s = Some (s', es) \<Longrightarrow> P s'"
    and "\<And>a s. P s \<Longrightarrow> \<not> bad a s \<Longrightarrow> \<not> bad' a s"
  shows "run_avoids step bad' as s"
  using assms(1,2)
proof (induction as arbitrary: s)
  case (Cons a as)
  then show ?case using assms(3,4) by (auto split: option.splits)
qed simp

text \<open>The invariant rule for such runs: only the steps not excluded need to preserve \<open>P\<close>.\<close>

definition guarded :: "('a, 's, 'e) stepper \<Rightarrow> ('a \<Rightarrow> 's \<Rightarrow> bool) \<Rightarrow> ('a, 's, 'e) stepper" where
  "guarded step bad a s = (if bad a s then None else step a s)"

lemma run_guarded:
  "run_avoids step bad as s \<Longrightarrow> run step as s = Some x \<Longrightarrow> run (guarded step bad) as s = Some x"
  by (induction as arbitrary: s x) (auto simp: guarded_def split: option.splits)

lemma run_invariant_avoids:
  assumes "run step as s = Some (s', evs)" and "run_avoids step bad as s" and "P [] s []"
    and "\<And>as s evs a s' es. P as s evs \<Longrightarrow> \<not> bad a s \<Longrightarrow> step a s = Some (s', es) \<Longrightarrow>
      P (as @ [a]) s' (evs @ es)"
  shows "P as s' evs"
  by (rule run_invariant [OF run_guarded [OF assms(2,1)], where P = P])
    (use assms(3,4) in \<open>auto simp: guarded_def split: if_splits\<close>)

end
