(* ===== verification/Ordered_Log.thy ===== *)
theory Ordered_Log
  imports Transactions Step_System
begin

text \<open>
  \<open>pkg/sequencing/log.go\<close>: the interface \<open>OrderedLog\<close> and the guarantees its documentation
  demands of every backend, as a locale over a step function.  Both backends interpret it
  (\<open>Tx_Queue\<close> and \<open>Raft_Log\<close>); what follows from the guarantees is proved once, here.
\<close>

section \<open>Observable events of a backend\<close>

text \<open>
  Calls of \<open>SubmitWithReceipt\<close> and of \<open>DrainWait\<close> are identified by numbers chosen by the
  caller.
\<close>

datatype log_event =
    SubmitCalled nat bytes
  | Committed nat EncryptedTransaction
  | Delivered nat EncryptedTransaction
  | SubmitReturned nat "log_error + EncryptedTransaction"
  | DrainReturned nat "EncryptedTransaction list" "log_error option"
  | Panicked string

fun committed :: "log_event list \<Rightarrow> EncryptedTransaction list" where
  "committed [] = []"
| "committed (Committed r tx # es) = tx # committed es"
| "committed (_ # es) = committed es"

fun delivered :: "log_event list \<Rightarrow> EncryptedTransaction list" where
  "delivered [] = []"
| "delivered (Delivered c tx # es) = tx # delivered es"
| "delivered (_ # es) = delivered es"

fun delivered_to :: "nat \<Rightarrow> log_event list \<Rightarrow> EncryptedTransaction list" where
  "delivered_to c [] = []"
| "delivered_to c (Delivered d tx # es) = (if c = d then tx # delivered_to c es else delivered_to c es)"
| "delivered_to c (_ # es) = delivered_to c es"

fun committers :: "log_event list \<Rightarrow> nat list" where
  "committers [] = []"
| "committers (Committed r tx # es) = r # committers es"
| "committers (_ # es) = committers es"

lemma committed_append [simp]: "committed (xs @ ys) = committed xs @ committed ys"
  by (induction xs rule: committed.induct) auto

lemma delivered_append [simp]: "delivered (xs @ ys) = delivered xs @ delivered ys"
  by (induction xs rule: delivered.induct) auto

lemma delivered_to_append [simp]: "delivered_to c (xs @ ys) = delivered_to c xs @ delivered_to c ys"
  by (induction xs rule: delivered.induct) auto

lemma committers_append [simp]: "committers (xs @ ys) = committers xs @ committers ys"
  by (induction xs rule: committers.induct) auto

lemma committers_iff: "r \<in> set (committers es) \<longleftrightarrow> (\<exists>tx. Committed r tx \<in> set es)"
  by (induction es rule: committers.induct) auto

lemma committed_iff: "tx \<in> set (committed es) \<longleftrightarrow> (\<exists>r. Committed r tx \<in> set es)"
  by (induction es rule: committed.induct) auto

text \<open>Both together: which call was committed with which transaction, in commit order.\<close>

fun commits :: "log_event list \<Rightarrow> (nat \<times> EncryptedTransaction) list" where
  "commits [] = []"
| "commits (Committed r tx # es) = (r, tx) # commits es"
| "commits (_ # es) = commits es"

lemma commits_committed:
  "map snd (commits es) = committed es" "(r, tx) \<in> set (commits es) \<longleftrightarrow> Committed r tx \<in> set es"
  by (induction es rule: commits.induct) auto

lemma commits_committers: "map fst (commits es) = committers es"
  by (induction es rule: commits.induct) auto

text \<open>The batches returned to one consumer, in order.\<close>

fun batches :: "nat \<Rightarrow> log_event list \<Rightarrow> EncryptedTransaction list" where
  "batches c [] = []"
| "batches c (DrainReturned d b e # es) = (if c = d then b @ batches c es else batches c es)"
| "batches c (_ # es) = batches c es"

lemma batches_append [simp]: "batches c (xs @ ys) = batches c xs @ batches c ys"
  by (induction xs rule: batches.induct) auto

text \<open>What one consumer receives is a subsequence of what all consumers receive.\<close>

lemma sorted_delivered_to:
  "sorted_wrt P (delivered es) \<Longrightarrow> sorted_wrt P (delivered_to c es)"
proof -
  have sub: "set (delivered_to c es) \<subseteq> set (delivered es)" for es
    by (induction es rule: delivered.induct) auto
  show "sorted_wrt P (delivered es) \<Longrightarrow> sorted_wrt P (delivered_to c es)"
    by (induction es rule: delivered.induct) (use sub in auto)
qed

section \<open>The abstract log\<close>

text \<open>
  What the interface promises, as a machine without goroutines, channels or locks: a commit
  appends a transaction whose ID exceeds all earlier ones, a delivery hands out the oldest one.
  An event the log does not allow is \<open>None\<close>.
\<close>

record log_spec =
  spec_queue :: "EncryptedTransaction list"
  spec_last :: nat

definition spec_init :: log_spec where
  "spec_init = \<lparr>spec_queue = [], spec_last = 0\<rparr>"

fun spec_step :: "log_event \<Rightarrow> log_spec \<Rightarrow> log_spec option" where
  "spec_step (Committed r tx) l =
     (if spec_last l < tx_id tx then Some \<lparr>spec_queue = spec_queue l @ [tx], spec_last = tx_id tx\<rparr> else None)"
| "spec_step (Delivered c tx) l =
     (case spec_queue l of
        [] \<Rightarrow> None
      | oldest # rest \<Rightarrow> if oldest = tx then Some (l\<lparr>spec_queue := rest\<rparr>) else None)"
| "spec_step _ l = Some l"

fun spec_run :: "log_event list \<Rightarrow> log_spec \<Rightarrow> log_spec option" where
  "spec_run [] l = Some l"
| "spec_run (e # es) l = (case spec_step e l of None \<Rightarrow> None | Some l' \<Rightarrow> spec_run es l')"

lemma spec_run_append:
  "spec_run (es @ fs) l = (case spec_run es l of None \<Rightarrow> None | Some l' \<Rightarrow> spec_run fs l')"
  by (induction es arbitrary: l) (auto split: option.splits)

text \<open>A step may hand a transaction over in the moment it commits it, never before.\<close>

fun commits_first :: "log_event list \<Rightarrow> bool" where
  "commits_first [] \<longleftrightarrow> True"
| "commits_first (Delivered c tx # es) \<longleftrightarrow> committed es = []"
| "commits_first (_ # es) \<longleftrightarrow> commits_first es"

lemma commits_firstI: "committed es = [] \<or> delivered es = [] \<Longrightarrow> commits_first es"
  by (induction es rule: commits_first.induct) auto

lemma spec_run_deliveries:
  "committed es = [] \<Longrightarrow> delivered es @ q = q0 \<Longrightarrow>
     spec_run es \<lparr>spec_queue = q0, spec_last = l\<rparr> = Some \<lparr>spec_queue = q, spec_last = l\<rparr>"
  by (induction es arbitrary: q0 rule: delivered.induct) auto

lemma spec_run_step:
  "commits_first es \<Longrightarrow> delivered es @ q = q0 @ committed es \<Longrightarrow> sorted_wrt (<) (map tx_id (committed es)) \<Longrightarrow>
   \<forall>t \<in> set (committed es). l < tx_id t \<and> tx_id t \<le> m \<Longrightarrow> l \<le> m \<Longrightarrow>
     \<exists>k \<le> m. spec_run es \<lparr>spec_queue = q0, spec_last = l\<rparr> = Some \<lparr>spec_queue = q, spec_last = k\<rparr>"
proof (induction es arbitrary: q0 l rule: commits_first.induct)
  case (2 c tx es)
  then show ?case using spec_run_deliveries [of "Delivered c tx # es" q q0 l] by auto
qed auto

section \<open>The contract\<close>

locale ordered_log =
  fixes init :: "'s"
    and step :: "'a \<Rightarrow> 's \<Rightarrow> ('s \<times> log_event list) option"
    and pending :: "'s \<Rightarrow> EncryptedTransaction list"
    and inv :: "'s \<Rightarrow> bool"
    and last_id :: "'s \<Rightarrow> nat"
    and wraps :: "'a \<Rightarrow> 's \<Rightarrow> bool"
  assumes inv_init: "inv init"
    and pending_init: "pending init = []"
    and inv_step: "inv s \<Longrightarrow> step a s = Some (s', es) \<Longrightarrow> inv s'"
    and fifo_step: "inv s \<Longrightarrow> step a s = Some (s', es) \<Longrightarrow>
      delivered es @ pending s' = pending s @ committed es"
    and commit_step: "step a s = Some (s', es) \<Longrightarrow> commits_first es"
    and id_step: "inv s \<Longrightarrow> step a s = Some (s', es) \<Longrightarrow> \<not> wraps a s \<Longrightarrow>
      last_id s \<le> last_id s' \<and> sorted_wrt (<) (map tx_id (committed es)) \<and>
      (\<forall>t \<in> set (committed es). last_id s < tx_id t \<and> tx_id t \<le> last_id s')"
begin

lemma inv_run:
  assumes "run step as init = Some (s, evs)"
  shows "inv s"
  by (rule run_invariant [OF assms, where P = "\<lambda>as s evs. inv s"]) (auto intro: inv_init inv_step)

text \<open>Drained transactions come out in the order they were committed, none missing.\<close>

lemma fifo_run:
  assumes "run step as init = Some (s, evs)"
  shows "delivered evs @ pending s = committed evs"
proof -
  have "inv s \<and> delivered evs @ pending s = committed evs"
  proof (rule run_invariant [OF assms, where P = "\<lambda>as s evs. inv s \<and> delivered evs @ pending s = committed evs"])
    show "inv init \<and> delivered [] @ pending init = committed []"
      by (simp add: inv_init pending_init)
    fix as s evs a s' es
    assume P: "inv s \<and> delivered evs @ pending s = committed evs" and st: "step a s = Some (s', es)"
    have "delivered (evs @ es) @ pending s' = delivered evs @ pending s @ committed es"
      using fifo_step [OF _ st] P by simp
    with P inv_step [OF _ st] show "inv s' \<and> delivered (evs @ es) @ pending s' = committed (evs @ es)"
      by (simp flip: append_assoc)
  qed
  then show ?thesis ..
qed

lemma ids_run_from:
  "run step as s = Some (s', evs) \<Longrightarrow> run_avoids step wraps as s \<Longrightarrow> inv s \<Longrightarrow>
     last_id s \<le> last_id s' \<and> sorted_wrt (<) (map tx_id (committed evs)) \<and>
     (\<forall>t \<in> set (committed evs). last_id s < tx_id t \<and> tx_id t \<le> last_id s')"
proof (induction as arbitrary: s evs)
  case Nil
  then show ?case by simp
next
  case (Cons a as)
  from Cons.prems(1) obtain s1 es es' where st: "step a s = Some (s1, es)"
    and rest: "run step as s1 = Some (s', es')" and evs: "evs = es @ es'"
    by (blast elim: run_ConsE)
  from Cons.prems st have ok: "\<not> wraps a s" "run_avoids step wraps as s1" by auto
  note one = id_step [OF Cons.prems(3) st ok(1)]
  note more = Cons.IH [OF rest ok(2) inv_step [OF Cons.prems(3) st]]
  have "sorted_wrt (<) (map tx_id (committed es) @ map tx_id (committed es'))"
    by (rule sorted_wrt_append_bound [where m = "last_id s1"]) (use one more in auto)
  with one more evs show ?case by fastforce
qed

text \<open>Sequence IDs are unique and strictly increase in commit order.\<close>

lemma ids_run:
  assumes "run step as init = Some (s, evs)" and "run_avoids step wraps as init"
  shows "sorted_wrt (<) (map tx_id (committed evs))"
  using ids_run_from [OF assms inv_init] by simp

text \<open>The backend refines the abstract log: each of its event sequences is one of the log's.\<close>

lemma refines_run:
  assumes "run step as init = Some (s, evs)" and "run_avoids step wraps as init"
  shows "\<exists>k \<le> last_id s. spec_run evs spec_init = Some \<lparr>spec_queue = pending s, spec_last = k\<rparr>"
proof -
  have "inv s \<and> (\<exists>k \<le> last_id s. spec_run evs spec_init = Some \<lparr>spec_queue = pending s, spec_last = k\<rparr>)"
  proof (rule run_invariant_avoids [OF assms, where P = "\<lambda>as s evs. inv s \<and>
      (\<exists>k \<le> last_id s. spec_run evs spec_init = Some \<lparr>spec_queue = pending s, spec_last = k\<rparr>)"])
    show "inv init \<and> (\<exists>k \<le> last_id init. spec_run [] spec_init = Some \<lparr>spec_queue = pending init, spec_last = k\<rparr>)"
      by (simp add: inv_init pending_init spec_init_def)
    fix as s evs a s' es
    assume "inv s \<and> (\<exists>k \<le> last_id s. spec_run evs spec_init = Some \<lparr>spec_queue = pending s, spec_last = k\<rparr>)"
      and ok: "\<not> wraps a s" and st: "step a s = Some (s', es)"
    then obtain k where k: "inv s" "k \<le> last_id s"
      "spec_run evs spec_init = Some \<lparr>spec_queue = pending s, spec_last = k\<rparr>" by blast
    have "\<exists>j \<le> last_id s'. spec_run es \<lparr>spec_queue = pending s, spec_last = k\<rparr> =
        Some \<lparr>spec_queue = pending s', spec_last = j\<rparr>"
      by (rule spec_run_step [OF commit_step [OF st] fifo_step [OF k(1) st]])
        (use id_step [OF k(1) st ok] k(2) in auto)
    with k inv_step [OF k(1) st] show "inv s' \<and> (\<exists>k \<le> last_id s'. spec_run (evs @ es) spec_init =
        Some \<lparr>spec_queue = pending s', spec_last = k\<rparr>)"
      by (simp add: spec_run_append)
  qed
  then show ?thesis ..
qed

text \<open>Hence every consumer sees its transactions by ascending ID.\<close>

lemma drained_sorted:
  assumes "run step as init = Some (s, evs)" and "run_avoids step wraps as init"
  shows "sorted_wrt (\<lambda>x y. tx_id x < tx_id y) (delivered_to c evs)"
proof (rule sorted_delivered_to)
  have "sorted_wrt (\<lambda>x y. tx_id x < tx_id y) (delivered evs @ pending s)"
    using ids_run [OF assms] fifo_run [OF assms(1)] by (simp add: sorted_wrt_map)
  then show "sorted_wrt (\<lambda>x y. tx_id x < tx_id y) (delivered evs)"
    by (simp add: sorted_wrt_append)
qed

end

text \<open>
  A backend that accounts for what its consumers hold: \<open>in_hand\<close> is the batch collected so
  far by a consumer's call in progress.
\<close>

locale batching_log = ordered_log +
  fixes in_hand :: "'a \<Rightarrow> nat \<Rightarrow> EncryptedTransaction list"
  assumes in_hand_init: "in_hand init c = []"
    and in_hand_step: "step a s = Some (s', es) \<Longrightarrow>
      in_hand s c @ delivered_to c es = batches c es @ in_hand s' c"
begin

text \<open>What a consumer takes, its calls return, in order.\<close>

lemma batches_run:
  assumes "run step as init = Some (s, evs)"
  shows "delivered_to c evs = batches c evs @ in_hand s c"
proof (rule run_invariant [OF assms, where P = "\<lambda>_ s es. delivered_to c es = batches c es @ in_hand s c"])
  show "delivered_to c [] = batches c [] @ in_hand init c" by (simp add: in_hand_init)
qed (use in_hand_step in simp)

end

end
