(* ===== verification/Tx_Queue.thy ===== *)
theory Tx_Queue
  imports Ordered_Log
begin

text \<open>
  \<open>pkg/sequencing/queue.go\<close>: the single-node backend.  The state holds the fields of
  \<open>TxQueue\<close>, the program counter of the admission goroutine, the calls of
  \<open>SubmitWithReceipt\<close>, \<open>Drain\<close> and \<open>DrainWait\<close> in progress, the response channels and the
  contexts.  Each branch of each \<open>select\<close> is one action, so a run is any interleaving of any
  number of submitters and consumers with the admission loop.
\<close>

section \<open>State\<close>

text \<open>\<open>submitRequest\<close>; its response channel (buffered, capacity 1) is \<open>resps (req_id r)\<close>.\<close>

record submitRequest =
  req_id :: nat
  req_ctx :: nat
  req_ciphertext :: bytes

text \<open>Where the admission goroutine is.\<close>

datatype loop_pc =
    LoopSelect
  | LoopGot submitRequest
  | LoopStamped submitRequest EncryptedTransaction
  | LoopReject
  | LoopExited

text \<open>Where a call of \<open>SubmitWithReceipt\<close> is: at its first select, at its second, returned.\<close>

datatype sub_pc = SubSending submitRequest | SubWaiting submitRequest | SubReturned

datatype drain_mode = Blocking nat | NonBlocking

record drain_call =
  d_batch :: "EncryptedTransaction list"
  d_size :: int
  d_mode :: drain_mode

record TxQueue =
  capacity :: nat
  ch :: "EncryptedTransaction list"
  ch_closed :: bool
  submitCh :: "submitRequest list"
  done_closed :: bool
  nextID :: u64

record queue_world = TxQueue +
  loop :: loop_pc
  submits :: "nat \<Rightarrow> sub_pc option"
  resps :: "nat \<Rightarrow> (log_error + EncryptedTransaction) option"
  drains :: "nat \<Rightarrow> drain_call option"
  ctx_err :: "nat \<Rightarrow> ctx_error option"

text \<open>
  \<open>NewTxQueue\<close>, with no calls in progress; \<open>make(chan T, n)\<close> panics for a negative \<open>n\<close> and when the buffer
  and its header do not fit the address space.
\<close>

definition queue_init :: "nat \<Rightarrow> queue_world" where
  "queue_init cap = \<lparr>capacity = cap, ch = [], ch_closed = False, submitCh = [], done_closed = False,
     nextID = 0, loop = LoopSelect, submits = (\<lambda>_. None), resps = (\<lambda>_. None), drains = (\<lambda>_. None),
     ctx_err = (\<lambda>_. None)\<rparr>"

definition NewTxQueue :: "int \<Rightarrow> queue_world option" where
  "NewTxQueue cap = (if cap < 0 \<or> 2 ^ 48 - 96 < 56 * cap then None else Some (queue_init (nat cap)))"

definition queue_Len :: "queue_world \<Rightarrow> nat" where
  "queue_Len w = length (ch w)"

text \<open>\<open>Close\<close>: \<open>closeOnce\<close> makes every call after the first a no-op.\<close>

definition queue_Close :: "queue_world \<Rightarrow> queue_world" where
  "queue_Close w = (if done_closed w then w else w\<lparr>done_closed := True\<rparr>)"

section \<open>Submitters\<close>

datatype submit_action =
    CallSubmit nat nat bytes
  | SendRequest nat | SendClosed nat | SendCancelled nat
  | TakeResponse nat | WaitClosed nat | WaitCancelled nat

definition submit_return ::
  "nat \<Rightarrow> log_error + EncryptedTransaction \<Rightarrow> queue_world \<Rightarrow> queue_world \<times> log_event list" where
  "submit_return r res w = (w\<lparr>submits := (submits w)(r \<mapsto> SubReturned)\<rparr>, [SubmitReturned r res])"

fun SubmitWithReceipt_step ::
  "submit_action \<Rightarrow> queue_world \<Rightarrow> (queue_world \<times> log_event list) option" where
  "SubmitWithReceipt_step (CallSubmit r c ciphertext) w =
     (case submits w r of
        Some _ \<Rightarrow> None
      | None \<Rightarrow>
         (let req = \<lparr>req_id = r, req_ctx = c, req_ciphertext = ciphertext\<rparr>
          in Some (w\<lparr>submits := (submits w)(r \<mapsto> SubSending req)\<rparr>, [SubmitCalled r ciphertext])))"
| "SubmitWithReceipt_step (SendRequest r) w =
     (case submits w r of
        Some (SubSending req) \<Rightarrow>
          (if length (submitCh w) < capacity w
           then Some (w\<lparr>submitCh := submitCh w @ [req], submits := (submits w)(r \<mapsto> SubWaiting req)\<rparr>, [])
           else None)
      | _ \<Rightarrow> None)"
| "SubmitWithReceipt_step (SendClosed r) w =
     (case submits w r of
        Some (SubSending req) \<Rightarrow>
          (if done_closed w then Some (submit_return r (Inl ErrQueueClosed) w) else None)
      | _ \<Rightarrow> None)"
| "SubmitWithReceipt_step (SendCancelled r) w =
     (case submits w r of
        Some (SubSending req) \<Rightarrow>
          (case ctx_err w (req_ctx req) of
             Some e \<Rightarrow> Some (submit_return r (Inl (ErrCtx e)) w)
           | None \<Rightarrow> None)
      | _ \<Rightarrow> None)"
| "SubmitWithReceipt_step (TakeResponse r) w =
     (case submits w r of
        Some (SubWaiting req) \<Rightarrow>
          (case resps w r of
             Some res \<Rightarrow> Some (submit_return r res (w\<lparr>resps := (resps w)(r := None)\<rparr>))
           | None \<Rightarrow> None)
      | _ \<Rightarrow> None)"
| "SubmitWithReceipt_step (WaitClosed r) w =
     (case submits w r of
        Some (SubWaiting req) \<Rightarrow>
          (if done_closed w then Some (submit_return r (Inl ErrQueueClosed) w) else None)
      | _ \<Rightarrow> None)"
| "SubmitWithReceipt_step (WaitCancelled r) w =
     (case submits w r of
        Some (SubWaiting req) \<Rightarrow>
          (case ctx_err w (req_ctx req) of
             Some e \<Rightarrow> Some (submit_return r (Inl (ErrCtx e)) w)
           | None \<Rightarrow> None)
      | _ \<Rightarrow> None)"

section \<open>The admission goroutine\<close>

datatype loop_action =
    LoopTake | LoopRendezvous nat | LoopDone
  | LoopCtxExpired | LoopClosedAfterTake | LoopStamp time
  | LoopCommit | LoopHandoff nat | LoopCommitCancelled | LoopCommitClosed
  | RejectOne | RejectRendezvous nat | RejectDone

text \<open>
  Sending on a response channel blocks while its one-element buffer is full: the loop makes
  no step then (\<open>None\<close>).
\<close>

definition respond ::
  "submitRequest \<Rightarrow> log_error + EncryptedTransaction \<Rightarrow> queue_world \<Rightarrow> queue_world option" where
  "respond req res w =
     (case resps w (req_id req) of
        None \<Rightarrow> Some (w\<lparr>resps := (resps w)(req_id req \<mapsto> res)\<rparr>)
      | Some _ \<Rightarrow> None)"

definition respond_goto ::
  "submitRequest \<Rightarrow> log_error + EncryptedTransaction \<Rightarrow> loop_pc \<Rightarrow> queue_world \<Rightarrow>
   (queue_world \<times> log_event list) option" where
  "respond_goto req res pc w = map_option (\<lambda>w'. (w'\<lparr>loop := pc\<rparr>, [])) (respond req res w)"

text \<open>
  On an unbuffered queue (\<open>capacity = 0\<close>) a send and a receive happen together:
  \<open>LoopRendezvous\<close>, \<open>RejectRendezvous\<close> take the request straight from a blocked submitter
  and \<open>LoopHandoff\<close> gives the transaction straight to a waiting consumer.  A \<open>select\<close> with a
  default branch (\<open>LoopStamp\<close>) takes it only if no other branch is ready.
\<close>

fun runAdmissionLoop_step ::
  "loop_action \<Rightarrow> queue_world \<Rightarrow> (queue_world \<times> log_event list) option" where
  "runAdmissionLoop_step LoopTake w =
     (case (loop w, submitCh w) of
        (LoopSelect, req # rest) \<Rightarrow> Some (w\<lparr>submitCh := rest, loop := LoopGot req\<rparr>, [])
      | _ \<Rightarrow> None)"
| "runAdmissionLoop_step (LoopRendezvous r) w =
     (case (loop w, submits w r) of
        (LoopSelect, Some (SubSending req)) \<Rightarrow>
          (if capacity w = 0
           then Some (w\<lparr>submits := (submits w)(r \<mapsto> SubWaiting req), loop := LoopGot req\<rparr>, [])
           else None)
      | _ \<Rightarrow> None)"
| "runAdmissionLoop_step LoopDone w =
     (case loop w of
        LoopSelect \<Rightarrow> (if done_closed w then Some (w\<lparr>loop := LoopReject\<rparr>, []) else None)
      | _ \<Rightarrow> None)"
| "runAdmissionLoop_step LoopCtxExpired w =
     (case loop w of
        LoopGot req \<Rightarrow>
          (case ctx_err w (req_ctx req) of
             Some e \<Rightarrow> respond_goto req (Inl (ErrCtx e)) LoopSelect w
           | None \<Rightarrow> None)
      | _ \<Rightarrow> None)"
| "runAdmissionLoop_step LoopClosedAfterTake w =
     (case loop w of
        LoopGot req \<Rightarrow>
          (if done_closed w then respond_goto req (Inl ErrQueueClosed) LoopReject w else None)
      | _ \<Rightarrow> None)"
| "runAdmissionLoop_step (LoopStamp now) w =
     (case loop w of
        LoopGot req \<Rightarrow>
          (if ctx_err w (req_ctx req) = None \<and> \<not> done_closed w
           then let i = nextID w + 1;
                    tx = \<lparr>ID = i, Ciphertext = req_ciphertext req, ArrivedAt = now\<rparr>
                in Some (w\<lparr>nextID := i, loop := LoopStamped req tx\<rparr>, [])
           else None)
      | _ \<Rightarrow> None)"
| "runAdmissionLoop_step LoopCommit w =
     (case loop w of
        LoopStamped req tx \<Rightarrow>
          (if ch_closed w then Some (w, [Panicked ''send on closed channel''])
           else if length (ch w) < capacity w
           then map_option (\<lambda>w'. (w'\<lparr>ch := ch w @ [tx], loop := LoopSelect\<rparr>, [Committed (req_id req) tx]))
                  (respond req (Inr tx) w)
           else None)
      | _ \<Rightarrow> None)"
| "runAdmissionLoop_step (LoopHandoff c) w =
     (case (loop w, drains w c) of
        (LoopStamped req tx, Some d) \<Rightarrow>
          (if ch_closed w then Some (w, [Panicked ''send on closed channel''])
           else if capacity w = 0 \<and> int (length (d_batch d)) < d_size d
           then map_option (\<lambda>w'. (w'\<lparr>drains := (drains w)(c \<mapsto> d\<lparr>d_batch := d_batch d @ [tx]\<rparr>),
                                    loop := LoopSelect\<rparr>,
                                  [Committed (req_id req) tx, Delivered c tx]))
                  (respond req (Inr tx) w)
           else None)
      | _ \<Rightarrow> None)"
| "runAdmissionLoop_step LoopCommitCancelled w =
     (case loop w of
        LoopStamped req tx \<Rightarrow>
          (case ctx_err w (req_ctx req) of
             Some e \<Rightarrow> respond_goto req (Inl (ErrCtx e)) LoopSelect w
           | None \<Rightarrow> None)
      | _ \<Rightarrow> None)"
| "runAdmissionLoop_step LoopCommitClosed w =
     (case loop w of
        LoopStamped req tx \<Rightarrow>
          (if done_closed w then respond_goto req (Inl ErrQueueClosed) LoopReject w else None)
      | _ \<Rightarrow> None)"
| "runAdmissionLoop_step RejectOne w =
     (case (loop w, submitCh w) of
        (LoopReject, req # rest) \<Rightarrow>
          respond_goto req (Inl ErrQueueClosed) LoopReject (w\<lparr>submitCh := rest\<rparr>)
      | _ \<Rightarrow> None)"
| "runAdmissionLoop_step (RejectRendezvous r) w =
     (case (loop w, submits w r) of
        (LoopReject, Some (SubSending req)) \<Rightarrow>
          (if capacity w = 0
           then respond_goto req (Inl ErrQueueClosed) LoopReject
                  (w\<lparr>submits := (submits w)(r \<mapsto> SubWaiting req)\<rparr>)
           else None)
      | _ \<Rightarrow> None)"
| "runAdmissionLoop_step RejectDone w =
     (case (loop w, submitCh w) of
        (LoopReject, []) \<Rightarrow>
          (if ch_closed w then Some (w, [Panicked ''close of closed channel''])
           else Some (w\<lparr>ch_closed := True, loop := LoopExited\<rparr>, []))
      | _ \<Rightarrow> None)"

section \<open>Consumers\<close>

datatype drain_action =
    CallDrainWait nat nat int | CallDrain nat int
  | DrainRecv nat | DrainFull nat | DrainEmpty nat | DrainClosed nat | DrainCancelled nat

definition drain_call ::
  "nat \<Rightarrow> int \<Rightarrow> drain_mode \<Rightarrow> queue_world \<Rightarrow> (queue_world \<times> log_event list) option" where
  "drain_call c n mode w =
     (case drains w c of
        Some _ \<Rightarrow> None
      | None \<Rightarrow>
         (if cap_out_of_range n then Some (w, [Panicked ''makeslice: cap out of range''])
          else Some (w\<lparr>drains := (drains w)(c \<mapsto> \<lparr>d_batch = [], d_size = n, d_mode = mode\<rparr>)\<rparr>, [])))"

definition drain_return ::
  "nat \<Rightarrow> drain_call \<Rightarrow> log_error option \<Rightarrow> queue_world \<Rightarrow> queue_world \<times> log_event list" where
  "drain_return c d e w = (w\<lparr>drains := (drains w)(c := None)\<rparr>, [DrainReturned c (d_batch d) e])"

text \<open>
  \<open>Drain\<close> and \<open>DrainWait\<close> share the receiving loop: below the requested size they receive,
  and return early on an empty channel (\<open>Drain\<close>), a closed and empty channel, or a done
  context (\<open>DrainWait\<close>).  A closed channel still delivers what it buffers.
\<close>

fun Drain_step :: "drain_action \<Rightarrow> queue_world \<Rightarrow> (queue_world \<times> log_event list) option" where
  "Drain_step (CallDrainWait c x n) w = drain_call c n (Blocking x) w"
| "Drain_step (CallDrain c n) w = drain_call c n NonBlocking w"
| "Drain_step (DrainRecv c) w =
     (case (drains w c, ch w) of
        (Some d, tx # rest) \<Rightarrow>
          (if int (length (d_batch d)) < d_size d
           then Some (w\<lparr>ch := rest, drains := (drains w)(c \<mapsto> d\<lparr>d_batch := d_batch d @ [tx]\<rparr>)\<rparr>,
                      [Delivered c tx])
           else None)
      | _ \<Rightarrow> None)"
| "Drain_step (DrainFull c) w =
     (case drains w c of
        Some d \<Rightarrow>
          (if int (length (d_batch d)) < d_size d then None else Some (drain_return c d None w))
      | None \<Rightarrow> None)"
| "Drain_step (DrainEmpty c) w =
     (case drains w c of
        Some d \<Rightarrow>
          (if int (length (d_batch d)) < d_size d \<and> d_mode d = NonBlocking \<and> ch w = [] \<and> \<not> ch_closed w
           then Some (drain_return c d None w) else None)
      | None \<Rightarrow> None)"
| "Drain_step (DrainClosed c) w =
     (case drains w c of
        Some d \<Rightarrow>
          (if int (length (d_batch d)) < d_size d \<and> ch w = [] \<and> ch_closed w
           then Some (drain_return c d (case d_mode d of NonBlocking \<Rightarrow> None
                                        | Blocking _ \<Rightarrow> Some ErrQueueClosed) w)
           else None)
      | None \<Rightarrow> None)"
| "Drain_step (DrainCancelled c) w =
     (case drains w c of
        Some d \<Rightarrow>
          (case d_mode d of
             NonBlocking \<Rightarrow> None
           | Blocking x \<Rightarrow>
              (case ctx_err w x of
                 Some e \<Rightarrow>
                   (if int (length (d_batch d)) < d_size d
                    then Some (drain_return c d (Some (ErrCtx e)) w) else None)
               | None \<Rightarrow> None))
      | None \<Rightarrow> None)"

section \<open>The whole queue\<close>

datatype queue_action =
    Submitter submit_action
  | Admission loop_action
  | Consumer drain_action
  | CtxCancel nat ctx_error
  | CallClose

fun queue_step :: "queue_action \<Rightarrow> queue_world \<Rightarrow> (queue_world \<times> log_event list) option" where
  "queue_step (Submitter a) w = SubmitWithReceipt_step a w"
| "queue_step (Admission a) w = runAdmissionLoop_step a w"
| "queue_step (Consumer a) w = Drain_step a w"
| "queue_step (CtxCancel x e) w =
     (case ctx_err w x of
        None \<Rightarrow> Some (w\<lparr>ctx_err := (ctx_err w)(x \<mapsto> e)\<rparr>, [])
      | Some _ \<Rightarrow> None)"
| "queue_step CallClose w = Some (queue_Close w, [])"

abbreviation queue_run ::
  "queue_action list \<Rightarrow> queue_world \<Rightarrow> (queue_world \<times> log_event list) option" where
  "queue_run \<equiv> run queue_step"

section \<open>Invariant\<close>

text \<open>Requests accepted by \<open>submitCh\<close> and not yet answered, oldest first.\<close>

fun loop_req :: "loop_pc \<Rightarrow> submitRequest list" where
  "loop_req (LoopGot q) = [q]"
| "loop_req (LoopStamped q tx) = [q]"
| "loop_req _ = []"

definition inflight :: "queue_world \<Rightarrow> submitRequest list" where
  "inflight w = loop_req (loop w) @ submitCh w"

text \<open>
  Every request is in one phase: not sent, in flight (and then unanswered), or answered or
  abandoned.  Stated over the three components it concerns, so that each way of changing
  them has its own small lemma.
\<close>

definition reqs_ok ::
  "submitRequest list \<Rightarrow> (nat \<Rightarrow> (log_error + EncryptedTransaction) option) \<Rightarrow>
   (nat \<Rightarrow> sub_pc option) \<Rightarrow> bool" where
  "reqs_ok I R S \<longleftrightarrow>
     distinct (map req_id I) \<and>
     (\<forall>q \<in> set I. R (req_id q) = None \<and> S (req_id q) \<in> {Some (SubWaiting q), Some SubReturned}) \<and>
     (\<forall>r q. S r = Some (SubSending q) \<longrightarrow> req_id q = r \<and> R r = None) \<and>
     (\<forall>r q. S r = Some (SubWaiting q) \<longrightarrow> req_id q = r) \<and>
     (\<forall>r. S r = None \<longrightarrow> R r = None)"

definition requests_ok :: "queue_world \<Rightarrow> bool" where
  "requests_ok w \<longleftrightarrow> reqs_ok (inflight w) (resps w) (submits w)"

lemma reqs_okI:
  assumes "distinct (map req_id I)"
    and "\<And>q. q \<in> set I \<Longrightarrow> R (req_id q) = None"
    and "\<And>q. q \<in> set I \<Longrightarrow> S (req_id q) = Some (SubWaiting q) \<or> S (req_id q) = Some SubReturned"
    and "\<And>r q. S r = Some (SubSending q) \<Longrightarrow> req_id q = r"
    and "\<And>r q. S r = Some (SubSending q) \<Longrightarrow> R r = None"
    and "\<And>r q. S r = Some (SubWaiting q) \<Longrightarrow> req_id q = r"
    and "\<And>r. S r = None \<Longrightarrow> R r = None"
  shows "reqs_ok I R S"
  using assms by (simp add: reqs_ok_def)

lemma reqs_okD:
  assumes "reqs_ok I R S"
  shows "distinct (map req_id I)"
    and "q \<in> set I \<Longrightarrow> R (req_id q) = None"
    and "q \<in> set I \<Longrightarrow> S (req_id q) = Some (SubWaiting q) \<or> S (req_id q) = Some SubReturned"
    and "S r = Some (SubSending q) \<Longrightarrow> req_id q = r"
    and "S r = Some (SubSending q) \<Longrightarrow> R r = None"
    and "S r = Some (SubWaiting q) \<Longrightarrow> req_id q = r"
    and "S r = None \<Longrightarrow> R r = None"
  using assms by (simp_all add: reqs_ok_def)

lemma reqs_ok_not_inflight:
  "reqs_ok I R S \<Longrightarrow> S r = None \<or> S r = Some (SubSending p) \<Longrightarrow> q \<in> set I \<Longrightarrow> req_id q \<noteq> r"
  by (auto dest: reqs_okD(3))

lemma reqs_ok_call:
  assumes "reqs_ok I R S" and "S r = None"
  shows "reqs_ok I R (S(r \<mapsto> SubSending \<lparr>req_id = r, req_ctx = c, req_ciphertext = b\<rparr>))"
  using reqs_okD [OF assms(1)] reqs_ok_not_inflight [OF assms(1)] assms(2)
  by (intro reqs_okI) (auto split: if_splits)

lemma reqs_ok_insert:
  assumes "reqs_ok (I @ J) R S" and "S r = Some (SubSending q)"
  shows "reqs_ok (I @ q # J) R (S(r \<mapsto> SubWaiting q))"
proof -
  have q: "req_id q = r" "R r = None" using reqs_okD [OF assms(1)] assms(2) by auto
  have new: "req_id p \<noteq> r" if "p \<in> set I \<or> p \<in> set J" for p
    using reqs_ok_not_inflight [OF assms(1)] assms(2) that by auto
  then have "r \<notin> req_id ` set I" "r \<notin> req_id ` set J" by auto
  with q new reqs_okD [OF assms(1)] show ?thesis
    by (intro reqs_okI) (auto split: if_splits)
qed

lemma reqs_ok_push:
  "reqs_ok I R S \<Longrightarrow> S r = Some (SubSending q) \<Longrightarrow> reqs_ok (I @ [q]) R (S(r \<mapsto> SubWaiting q))"
  using reqs_ok_insert [of I "[]"] by simp

lemma reqs_ok_push_front:
  "reqs_ok I R S \<Longrightarrow> S r = Some (SubSending q) \<Longrightarrow> reqs_ok (q # I) R (S(r \<mapsto> SubWaiting q))"
  using reqs_ok_insert [of "[]" I] by simp

lemma reqs_ok_respond:
  assumes "reqs_ok (q # I) R S"
  shows "reqs_ok I (R(req_id q \<mapsto> x)) S"
proof -
  have "req_id p \<noteq> req_id q" if "p \<in> set I" for p
    using reqs_okD(1) [OF assms] that by (auto simp: image_iff)
  moreover have "S (req_id q) \<noteq> Some (SubSending p)" "S (req_id q) \<noteq> None" for p
    using reqs_okD(3) [OF assms, of q] by auto
  ultimately show ?thesis
    using reqs_okD [OF assms] by (intro reqs_okI) (auto split: if_splits)
qed

lemma reqs_ok_respond_sending:
  "reqs_ok I R S \<Longrightarrow> S r = Some (SubSending q) \<Longrightarrow>
     reqs_ok I (R(req_id q \<mapsto> x)) (S(r \<mapsto> SubWaiting q))"
  by (intro reqs_ok_respond reqs_ok_push_front)

lemma reqs_ok_return_sending:
  assumes "reqs_ok I R S" and "S r = Some (SubSending q)"
  shows "reqs_ok I R (S(r \<mapsto> SubReturned))"
  using reqs_okD [OF assms(1)] assms(2) by (intro reqs_okI) (auto split: if_splits)

lemma reqs_ok_return_waiting:
  assumes "reqs_ok I R S" and "S r = Some (SubWaiting q)"
  shows "reqs_ok I R (S(r \<mapsto> SubReturned))"
  using reqs_okD [OF assms(1)] assms(2) by (intro reqs_okI) (auto split: if_splits)

lemma reqs_ok_clear: "reqs_ok I R S \<Longrightarrow> reqs_ok I (R(r := None)) S"
  by (auto simp: reqs_ok_def)

lemma reqs_ok_take:
  "reqs_ok I R S \<Longrightarrow> S r = Some (SubWaiting q) \<Longrightarrow> reqs_ok I (R(r := None)) (S(r \<mapsto> SubReturned))"
  by (intro reqs_ok_clear reqs_ok_return_waiting)

lemma reqs_ok_unanswered: "reqs_ok (q # I) R S \<Longrightarrow> R (req_id q) = None"
  by (simp add: reqs_ok_def)

lemmas reqs_ok_intros = reqs_ok_call reqs_ok_push reqs_ok_push_front reqs_ok_respond
  reqs_ok_respond_sending reqs_ok_return_sending reqs_ok_return_waiting reqs_ok_take

definition shutdown_ok :: "queue_world \<Rightarrow> bool" where
  "shutdown_ok w \<longleftrightarrow> (ch_closed w \<longleftrightarrow> loop w = LoopExited) \<and>
     (loop w = LoopReject \<or> loop w = LoopExited \<longrightarrow> done_closed w)"

definition stamp_ok :: "queue_world \<Rightarrow> bool" where
  "stamp_ok w \<longleftrightarrow> (\<forall>q tx. loop w = LoopStamped q tx \<longrightarrow>
     ID tx = nextID w \<and> Ciphertext tx = req_ciphertext q)"

definition buffers_ok :: "queue_world \<Rightarrow> bool" where
  "buffers_ok w \<longleftrightarrow> length (ch w) \<le> capacity w \<and> length (submitCh w) \<le> capacity w"

definition drains_ok :: "queue_world \<Rightarrow> bool" where
  "drains_ok w \<longleftrightarrow> (\<forall>c d. drains w c = Some d \<longrightarrow> int (length (d_batch d)) \<le> d_size d)"

definition queue_inv :: "queue_world \<Rightarrow> bool" where
  "queue_inv w \<longleftrightarrow> requests_ok w \<and> shutdown_ok w \<and> stamp_ok w \<and> buffers_ok w \<and> drains_ok w"

lemmas queue_splits = option.splits list.splits sub_pc.splits loop_pc.splits if_splits
  drain_mode.splits

lemmas queue_step_defs [step_simps] = submit_return_def respond_def respond_goto_def
  drain_call_def drain_return_def queue_Close_def Let_def

lemma requests_ok_submit:
  "requests_ok w \<Longrightarrow> SubmitWithReceipt_step a w = Some (w', es) \<Longrightarrow> requests_ok w'"
  by (cases a)
    (auto simp: requests_ok_def inflight_def step_simps split: option.splits sub_pc.splits if_splits
      intro: reqs_ok_intros simp flip: append_assoc)

lemma requests_ok_loop:
  "requests_ok w \<Longrightarrow> runAdmissionLoop_step a w = Some (w', es) \<Longrightarrow> requests_ok w'"
  by (cases a)
    (auto simp: requests_ok_def inflight_def step_simps split: queue_splits intro: reqs_ok_intros)

lemma requests_ok_drain:
  "requests_ok w \<Longrightarrow> Drain_step a w = Some (w', es) \<Longrightarrow> requests_ok w'"
  by (cases a)
    (auto simp: requests_ok_def inflight_def step_simps split: queue_splits)

text \<open>The case analysis every invariant of the whole queue goes through.\<close>

lemma queue_step_cases [consumes 1, case_names submit loop drain ctx close]:
  assumes "queue_step a w = Some (w', es)"
  obtains b where "a = Submitter b" "SubmitWithReceipt_step b w = Some (w', es)"
  | b where "a = Admission b" "runAdmissionLoop_step b w = Some (w', es)"
  | b where "a = Consumer b" "Drain_step b w = Some (w', es)"
  | x e where "a = CtxCancel x e" "w' = w\<lparr>ctx_err := (ctx_err w)(x \<mapsto> e)\<rparr>" "es = []"
  | "a = CallClose" "w' = queue_Close w" "es = []"
  using assms by (cases a) (auto split: option.splits)

lemma queue_step_preserves:
  assumes "queue_step a w = Some (w', es)" and "P w"
    and "\<And>b. SubmitWithReceipt_step b w = Some (w', es) \<Longrightarrow> P w'"
    and "\<And>b. runAdmissionLoop_step b w = Some (w', es) \<Longrightarrow> P w'"
    and "\<And>b. Drain_step b w = Some (w', es) \<Longrightarrow> P w'"
    and "\<And>f. P (w\<lparr>ctx_err := f\<rparr>)" and "P (w\<lparr>done_closed := True\<rparr>)"
  shows "P w'"
  using assms(1) by (cases rule: queue_step_cases) (auto simp: queue_Close_def assms split: if_splits)

lemma requests_ok_step:
  assumes "requests_ok w" and "queue_step a w = Some (w', es)"
  shows "requests_ok w'"
  using assms(2)
  by (rule queue_step_preserves [where P = requests_ok])
    (use assms(1) in \<open>auto dest: requests_ok_submit requests_ok_loop requests_ok_drain\<close>, auto simp: requests_ok_def inflight_def)

lemma shutdown_ok_submit:
  "shutdown_ok w \<Longrightarrow> SubmitWithReceipt_step a w = Some (w', es) \<Longrightarrow> shutdown_ok w'"
  by (cases a) (auto simp: shutdown_ok_def step_simps split: queue_splits)

lemma shutdown_ok_loop:
  "shutdown_ok w \<Longrightarrow> runAdmissionLoop_step a w = Some (w', es) \<Longrightarrow> shutdown_ok w'"
  by (cases a) (auto simp: shutdown_ok_def step_simps split: queue_splits)

lemma shutdown_ok_drain:
  "shutdown_ok w \<Longrightarrow> Drain_step a w = Some (w', es) \<Longrightarrow> shutdown_ok w'"
  by (cases a) (auto simp: shutdown_ok_def step_simps split: queue_splits)

lemma shutdown_ok_step:
  assumes "shutdown_ok w" and "queue_step a w = Some (w', es)"
  shows "shutdown_ok w'"
  using assms(2)
  by (rule queue_step_preserves [where P = shutdown_ok])
    (use assms(1) in \<open>auto dest: shutdown_ok_submit shutdown_ok_loop shutdown_ok_drain\<close>, auto simp: shutdown_ok_def)

lemma stamp_ok_submit:
  "stamp_ok w \<Longrightarrow> SubmitWithReceipt_step a w = Some (w', es) \<Longrightarrow> stamp_ok w'"
  by (cases a) (auto simp: stamp_ok_def step_simps split: queue_splits)

lemma stamp_ok_loop:
  "stamp_ok w \<Longrightarrow> runAdmissionLoop_step a w = Some (w', es) \<Longrightarrow> stamp_ok w'"
  by (cases a) (auto simp: stamp_ok_def step_simps split: queue_splits)

lemma stamp_ok_drain:
  "stamp_ok w \<Longrightarrow> Drain_step a w = Some (w', es) \<Longrightarrow> stamp_ok w'"
  by (cases a) (auto simp: stamp_ok_def step_simps split: queue_splits)

lemma stamp_ok_step:
  assumes "stamp_ok w" and "queue_step a w = Some (w', es)"
  shows "stamp_ok w'"
  using assms(2)
  by (rule queue_step_preserves [where P = stamp_ok])
    (use assms(1) in \<open>auto dest: stamp_ok_submit stamp_ok_loop stamp_ok_drain\<close>, auto simp: stamp_ok_def)

lemma buffers_ok_submit:
  "buffers_ok w \<Longrightarrow> SubmitWithReceipt_step a w = Some (w', es) \<Longrightarrow> buffers_ok w'"
  by (cases a) (auto simp: buffers_ok_def step_simps split: queue_splits)

lemma buffers_ok_loop:
  "buffers_ok w \<Longrightarrow> runAdmissionLoop_step a w = Some (w', es) \<Longrightarrow> buffers_ok w'"
  by (cases a) (auto simp: buffers_ok_def step_simps split: queue_splits)

lemma buffers_ok_drain:
  "buffers_ok w \<Longrightarrow> Drain_step a w = Some (w', es) \<Longrightarrow> buffers_ok w'"
  by (cases a) (auto simp: buffers_ok_def step_simps split: queue_splits)

lemma buffers_ok_step:
  assumes "buffers_ok w" and "queue_step a w = Some (w', es)"
  shows "buffers_ok w'"
  using assms(2)
  by (rule queue_step_preserves [where P = buffers_ok])
    (use assms(1) in \<open>auto dest: buffers_ok_submit buffers_ok_loop buffers_ok_drain\<close>, auto simp: buffers_ok_def)

lemma drains_ok_submit:
  "drains_ok w \<Longrightarrow> SubmitWithReceipt_step a w = Some (w', es) \<Longrightarrow> drains_ok w'"
  by (cases a) (auto simp: drains_ok_def step_simps split: queue_splits)

lemma drains_ok_loop:
  "drains_ok w \<Longrightarrow> runAdmissionLoop_step a w = Some (w', es) \<Longrightarrow> drains_ok w'"
  by (cases a) (auto simp: drains_ok_def step_simps split: queue_splits)

lemma drains_ok_drain:
  "drains_ok w \<Longrightarrow> Drain_step a w = Some (w', es) \<Longrightarrow> drains_ok w'"
  by (cases a) (auto simp: drains_ok_def step_simps split: queue_splits)

lemma drains_ok_step:
  assumes "drains_ok w" and "queue_step a w = Some (w', es)"
  shows "drains_ok w'"
  using assms(2)
  by (rule queue_step_preserves [where P = drains_ok])
    (use assms(1) in \<open>auto dest: drains_ok_submit drains_ok_loop drains_ok_drain\<close>, auto simp: drains_ok_def)

lemma queue_inv_init: "queue_inv (queue_init cap)"
  by (simp add: queue_inv_def requests_ok_def reqs_ok_def inflight_def shutdown_ok_def stamp_ok_def
      buffers_ok_def drains_ok_def queue_init_def)

lemma queue_inv_step:
  "queue_inv w \<Longrightarrow> queue_step a w = Some (w', es) \<Longrightarrow> queue_inv w'"
  unfolding queue_inv_def
  using requests_ok_step shutdown_ok_step stamp_ok_step buffers_ok_step drains_ok_step by blast

section \<open>The queue is an ordered log\<close>

fun is_stamped :: "loop_pc \<Rightarrow> bool" where
  "is_stamped (LoopStamped q tx) = True"
| "is_stamped _ = False"

definition queue_last_id :: "queue_world \<Rightarrow> nat" where
  "queue_last_id w = unat (nextID w) - (if is_stamped (loop w) then 1 else 0)"

text \<open>The steps at which the 64-bit counter has wrapped around.\<close>

fun queue_wraps :: "queue_action \<Rightarrow> queue_world \<Rightarrow> bool" where
  "queue_wraps (Admission (LoopStamp now)) w \<longleftrightarrow> nextID w = - 1"
| "queue_wraps (Admission LoopCommit) w \<longleftrightarrow> nextID w = 0"
| "queue_wraps (Admission (LoopHandoff c)) w \<longleftrightarrow> nextID w = 0"
| "queue_wraps _ w \<longleftrightarrow> False"

lemma fifo_submit:
  "SubmitWithReceipt_step a w = Some (w', es) \<Longrightarrow>
     ch w' = ch w \<and> committed es = [] \<and> delivered es = [] \<and> loop w' = loop w \<and> nextID w' = nextID w"
  by (cases a) (auto simp: step_simps split: queue_splits)

lemma fifo_drain:
  "Drain_step a w = Some (w', es) \<Longrightarrow>
     delivered es @ ch w' = ch w \<and> committed es = [] \<and> loop w' = loop w \<and> nextID w' = nextID w"
  by (cases a) (auto simp: step_simps split: queue_splits)

lemma fifo_loop:
  "buffers_ok w \<Longrightarrow> runAdmissionLoop_step a w = Some (w', es) \<Longrightarrow>
     delivered es @ ch w' = ch w @ committed es"
  by (cases a) (auto simp: step_simps buffers_ok_def split: queue_splits)

lemma fifo_queue_step:
  assumes "queue_inv w" and "queue_step a w = Some (w', es)"
  shows "delivered es @ ch w' = ch w @ committed es"
  using assms(2)
  by (cases rule: queue_step_cases)
    (use assms(1) fifo_submit fifo_drain fifo_loop in
      \<open>fastforce simp: queue_inv_def queue_Close_def\<close>)+

lemma ids_loop:
  "stamp_ok w \<Longrightarrow> runAdmissionLoop_step a w = Some (w', es) \<Longrightarrow> \<not> queue_wraps (Admission a) w \<Longrightarrow>
     queue_last_id w \<le> queue_last_id w' \<and> sorted_wrt (<) (map tx_id (committed es)) \<and>
     (\<forall>t \<in> set (committed es). queue_last_id w < tx_id t \<and> tx_id t \<le> queue_last_id w')"
  by (cases a)
    (auto simp: step_simps queue_last_id_def stamp_ok_def unat_Suc_nowrap unat_gt_0 split: queue_splits)

lemma ids_queue_step:
  assumes "queue_inv w" and "queue_step a w = Some (w', es)" and "\<not> queue_wraps a w"
  shows "queue_last_id w \<le> queue_last_id w' \<and> sorted_wrt (<) (map tx_id (committed es)) \<and>
     (\<forall>t \<in> set (committed es). queue_last_id w < tx_id t \<and> tx_id t \<le> queue_last_id w')"
  using assms(2)
proof (cases rule: queue_step_cases)
  case (loop b)
  with assms show ?thesis using ids_loop [of w b w' es] by (simp add: queue_inv_def)
qed (auto dest!: fifo_submit fifo_drain simp: queue_last_id_def queue_Close_def)

lemma commit_loop: "runAdmissionLoop_step a w = Some (w', es) \<Longrightarrow> commits_first es"
  by (cases a) (auto simp: step_simps split: queue_splits)

lemma commit_queue_step: "queue_step a w = Some (w', es) \<Longrightarrow> commits_first es"
  by (cases rule: queue_step_cases) (auto dest: fifo_submit fifo_drain commit_loop intro: commits_firstI)

interpretation queue_log: ordered_log "queue_init cap" queue_step ch queue_inv queue_last_id queue_wraps
  for cap :: nat
proof unfold_locales
  show "ch (queue_init cap) = []" by (simp add: queue_init_def)
qed (fact queue_inv_init queue_inv_step fifo_queue_step commit_queue_step ids_queue_step)+

text \<open>A run of fewer than \<open>2 ^ 64\<close> steps never wraps the counter.\<close>

definition stamped_positive :: "queue_world \<Rightarrow> bool" where
  "stamped_positive w \<longleftrightarrow> (is_stamped (loop w) \<longrightarrow> nextID w \<noteq> 0)"

lemma nextID_loop:
  "runAdmissionLoop_step a w = Some (w', es) \<Longrightarrow> \<not> queue_wraps (Admission a) w \<Longrightarrow> stamped_positive w \<Longrightarrow>
     unat (nextID w') \<le> Suc (unat (nextID w)) \<and> stamped_positive w'"
  by (cases a)
    (auto simp: step_simps stamped_positive_def unat_Suc_nowrap word_Suc_nonzero split: queue_splits)

lemma nextID_step:
  assumes "queue_step a w = Some (w', es)" and "\<not> queue_wraps a w" and "stamped_positive w"
  shows "unat (nextID w') \<le> Suc (unat (nextID w)) \<and> stamped_positive w'"
  using assms(1)
proof (cases rule: queue_step_cases)
  case (loop b)
  with assms show ?thesis by (simp add: nextID_loop)
qed (use assms(3) in \<open>auto dest!: fifo_submit fifo_drain simp: stamped_positive_def queue_Close_def\<close>)

lemma queue_no_wrap_step:
  assumes "unat (nextID w) < 2 ^ 64 - 1" and "stamped_positive w" and "queue_step a w = Some (w', es)"
  shows "\<not> queue_wraps a w"
proof -
  have "nextID w \<noteq> - 1" using assms(1) by (auto simp: unsigned_minus_1_eq_mask mask_eq_exp_minus_1)
  then show ?thesis using assms(2,3)
    by (cases "(a, w)" rule: queue_wraps.cases)
      (auto simp: stamped_positive_def step_simps split: queue_splits)
qed

lemma queue_short_run_avoids:
  "queue_run as w = Some (w', evs) \<Longrightarrow> stamped_positive w \<Longrightarrow> unat (nextID w) + length as < 2 ^ 64 \<Longrightarrow>
     run_avoids queue_step queue_wraps as w"
proof (induction as arbitrary: w evs)
  case Nil
  then show ?case by simp
next
  case (Cons a as)
  from Cons.prems(1) obtain w1 es es' where st: "queue_step a w = Some (w1, es)"
    and rest: "queue_run as w1 = Some (w', es')" by (blast elim: run_ConsE)
  from Cons.prems(3) have "unat (nextID w) < 2 ^ 64 - 1" by simp
  from queue_no_wrap_step [OF this Cons.prems(2) st] have ok: "\<not> queue_wraps a w" .
  note nxt = nextID_step [OF st ok Cons.prems(2)]
  with Cons.prems(3) have "unat (nextID w1) + length as < 2 ^ 64" by simp
  with Cons.IH [OF rest] nxt ok st show ?case by simp
qed

lemma queue_init_avoids:
  assumes "queue_run as (queue_init cap) = Some (w, evs)" and "length as < 2 ^ 64"
  shows "run_avoids queue_step queue_wraps as (queue_init cap)"
  by (rule queue_short_run_avoids [OF assms(1)])
    (use assms(2) in \<open>simp_all add: stamped_positive_def queue_init_def\<close>)

section \<open>What each goroutine can change\<close>

lemma submit_frame:
  assumes "SubmitWithReceipt_step a w = Some (w', es)" and "requests_ok w"
  shows "Committed r tx \<notin> set es" and "Delivered c tx \<notin> set es" and "DrainReturned c b e \<notin> set es"
    and "Panicked m \<notin> set es"
    and "SubmitReturned r (Inr tx) \<in> set es \<Longrightarrow> resps w r = Some (Inr tx)"
    and "resps w' r = Some x \<Longrightarrow> resps w r = Some x"
    and "submits w' r = Some (SubSending q) \<Longrightarrow> submits w r = Some (SubSending q) \<or>
      (submits w r = None \<and> req_id q = r \<and> SubmitCalled r (req_ciphertext q) \<in> set es)"
    and "submits w' r = Some (SubWaiting q) \<Longrightarrow>
      submits w r = Some (SubSending q) \<or> submits w r = Some (SubWaiting q)"
    and "submits w r \<noteq> None \<Longrightarrow> submits w' r \<noteq> None"
    and "q \<in> set (inflight w') \<Longrightarrow> q \<in> set (inflight w) \<or> submits w (req_id q) = Some (SubSending q)"
    and "drains w' = drains w"
  using assms
  by (cases a; auto simp: step_simps inflight_def requests_ok_def split: queue_splits
      dest: reqs_okD(4))+

lemma loop_frame:
  assumes "runAdmissionLoop_step a w = Some (w', es)" and "requests_ok w" and "shutdown_ok w"
  shows "Committed r tx \<in> set es \<Longrightarrow> \<exists>q. loop w = LoopStamped q tx \<and> req_id q = r \<and> loop w' = LoopSelect"
    and "SubmitReturned r x \<notin> set es" and "SubmitCalled r b \<notin> set es" and "Panicked m \<notin> set es"
    and "DrainReturned c b' e \<notin> set es"
    and "resps w' r = Some (Inr tx) \<Longrightarrow> resps w r = Some (Inr tx) \<or> Committed r tx \<in> set es"
    and "submits w' r = Some (SubSending q) \<Longrightarrow> submits w r = Some (SubSending q)"
    and "submits w' r = Some (SubWaiting q) \<Longrightarrow>
      submits w r = Some (SubSending q) \<or> submits w r = Some (SubWaiting q)"
    and "submits w r \<noteq> None \<Longrightarrow> submits w' r \<noteq> None"
    and "q \<in> set (inflight w') \<Longrightarrow> q \<in> set (inflight w) \<or> submits w (req_id q) = Some (SubSending q)"
  using assms
  by (cases a; auto simp: step_simps inflight_def requests_ok_def shutdown_ok_def
      split: queue_splits dest: reqs_okD(4))+

end
