(* ===== verification/Tx_Queue_Properties.thy ===== *)
theory Tx_Queue_Properties
  imports Tx_Queue "HOL-Library.Sublist"
begin

text \<open>
  What \<open>TxQueue\<close> guarantees to its users: FIFO delivery with unique increasing IDs,
  truthful receipts, at most one commit per request, freedom from channel panics, and a
  shutdown that terminates, answers every pending request and loses nothing committed.
\<close>

section \<open>Histories\<close>

text \<open>Every request known to the queue was announced by a call, with its ciphertext.\<close>

definition called_ok :: "queue_world \<Rightarrow> log_event list \<Rightarrow> bool" where
  "called_ok w evs \<longleftrightarrow>
     (\<forall>q \<in> set (inflight w). SubmitCalled (req_id q) (req_ciphertext q) \<in> set evs) \<and>
     (\<forall>r q. submits w r = Some (SubSending q) \<longrightarrow> SubmitCalled r (req_ciphertext q) \<in> set evs)"

text \<open>Receipts, waiting or returned, are about committed transactions.\<close>

definition receipts_ok :: "queue_world \<Rightarrow> log_event list \<Rightarrow> bool" where
  "receipts_ok w evs \<longleftrightarrow>
     (\<forall>r tx. resps w r = Some (Inr tx) \<longrightarrow> Committed r tx \<in> set evs) \<and>
     (\<forall>r tx. SubmitReturned r (Inr tx) \<in> set evs \<longrightarrow> Committed r tx \<in> set evs) \<and>
     (\<forall>r tx. Committed r tx \<in> set evs \<longrightarrow> SubmitCalled r (Ciphertext tx) \<in> set evs)"

text \<open>A committed request is neither waiting to be sent nor in flight any more.\<close>

definition once_ok :: "queue_world \<Rightarrow> log_event list \<Rightarrow> bool" where
  "once_ok w evs \<longleftrightarrow>
     distinct (committers evs) \<and>
     (\<forall>r \<in> set (committers evs). (\<forall>q \<in> set (inflight w). req_id q \<noteq> r) \<and>
        submits w r \<noteq> None \<and> (\<forall>q. submits w r \<noteq> Some (SubSending q)))"

lemma called_ok_submit:
  assumes "SubmitWithReceipt_step b w = Some (w', es)" "requests_ok w" "called_ok w evs"
  shows "called_ok w' (evs @ es)"
  unfolding called_ok_def
proof (intro conjI ballI allI impI)
  note frame = submit_frame [OF assms(1,2)]
  { fix q assume "q \<in> set (inflight w')"
    with frame(10) assms(3) show "SubmitCalled (req_id q) (req_ciphertext q) \<in> set (evs @ es)"
      unfolding called_ok_def by auto }
  { fix r q assume "submits w' r = Some (SubSending q)"
    with frame(7) assms(3) show "SubmitCalled r (req_ciphertext q) \<in> set (evs @ es)"
      unfolding called_ok_def by fastforce }
qed

lemma called_ok_loop:
  assumes "runAdmissionLoop_step b w = Some (w', es)" "requests_ok w" "shutdown_ok w" "called_ok w evs"
  shows "called_ok w' (evs @ es)"
  unfolding called_ok_def
proof (intro conjI ballI allI impI)
  note frame = loop_frame [OF assms(1,2,3)]
  { fix q assume "q \<in> set (inflight w')"
    with frame(10) assms(4) show "SubmitCalled (req_id q) (req_ciphertext q) \<in> set (evs @ es)"
      unfolding called_ok_def by auto }
  { fix r q assume "submits w' r = Some (SubSending q)"
    with frame(7) assms(4) show "SubmitCalled r (req_ciphertext q) \<in> set (evs @ es)"
      unfolding called_ok_def by auto }
qed

lemma receipts_ok_submit:
  assumes "SubmitWithReceipt_step b w = Some (w', es)" "requests_ok w" "receipts_ok w evs"
  shows "receipts_ok w' (evs @ es)"
  using submit_frame(1,5,6) [OF assms(1,2)] assms(3) unfolding receipts_ok_def by auto

lemma receipts_ok_loop:
  assumes "runAdmissionLoop_step b w = Some (w', es)" "requests_ok w" "shutdown_ok w" "stamp_ok w"
    "called_ok w evs" "receipts_ok w evs"
  shows "receipts_ok w' (evs @ es)"
proof -
  have "SubmitCalled r (Ciphertext tx) \<in> set evs" if "Committed r tx \<in> set es" for r tx
    using loop_frame(1) [OF assms(1,2,3) that] assms(4,5)
    by (auto simp: called_ok_def stamp_ok_def inflight_def)
  then show ?thesis
    using loop_frame(2,6) [OF assms(1,2,3)] assms(6) unfolding receipts_ok_def set_append by blast
qed

lemma once_ok_quiet:
  assumes "once_ok w evs" and "committers es = []"
    and "\<And>r q. submits w' r = Some (SubSending q) \<Longrightarrow> submits w r = Some (SubSending q) \<or> submits w r = None"
    and "\<And>r. submits w r \<noteq> None \<Longrightarrow> submits w' r \<noteq> None"
    and "\<And>q. q \<in> set (inflight w') \<Longrightarrow> q \<in> set (inflight w) \<or> submits w (req_id q) = Some (SubSending q)"
  shows "once_ok w' (evs @ es)"
  unfolding once_ok_def
proof (intro conjI ballI allI)
  show "distinct (committers (evs @ es))" using assms(1,2) by (simp add: once_ok_def)
  fix r assume "r \<in> set (committers (evs @ es))"
  then have "r \<in> set (committers evs)" using assms(2) by simp
  then have old: "\<And>q. q \<in> set (inflight w) \<Longrightarrow> req_id q \<noteq> r" "submits w r \<noteq> None"
    "\<And>q. submits w r \<noteq> Some (SubSending q)" using assms(1) by (auto simp: once_ok_def)
  show "submits w' r \<noteq> None" using old(2) by (rule assms(4))
  show "submits w' r \<noteq> Some (SubSending q)" for q using assms(3) [of r q] old(2) old(3) [of q] by auto
  show "req_id q \<noteq> r" if "q \<in> set (inflight w')" for q using assms(5) [OF that] old(1) [of q] old(3) [of q] by auto
qed

lemma once_ok_submit:
  assumes "SubmitWithReceipt_step b w = Some (w', es)" "requests_ok w" "once_ok w evs"
  shows "once_ok w' (evs @ es)"
proof -
  have "committers es = []"
    using submit_frame(1) [OF assms(1,2)] committers_iff by (metis ex_in_conv set_empty)
  then show ?thesis
  proof (rule once_ok_quiet [OF assms(3)])
    show "submits w r = Some (SubSending q) \<or> submits w r = None"
      if "submits w' r = Some (SubSending q)" for r q
      using submit_frame(7) [OF assms(1,2) that] by auto
  qed (fact submit_frame(9,10) [OF assms(1,2)])+
qed

lemma committers_loop:
  "runAdmissionLoop_step b w = Some (w', es) \<Longrightarrow>
     committers es = [] \<or> (\<exists>q tx. loop w = LoopStamped q tx \<and> committers es = [req_id q] \<and>
        inflight w = q # inflight w' \<and> submits w' = submits w)"
  by (cases b) (auto simp: step_simps inflight_def split: queue_splits)

lemma once_ok_loop:
  assumes "runAdmissionLoop_step b w = Some (w', es)" "requests_ok w" "shutdown_ok w" "once_ok w evs"
  shows "once_ok w' (evs @ es)"
  using committers_loop [OF assms(1)]
proof (elim disjE exE conjE)
  assume "committers es = []"
  then show ?thesis
    by (rule once_ok_quiet [OF assms(4)])
      (simp_all add: loop_frame(7,9,10) [OF assms(1,2,3)])
next
  fix q tx
  assume c: "committers es = [req_id q]" and i: "inflight w = q # inflight w'"
    and s: "submits w' = submits w"
  have "reqs_ok (q # inflight w') (resps w) (submits w)"
    using assms(2) i by (simp add: requests_ok_def)
  from reqs_okD(1) [OF this] reqs_okD(3) [OF this, of q] have
    "\<forall>p \<in> set (inflight w'). req_id p \<noteq> req_id q"
    "submits w (req_id q) = Some (SubWaiting q) \<or> submits w (req_id q) = Some SubReturned"
    by (auto simp: image_iff)
  then show ?thesis using assms(4) c i s unfolding once_ok_def by auto
qed

lemma drain_frame:
  "Drain_step b w = Some (w', es) \<Longrightarrow>
     inflight w' = inflight w \<and> submits w' = submits w \<and> resps w' = resps w \<and> committers es = [] \<and>
     (\<forall>r x. SubmitReturned r x \<notin> set es) \<and> (\<forall>r x. SubmitCalled r x \<notin> set es)"
  by (cases b) (auto simp: step_simps inflight_def split: queue_splits)

text \<open>The three history invariants, carried together with the state invariant.\<close>

definition history_ok :: "queue_world \<Rightarrow> log_event list \<Rightarrow> bool" where
  "history_ok w evs \<longleftrightarrow> queue_inv w \<and> called_ok w evs \<and> receipts_ok w evs \<and> once_ok w evs"

lemma history_ok_frame:
  assumes "queue_inv w'" and "history_ok w evs" and "inflight w' = inflight w"
    and "submits w' = submits w" and "resps w' = resps w" and "committers es = []"
    and "\<And>r x. SubmitReturned r x \<notin> set es" and "\<And>r x. SubmitCalled r x \<notin> set es"
  shows "history_ok w' (evs @ es)"
proof -
  have "Committed r tx \<notin> set es" for r tx using assms(6) committers_iff [of r es] by auto
  with assms show ?thesis
    by (auto simp: history_ok_def called_ok_def receipts_ok_def once_ok_def)
qed

lemma history_ok_step:
  assumes "history_ok w evs" and "queue_step a w = Some (w', es)"
  shows "history_ok w' (evs @ es)"
  using assms(2)
proof (cases rule: queue_step_cases)
  case (submit b)
  with assms queue_inv_step [OF _ assms(2)] show ?thesis
    by (auto simp: history_ok_def queue_inv_def
        intro: called_ok_submit receipts_ok_submit once_ok_submit)
next
  case (loop b)
  with assms queue_inv_step [OF _ assms(2)] show ?thesis
    by (auto simp: history_ok_def queue_inv_def
        intro: called_ok_loop receipts_ok_loop once_ok_loop)
next
  case (drain b)
  from drain_frame [OF drain(2)] show ?thesis
    by (intro history_ok_frame [OF _ assms(1)] queue_inv_step [OF _ assms(2)])
      (use assms(1) in \<open>auto simp: history_ok_def\<close>)
next
  case (ctx x e)
  then show ?thesis
    by (intro history_ok_frame [OF _ assms(1)] queue_inv_step [OF _ assms(2)])
      (use assms(1) in \<open>auto simp: history_ok_def inflight_def\<close>)
next
  case close
  then show ?thesis
    by (intro history_ok_frame [OF _ assms(1)] queue_inv_step [OF _ assms(2)])
      (use assms(1) in \<open>auto simp: history_ok_def inflight_def queue_Close_def\<close>)
qed

lemma history_ok_run:
  assumes "queue_run as (queue_init cap) = Some (w, evs)"
  shows "history_ok w evs"
proof (rule run_invariant [OF assms, where P = "\<lambda>_. history_ok"])
  show "history_ok (queue_init cap) []"
    using queue_inv_init [of cap]
    by (simp add: history_ok_def called_ok_def receipts_ok_def once_ok_def queue_init_def inflight_def)
qed (rule history_ok_step)

section \<open>Order\<close>

text \<open>A run with one submitter and one consumer, used below to exhibit the hypotheses.\<close>

definition one_tx :: EncryptedTransaction where
  "one_tx = \<lparr>ID = 1, Ciphertext = [7], ArrivedAt = 100\<rparr>"

definition one_tx_actions :: "queue_action list" where
  "one_tx_actions =
     [Submitter (CallSubmit 5 0 [7]), Submitter (SendRequest 5), Admission LoopTake,
      Admission (LoopStamp 100), Admission LoopCommit, Submitter (TakeResponse 5),
      Consumer (CallDrainWait 9 0 1), Consumer (DrainRecv 9), Consumer (DrainFull 9)]"

definition one_tx_events :: "log_event list" where
  "one_tx_events =
     [SubmitCalled 5 [7], Committed 5 one_tx, SubmitReturned 5 (Inr one_tx), Delivered 9 one_tx,
      DrainReturned 9 [one_tx] None]"

definition one_tx_world :: queue_world where
  "one_tx_world = (queue_init 2)
     \<lparr>nextID := 1, submits := [5 \<mapsto> SubReturned]\<rparr>"

lemmas queue_eval = one_tx_actions_def one_tx_events_def one_tx_world_def one_tx_def queue_init_def
  step_simps

lemma one_tx_run: "queue_run one_tx_actions (queue_init 2) = Some (one_tx_world, one_tx_events)"
  by (simp add: queue_eval fun_upd_idem)

text \<open>
  In every interleaving of submitters, admission loop, consumers, cancellations and
  \<open>Close\<close>, the transactions handed to consumers, followed by those still buffered, are exactly
  the committed ones in commit order: delivery is FIFO, nothing is lost or duplicated.
\<close>

lemma queue_fifo:
  assumes "queue_run as (queue_init cap) = Some (w, evs)"
  shows "delivered evs @ ch w = committed evs"
  using assms by (rule queue_log.fifo_run)

text \<open>
  C4: in a run of fewer than \<open>2 ^ 64\<close> steps the sequence IDs of the committed transactions
  strictly increase in commit order, and each consumer receives strictly increasing IDs.
\<close>

theorem queue_ids_increase:
  assumes "queue_run as (queue_init cap) = Some (w, evs)" and "length as < 2 ^ 64"
  shows "sorted_wrt (<) (map tx_id (committed evs)) \<and>
    sorted_wrt (\<lambda>x y. tx_id x < tx_id y) (delivered_to c evs)"
  using queue_log.ids_run [OF assms(1)] queue_log.drained_sorted [OF assms(1)]
    queue_init_avoids [OF assms] by blast

theorem queue_ids_increase_witness:
  "sorted_wrt (<) (map tx_id (committed one_tx_events)) \<and>
    sorted_wrt (\<lambda>x y. tx_id x < tx_id y) (delivered_to 9 one_tx_events)"
  by (rule queue_ids_increase [OF one_tx_run]) (simp add: one_tx_actions_def)

text \<open>
  C3: refinement.  The queue, with its goroutines, channels, cancellations and shutdown, does
  nothing but what the abstract log allows: replayed event by event on the log, every run of
  fewer than \<open>2 ^ 64\<close> steps is accepted (each commit has a fresh larger ID, each delivery is of
  the oldest committed transaction not yet delivered) and ends with the log holding exactly the
  buffered transactions.
\<close>

theorem queue_refines_log:
  assumes "queue_run as (queue_init cap) = Some (w, evs)" and "length as < 2 ^ 64"
  shows "\<exists>k \<le> queue_last_id w. spec_run evs spec_init = Some \<lparr>spec_queue = ch w, spec_last = k\<rparr>"
  by (rule queue_log.refines_run [OF assms(1) queue_init_avoids [OF assms]])

theorem queue_refines_log_witness:
  "\<exists>k \<le> queue_last_id one_tx_world.
     spec_run one_tx_events spec_init = Some \<lparr>spec_queue = ch one_tx_world, spec_last = k\<rparr>"
  by (rule queue_refines_log [OF one_tx_run]) (simp add: one_tx_actions_def)

text \<open>The capacity is fixed at construction.\<close>

lemma capacity_step:
  assumes "queue_step a w = Some (w', es)"
  shows "capacity w' = capacity w"
  using assms
proof (cases rule: queue_step_cases)
  case (submit b)
  then show ?thesis by (cases b) (auto simp: step_simps split: queue_splits)
next
  case (loop b)
  then show ?thesis by (cases b) (auto simp: step_simps split: queue_splits)
next
  case (drain b)
  then show ?thesis by (cases b) (auto simp: step_simps split: queue_splits)
qed (auto simp: queue_Close_def)

lemma capacity_run:
  assumes "queue_run as (queue_init cap) = Some (w, evs)"
  shows "capacity w = cap"
  by (rule run_invariant [OF assms, where P = "\<lambda>_ w _. capacity w = cap"])
    (auto simp: queue_init_def capacity_step)

text \<open>
  C23: backpressure.  At every moment of every run the queue buffers at most \<open>bufferSize\<close>
  transactions, at most \<open>bufferSize + 1\<close> requests are on their way to being committed, and no
  consumer holds more than it asked for.
\<close>

theorem queue_bounded:
  assumes "queue_run as (queue_init cap) = Some (w, evs)"
  shows "queue_Len w \<le> cap \<and> length (inflight w) \<le> cap + 1 \<and>
    (\<forall>c d. drains w c = Some d \<longrightarrow> int (length (d_batch d)) \<le> d_size d)"
proof -
  have "length (loop_req l) \<le> 1" for l by (cases l) simp_all
  from this [of "loop w"] show ?thesis
    using queue_log.inv_run [OF assms] capacity_run [OF assms]
    by (auto simp: queue_inv_def buffers_ok_def drains_ok_def queue_Len_def inflight_def)
qed

theorem queue_bounded_witness: "queue_Len one_tx_world \<le> 2 \<and> length (inflight one_tx_world) \<le> 3"
  using queue_bounded [OF one_tx_run] by simp

text \<open>The stamping times of a run, and the transaction being stamped.\<close>

fun stamps :: "queue_action list \<Rightarrow> time list" where
  "stamps [] = []"
| "stamps (Admission (LoopStamp t) # as) = t # stamps as"
| "stamps (_ # as) = stamps as"

fun stamped :: "loop_pc \<Rightarrow> EncryptedTransaction list" where
  "stamped (LoopStamped q tx) = [tx]"
| "stamped _ = []"

lemma stamps_append [simp]: "stamps (as @ bs) = stamps as @ stamps bs"
  by (induction as rule: stamps.induct) auto

lemma stamps_other [simp]:
  "stamps [Submitter b] = []" "stamps [Consumer d] = []" "stamps [CtxCancel x e] = []"
  "stamps [CallClose] = []"
  by simp_all

lemma subseq_front: "subseq (xs @ ys) zs \<Longrightarrow> subseq xs zs"
  by (rule subseq_order.trans [OF list_emb_prefix [OF subseq_order.refl]])

lemma stamped_loop:
  "runAdmissionLoop_step b w = Some (w', es) \<Longrightarrow> subseq (map ArrivedAt (X @ stamped (loop w))) S \<Longrightarrow>
     subseq (map ArrivedAt (X @ committed es @ stamped (loop w'))) (S @ stamps [Admission b])"
  by (cases b)
    (auto simp: step_simps split: queue_splits intro: list_emb_append_mono dest: subseq_front)

lemma arrival_subseq:
  assumes "queue_run as (queue_init cap) = Some (w, evs)"
  shows "subseq (map ArrivedAt (committed evs @ stamped (loop w))) (stamps as)"
proof (rule run_invariant [OF assms, where
      P = "\<lambda>as w evs. subseq (map ArrivedAt (committed evs @ stamped (loop w))) (stamps as)"])
  show "subseq (map ArrivedAt (committed [] @ stamped (loop (queue_init cap)))) (stamps [])"
    by (simp add: queue_init_def)
next
  fix as evs a es and w w' :: queue_world
  assume P: "subseq (map ArrivedAt (committed evs @ stamped (loop w))) (stamps as)"
  assume "queue_step a w = Some (w', es)"
  then show "subseq (map ArrivedAt (committed (evs @ es) @ stamped (loop w'))) (stamps (as @ [a]))"
  proof (cases rule: queue_step_cases)
    case (loop b)
    with stamped_loop [OF loop(2) P] show ?thesis by simp
  qed (use P in \<open>auto dest!: fifo_submit fifo_drain simp: queue_Close_def\<close>)
qed

lemma sorted_subseq: "subseq xs ys \<Longrightarrow> sorted ys \<Longrightarrow> sorted xs"
  by (induction rule: list_emb.induct) (auto dest: list_emb_set)


text \<open>
  If the clock never goes backwards, the committed transactions come in strictly ascending
  order of \<open>(ArrivedAt, ID)\<close>, the total order the documentation of \<open>EncryptedTransaction\<close>
  promises.
\<close>

lemma queue_total_order:
  assumes "queue_run as (queue_init cap) = Some (w, evs)" and "length as < 2 ^ 64"
    and "sorted (stamps as)"
  shows "sorted_wrt (<) (map tx_key (committed evs))"
proof -
  have "sorted_wrt (\<le>) (map ArrivedAt (committed evs))"
    using sorted_subseq [OF subseq_front [of "map ArrivedAt (committed evs)"] assms(3)]
      arrival_subseq [OF assms(1)] by simp
  moreover have "sorted_wrt (\<lambda>x y. ID x < ID y) (committed evs)"
    using queue_log.ids_run [OF assms(1) queue_init_avoids [OF assms(1,2)]]
    by (simp add: sorted_wrt_map word_less_nat_alt)
  ultimately have "sorted_wrt (\<lambda>x y. ArrivedAt x \<le> ArrivedAt y \<and> ID x < ID y) (committed evs)"
    by (simp add: sorted_wrt_map sorted_wrt_iff_nth_less)
  then show ?thesis
    unfolding sorted_wrt_map
    by (rule sorted_wrt_mono_rel [rotated]) (auto simp: tx_key_def less_order_key_def)
qed

text \<open>IDs leave gaps only where a stamped transaction was given up.\<close>

fun gives_up :: "queue_action \<Rightarrow> bool" where
  "gives_up (Admission LoopCommitCancelled) \<longleftrightarrow> True"
| "gives_up (Admission LoopCommitClosed) \<longleftrightarrow> True"
| "gives_up _ \<longleftrightarrow> False"

definition numbered_txs :: "EncryptedTransaction list \<Rightarrow> u64 \<Rightarrow> bool" where
  "numbered_txs txs n \<longleftrightarrow> map ID txs = map of_nat [1..<Suc (length txs)] \<and> n = of_nat (length txs)"

definition numbered :: "queue_world \<Rightarrow> log_event list \<Rightarrow> bool" where
  "numbered w evs \<longleftrightarrow> numbered_txs (committed evs @ stamped (loop w)) (nextID w)"

lemma numbered_txs_Nil: "numbered_txs [] 0"
  by (simp add: numbered_txs_def)

lemma numbered_txs_snoc: 
  "numbered_txs txs n \<Longrightarrow>
     numbered_txs (txs @ [\<lparr>ID = n + 1, Ciphertext = b, ArrivedAt = t\<rparr>]) (n + 1)"
  by (auto simp: numbered_txs_def)

lemma numbered_txs_prefix:
  "numbered_txs (xs @ ys) n \<Longrightarrow> map ID xs = map of_nat [1..<Suc (length xs)]"
  unfolding numbered_txs_def
  by (drule conjunct1, drule arg_cong [where f = "take (length xs)"])
    (simp add: take_map take_upt del: upt_Suc)

lemma numbered_loop:
  "runAdmissionLoop_step b w = Some (w', es) \<Longrightarrow> numbered w evs \<Longrightarrow> \<not> gives_up (Admission b) \<Longrightarrow>
     numbered w' (evs @ es)"
  by (cases b) (auto simp: numbered_def step_simps split: queue_splits intro: numbered_txs_snoc)

text \<open>
  As long as no stamped transaction is given up (by a cancelled context or by \<open>Close\<close>
  while \<open>q.ch\<close> is full), the \<open>k\<close>-th committed transaction has the ID \<open>k\<close>, counting from 1
  and modulo \<open>2 ^ 64\<close>.
\<close>

lemma queue_ids_contiguous:
  assumes "queue_run as (queue_init cap) = Some (w, evs)" and "list_all (\<lambda>a. \<not> gives_up a) as"
  shows "map ID (committed evs) = map of_nat [1..<Suc (length (committed evs))]"
proof -
  have "list_all (\<lambda>a. \<not> gives_up a) as \<longrightarrow> numbered w evs"
  proof (rule run_invariant [OF assms(1), where
        P = "\<lambda>as w evs. list_all (\<lambda>a. \<not> gives_up a) as \<longrightarrow> numbered w evs"])
    show "list_all (\<lambda>a. \<not> gives_up a) [] \<longrightarrow> numbered (queue_init cap) []"
      by (simp add: numbered_def numbered_txs_Nil queue_init_def)
  next
    fix as evs a es and w w' :: queue_world
    assume P: "list_all (\<lambda>a. \<not> gives_up a) as \<longrightarrow> numbered w evs"
    assume "queue_step a w = Some (w', es)"
    then show "list_all (\<lambda>a. \<not> gives_up a) (as @ [a]) \<longrightarrow> numbered w' (evs @ es)"
    proof (cases rule: queue_step_cases)
      case (loop b)
      with numbered_loop [OF loop(2), of evs] P show ?thesis by simp
    qed (use P in \<open>auto dest!: fifo_submit fifo_drain simp: queue_Close_def numbered_def\<close>)
  qed
  with assms(2) show ?thesis by (auto simp: numbered_def dest: numbered_txs_prefix)
qed

section \<open>Receipts\<close>

text \<open>
  C5: a receipt is truthful: if \<open>SubmitWithReceipt\<close> returns a transaction without error, that
  transaction was committed for this call and carries the ciphertext the caller passed.
\<close>

theorem queue_receipt_truthful:
  assumes "queue_run as (queue_init cap) = Some (w, evs)" and "SubmitReturned r (Inr tx) \<in> set evs"
  shows "Committed r tx \<in> set evs \<and> SubmitCalled r (Ciphertext tx) \<in> set evs"
  using history_ok_run [OF assms(1)] assms(2) by (auto simp: history_ok_def receipts_ok_def)

theorem queue_receipt_truthful_witness:
  "Committed 5 one_tx \<in> set one_tx_events \<and> SubmitCalled 5 (Ciphertext one_tx) \<in> set one_tx_events"
  by (rule queue_receipt_truthful [OF one_tx_run]) (simp add: one_tx_events_def)

text \<open>
  No call of \<open>SubmitWithReceipt\<close> is committed twice, and every committed transaction stems
  from a call that passed its ciphertext.
\<close>

lemma queue_commits_once:
  assumes "queue_run as (queue_init cap) = Some (w, evs)"
  shows "distinct (committers evs) \<and>
    (\<forall>r tx. Committed r tx \<in> set evs \<longrightarrow> SubmitCalled r (Ciphertext tx) \<in> set evs)"
  using history_ok_run [OF assms] by (auto simp: history_ok_def receipts_ok_def once_ok_def)

text \<open>
  The converse of a truthful receipt fails.  \<open>SubmitWithReceipt\<close> can report
  \<open>ErrQueueClosed\<close> for a transaction that was committed and is later delivered: its second
  \<open>select\<close> may take the \<open>done\<close> branch although the response is ready.
\<close>

definition lost_receipt_actions :: "queue_action list" where
  "lost_receipt_actions =
     [Submitter (CallSubmit 5 0 [7]), Submitter (SendRequest 5), Admission LoopTake,
      Admission (LoopStamp 100), Admission LoopCommit, CallClose, Submitter (WaitClosed 5),
      Consumer (CallDrainWait 9 0 1), Consumer (DrainRecv 9), Consumer (DrainFull 9)]"

lemma queue_error_after_commit:
  "map_option snd (queue_run lost_receipt_actions (queue_init 2)) =
     Some [SubmitCalled 5 [7], Committed 5 one_tx, SubmitReturned 5 (Inl ErrQueueClosed),
           Delivered 9 one_tx, DrainReturned 9 [one_tx] None]"
  by (simp add: queue_eval lost_receipt_actions_def)

end
