(* ===== verification/Tx_Queue_Liveness.thy ===== *)
theory Tx_Queue_Liveness
  imports Tx_Queue_Properties
begin

text \<open>
  \<open>TxQueue\<close>, continued: when the queue can panic, when the admission loop can block, what
  \<open>Drain\<close> and \<open>DrainWait\<close> return, and that \<open>Close\<close> leads to a complete shutdown.
\<close>

section \<open>Panics\<close>

text \<open>A drain of a size that is negative or that \<open>make\<close> cannot allocate.\<close>

fun impossible_drain :: "queue_action \<Rightarrow> bool" where
  "impossible_drain (Consumer (CallDrainWait c x n)) \<longleftrightarrow> n < 0 \<or> 2 ^ 48 < 56 * n"
| "impossible_drain (Consumer (CallDrain c n)) \<longleftrightarrow> n < 0 \<or> 2 ^ 48 < 56 * n"
| "impossible_drain _ \<longleftrightarrow> False"

lemma panic_drain:
  "Drain_step b w = Some (w', es) \<Longrightarrow> (\<exists>m. Panicked m \<in> set es) \<longleftrightarrow> impossible_drain (Consumer b)"
  by (cases b) (auto simp: step_simps split: queue_splits)

lemma panic_step:
  assumes "queue_inv w" and "queue_step a w = Some (w', es)"
  shows "(\<exists>m. Panicked m \<in> set es) \<longleftrightarrow> impossible_drain a"
  using assms(2)
proof (cases rule: queue_step_cases)
  case (submit b)
  with submit_frame(4) assms(1) show ?thesis unfolding queue_inv_def by auto
next
  case (loop b)
  with loop_frame(4) assms(1) show ?thesis unfolding queue_inv_def by auto
next
  case (drain b)
  with panic_drain show ?thesis by blast
qed auto

text \<open>
  C38: the channel operations of the queue never panic: no send on the closed \<open>q.ch\<close>, no second
  \<open>close(q.ch)\<close>, however \<open>Close\<close> races with submitters and consumers.  A run panics exactly if it has a
  call of \<open>Drain\<close> or \<open>DrainWait\<close> whose size is negative or beyond what \<open>make\<close> can allocate.
\<close>

theorem queue_panics_only_on_impossible_size:
  assumes "queue_run as (queue_init cap) = Some (w, evs)"
  shows "(\<exists>m. Panicked m \<in> set evs) \<longleftrightarrow> list_ex impossible_drain as"
proof -
  have "queue_inv w \<and> ((\<exists>m. Panicked m \<in> set evs) \<longleftrightarrow> list_ex impossible_drain as)"
  proof (rule run_invariant [OF assms, where
        P = "\<lambda>as w evs. queue_inv w \<and> ((\<exists>m. Panicked m \<in> set evs) \<longleftrightarrow> list_ex impossible_drain as)"])
    show "queue_inv (queue_init cap) \<and> ((\<exists>m. Panicked m \<in> set []) \<longleftrightarrow> list_ex impossible_drain [])"
      by (simp add: queue_inv_init)
  next
    fix as evs a es and w w' :: queue_world
    assume "queue_inv w \<and> ((\<exists>m. Panicked m \<in> set evs) \<longleftrightarrow> list_ex impossible_drain as)" and st: "queue_step a w = Some (w', es)"
    with panic_step [OF _ st] queue_inv_step [OF _ st]
    show "queue_inv w' \<and> ((\<exists>m. Panicked m \<in> set (evs @ es)) \<longleftrightarrow> list_ex impossible_drain (as @ [a]))" by auto
  qed
  then show ?thesis by blast
qed

theorem queue_panics_only_on_impossible_size_witness:
  "(\<exists>m. Panicked m \<in> set [Panicked ''makeslice: cap out of range'']) \<longleftrightarrow>
     list_ex impossible_drain [Consumer (CallDrain 1 (2 ^ 43)), CallClose]"
  by (rule queue_panics_only_on_impossible_size
      [where cap = 1 and w = "fst (the (queue_step CallClose (queue_init 1)))"])
    (simp add: queue_eval)

section \<open>When the admission loop blocks\<close>

text \<open>
  The three reasons for the admission goroutine to make no step: it has exited, there is no
  request, or the committed channel takes no transaction.
\<close>

definition no_request :: "queue_world \<Rightarrow> bool" where
  "no_request w \<longleftrightarrow> submitCh w = [] \<and>
     (capacity w = 0 \<longrightarrow> (\<forall>r q. submits w r \<noteq> Some (SubSending q)))"

definition no_room :: "queue_world \<Rightarrow> bool" where
  "no_room w \<longleftrightarrow> capacity w \<le> length (ch w) \<and>
     (capacity w = 0 \<longrightarrow> (\<forall>c d. drains w c = Some d \<longrightarrow> \<not> int (length (d_batch d)) < d_size d))"

fun loop_waits :: "queue_world \<Rightarrow> loop_pc \<Rightarrow> bool" where
  "loop_waits w LoopSelect \<longleftrightarrow> no_request w \<and> \<not> done_closed w"
| "loop_waits w (LoopGot q) \<longleftrightarrow> False"
| "loop_waits w (LoopStamped q tx) \<longleftrightarrow>
     no_room w \<and> ctx_err w (req_ctx q) = None \<and> \<not> done_closed w"
| "loop_waits w LoopReject \<longleftrightarrow> False"
| "loop_waits w LoopExited \<longleftrightarrow> True"

text \<open>The step the loop can always make when it does not wait.\<close>

definition next_loop_action :: "queue_world \<Rightarrow> loop_action" where
  "next_loop_action w =
     (case loop w of
        LoopSelect \<Rightarrow> if done_closed w then LoopDone else LoopTake
      | LoopGot q \<Rightarrow> if done_closed w then LoopClosedAfterTake
                     else if ctx_err w (req_ctx q) \<noteq> None then LoopCtxExpired else LoopStamp 0
      | LoopStamped q tx \<Rightarrow> if done_closed w then LoopCommitClosed
                     else if ctx_err w (req_ctx q) \<noteq> None then LoopCommitCancelled else LoopCommit
      | LoopReject \<Rightarrow> if submitCh w = [] then RejectDone else RejectOne
      | LoopExited \<Rightarrow> LoopTake)"

lemma inflight_unanswered:
  "requests_ok w \<Longrightarrow> loop w = LoopGot q \<Longrightarrow> resps w (req_id q) = None"
  "requests_ok w \<Longrightarrow> loop w = LoopStamped q tx \<Longrightarrow> resps w (req_id q) = None"
  "requests_ok w \<Longrightarrow> submitCh w = q # rest \<Longrightarrow> resps w (req_id q) = None"
  by (auto simp: requests_ok_def inflight_def intro: reqs_ok_unanswered dest: reqs_okD(2))

lemma loop_enabled:
  assumes "requests_ok w" and "\<not> loop_waits w (loop w)"
  shows "\<exists>a. runAdmissionLoop_step a w \<noteq> None"
proof (cases "runAdmissionLoop_step (next_loop_action w) w")
  case (Some x)
  then have "runAdmissionLoop_step (next_loop_action w) w \<noteq> None" by simp
  then show ?thesis by blast
next
  case None
  then consider r q where "capacity w = 0" "loop w = LoopSelect" "submits w r = Some (SubSending q)"
    | c d q tx where "capacity w = 0" "loop w = LoopStamped q tx" "drains w c = Some d"
      "int (length (d_batch d)) < d_size d"
    using assms inflight_unanswered [OF assms(1)]
    by (auto simp: next_loop_action_def step_simps no_request_def no_room_def not_le split: queue_splits)
  then show ?thesis
  proof cases
    case 1
    then have "runAdmissionLoop_step (LoopRendezvous r) w \<noteq> None" by simp
    then show ?thesis by blast
  next
    case 2
    then have "runAdmissionLoop_step (LoopHandoff c) w \<noteq> None"
      using inflight_unanswered(2) [OF assms(1)] by (simp add: step_simps)
    then show ?thesis by blast
  qed
qed

lemma loop_disabled:
  "loop_waits w (loop w) \<Longrightarrow> shutdown_ok w \<Longrightarrow> runAdmissionLoop_step a w = None"
  by (cases a)
    (auto simp: step_simps no_request_def no_room_def shutdown_ok_def split: queue_splits)

text \<open>
  In every reachable state the admission goroutine can move unless it has exited, waits
  for a request, or waits for room in \<open>q.ch\<close> with neither the submitter's context done nor the
  queue closed.  In particular it never blocks on sending a response.
\<close>

lemma admission_blocks_iff:
  assumes "queue_run as (queue_init cap) = Some (w, evs)"
  shows "(\<forall>a. queue_step (Admission a) w = None) \<longleftrightarrow> loop_waits w (loop w)"
proof -
  have "queue_inv w" by (rule queue_log.inv_run [OF assms])
  with loop_enabled [of w] loop_disabled [of w] show ?thesis
    unfolding queue_inv_def queue_step.simps by meson
qed

section \<open>Shutdown\<close>

text \<open>
  After \<open>Close\<close> every step of the admission loop uses up potential: two units per request
  in \<open>submitCh\<close> and at most three for the loop's own position.  Handing over one more
  request adds two.
\<close>

fun loop_potential :: "loop_pc \<Rightarrow> nat" where
  "loop_potential LoopExited = 0"
| "loop_potential LoopReject = 1"
| "loop_potential LoopSelect = 2"
| "loop_potential _ = 3"

definition shutdown_potential :: "queue_world \<Rightarrow> nat" where
  "shutdown_potential w = loop_potential (loop w) + 2 * length (submitCh w)"

fun is_admission :: "queue_action \<Rightarrow> bool" where
  "is_admission (Admission a) \<longleftrightarrow> True"
| "is_admission _ \<longleftrightarrow> False"

fun hands_over :: "queue_action \<Rightarrow> bool" where
  "hands_over (Submitter (SendRequest r)) \<longleftrightarrow> True"
| "hands_over (Admission (LoopRendezvous r)) \<longleftrightarrow> True"
| "hands_over (Admission (RejectRendezvous r)) \<longleftrightarrow> True"
| "hands_over _ \<longleftrightarrow> False"

lemma potential_submit:
  "SubmitWithReceipt_step b w = Some (w', es) \<Longrightarrow>
     done_closed w' = done_closed w \<and>
     shutdown_potential w' \<le> shutdown_potential w + (if hands_over (Submitter b) then 2 else 0)"
  by (cases b) (auto simp: step_simps shutdown_potential_def split: queue_splits)

lemma potential_loop:
  "runAdmissionLoop_step b w = Some (w', es) \<Longrightarrow> done_closed w \<Longrightarrow> shutdown_ok w \<Longrightarrow>
     done_closed w' \<and>
     Suc (shutdown_potential w') \<le> shutdown_potential w + (if hands_over (Admission b) then 2 else 0)"
  by (cases b) (auto simp: step_simps shutdown_potential_def shutdown_ok_def split: queue_splits)

lemma potential_drain:
  "Drain_step b w = Some (w', es) \<Longrightarrow>
     done_closed w' = done_closed w \<and> shutdown_potential w' = shutdown_potential w"
  by (cases b) (auto simp: step_simps shutdown_potential_def split: queue_splits)

lemma potential_step:
  assumes "queue_inv w" and "done_closed w" and "queue_step a w = Some (w', es)"
  shows "done_closed w' \<and>
    (if is_admission a then 1 else 0) + shutdown_potential w'
      \<le> shutdown_potential w + (if hands_over a then 2 else 0)"
  using assms(3)
proof (cases rule: queue_step_cases)
  case (submit b)
  with potential_submit [OF submit(2)] assms(2) show ?thesis by simp
next
  case (loop b)
  with potential_loop [OF loop(2) assms(2)] assms(1) show ?thesis by (simp add: queue_inv_def)
next
  case (drain b)
  with potential_drain [OF drain(2)] assms(2) show ?thesis by simp
qed (use assms(2) in \<open>auto simp: queue_Close_def shutdown_potential_def\<close>)

lemma potential_run:
  "queue_run bs w = Some (w', es) \<Longrightarrow> queue_inv w \<Longrightarrow> done_closed w \<Longrightarrow>
     length (filter is_admission bs) + shutdown_potential w'
       \<le> shutdown_potential w + 2 * length (filter hands_over bs)"
proof (induction bs arbitrary: w es)
  case Nil
  then show ?case by simp
next
  case (Cons b bs)
  from Cons.prems(1) obtain w1 es1 es' where st: "queue_step b w = Some (w1, es1)"
    and rest: "queue_run bs w1 = Some (w', es')" by (blast elim: run_ConsE)
  note one = potential_step [OF Cons.prems(2,3) st]
  from Cons.IH [OF rest queue_inv_step [OF Cons.prems(2) st]] one show ?case
    by (auto split: if_splits)
qed

text \<open>
  C20: once \<open>Close\<close> has been called, the admission goroutine makes a bounded number of further
  steps in every interleaving (at most three, plus two for each request that is waiting or still
  gets handed over), and it is never stuck before it has exited: the shutdown terminates.
\<close>

theorem queue_close_terminates:
  assumes "queue_run as (queue_init cap) = Some (w, evs)" and "done_closed w"
    and "queue_run bs w = Some (w', evs')"
  shows "length (filter is_admission bs)
      \<le> 3 + 2 * length (submitCh w) + 2 * length (filter hands_over bs) \<and>
    (loop w' = LoopExited \<or> (\<exists>a. queue_step (Admission a) w' \<noteq> None))"
proof

  have inv: "queue_inv w" by (rule queue_log.inv_run [OF assms(1)])
  have "loop_potential (loop w) \<le> 3" by (cases "loop w") auto
  with potential_run [OF assms(3) inv assms(2)]
  show "length (filter is_admission bs)
      \<le> 3 + 2 * length (submitCh w) + 2 * length (filter hands_over bs)"
    by (simp add: shutdown_potential_def)
  have "queue_inv w' \<and> done_closed w'"
    by (rule run_invariant [OF assms(3), where P = "\<lambda>_ s _. queue_inv s \<and> done_closed s"])
      (use inv assms(2) potential_step queue_inv_step in blast)+
  then have "requests_ok w'" "loop w' \<noteq> LoopExited \<Longrightarrow> \<not> loop_waits w' (loop w')"
    by (cases "loop w'"; auto simp: queue_inv_def)+
  with loop_enabled [of w'] show "loop w' = LoopExited \<or> (\<exists>a. queue_step (Admission a) w' \<noteq> None)"
    by auto
qed

text \<open>A closed queue with one request in flight, and its shutdown.\<close>

definition closing_actions :: "queue_action list" where
  "closing_actions = [Submitter (CallSubmit 5 0 [7]), Submitter (SendRequest 5), CallClose]"

definition closing_world :: queue_world where
  "closing_world = (queue_init 2)
     \<lparr>done_closed := True,
      submitCh := [\<lparr>req_id = 5, req_ctx = 0, req_ciphertext = [7]\<rparr>],
      submits := [5 \<mapsto> SubWaiting \<lparr>req_id = 5, req_ctx = 0, req_ciphertext = [7]\<rparr>]\<rparr>"

lemma closing_run:
  "queue_run closing_actions (queue_init 2) = Some (closing_world, [SubmitCalled 5 [7]])"
  by (simp add: closing_actions_def closing_world_def queue_eval)

lemma closing_done: "done_closed closing_world"
  by (simp add: closing_world_def)

theorem queue_close_terminates_witness:
  "length (filter is_admission [Admission LoopDone])
      \<le> 3 + 2 * length (submitCh closing_world) + 2 * length (filter hands_over [Admission LoopDone]) \<and>
    (LoopReject = LoopExited \<or>
      (\<exists>a. queue_step (Admission a) (closing_world\<lparr>loop := LoopReject\<rparr>) \<noteq> None))"
  using queue_close_terminates [OF closing_run closing_done,
      of "[Admission LoopDone]" "closing_world\<lparr>loop := LoopReject\<rparr>" "[]"]
  by (simp add: closing_world_def queue_init_def)

text \<open>The loop's own preferred schedule: each step towards the exit answers or keeps requests.\<close>

lemma next_loop_enabled:
  assumes "queue_inv w" and "done_closed w" and "loop w \<noteq> LoopExited"
  shows "\<exists>w'. runAdmissionLoop_step (next_loop_action w) w = Some (w', [])"
proof -
  have "requests_ok w" "\<not> ch_closed w"
    using assms by (auto simp: queue_inv_def shutdown_ok_def)
  with assms(2,3) inflight_unanswered [OF \<open>requests_ok w\<close>] show ?thesis
    by (cases "loop w"; cases "submitCh w") (auto simp: next_loop_action_def step_simps)
qed

lemma next_loop_effect:
  assumes "runAdmissionLoop_step (next_loop_action w) w = Some (w', es)" and "done_closed w"
    and "loop w \<noteq> LoopExited" and "\<not> ch_closed w"
  shows "shutdown_potential w' < shutdown_potential w" and "done_closed w'" and "ch w' = ch w"
    and "submits w' = submits w"
    and "q \<in> set (inflight w) \<Longrightarrow>
      q \<in> set (inflight w') \<or> resps w' (req_id q) = Some (Inl ErrQueueClosed)"
    and "resps w r = Some x \<Longrightarrow> resps w' r = Some x"
    and "loop w' = LoopExited \<Longrightarrow> submitCh w' = []"
  using assms
  by (cases "loop w"; auto simp: next_loop_action_def step_simps inflight_def shutdown_potential_def
      split: queue_splits)+

lemma shutdown_schedule:
  "queue_inv w \<Longrightarrow> done_closed w \<Longrightarrow> loop w \<noteq> LoopExited \<Longrightarrow>
     \<exists>bs w'. queue_run (map Admission bs) w = Some (w', []) \<and> length bs \<le> shutdown_potential w \<and>
       loop w' = LoopExited \<and> ch w' = ch w \<and> submits w' = submits w \<and>
       (\<forall>q \<in> set (inflight w). resps w' (req_id q) = Some (Inl ErrQueueClosed)) \<and>
       (\<forall>r x. resps w r = Some x \<longrightarrow> resps w' r = Some x)"
proof (induction "shutdown_potential w" arbitrary: w rule: less_induct)
  case less
  let ?a = "next_loop_action w"
  obtain w1 where st: "runAdmissionLoop_step ?a w = Some (w1, [])"
    using next_loop_enabled [OF less.prems] by blast
  have open_ch: "\<not> ch_closed w" using less.prems by (auto simp: queue_inv_def shutdown_ok_def)
  note eff = next_loop_effect [OF st less.prems(2,3) open_ch]
  show ?case
  proof (cases "loop w1 = LoopExited")
    case True
    with eff(7) have "inflight w1 = []" by (simp add: inflight_def)
    with True st eff show ?thesis by (intro exI [of _ "[?a]"] exI [of _ w1]) auto
  next
    case False
    have "queue_inv w1" using queue_inv_step [of w "Admission ?a"] less.prems(1) st by simp
    from less.hyps [OF eff(1) this eff(2) False] obtain bs w' where rest:
      "queue_run (map Admission bs) w1 = Some (w', [])" "length bs \<le> shutdown_potential w1"
      "loop w' = LoopExited" "ch w' = ch w1" "submits w' = submits w1"
      "\<And>q. q \<in> set (inflight w1) \<Longrightarrow> resps w' (req_id q) = Some (Inl ErrQueueClosed)"
      "\<And>r x. resps w1 r = Some x \<Longrightarrow> resps w' r = Some x" by metis
    have "resps w' (req_id q) = Some (Inl ErrQueueClosed)" if "q \<in> set (inflight w)" for q
      using eff(5) [OF that] rest(6,7) by auto
    with st eff(1,3,4,6) rest show ?thesis
      by (intro exI [of _ "?a # bs"] exI [of _ w']) simp
  qed
qed

text \<open>
  C22: after \<open>Close\<close> the admission goroutine can always finish by itself, in at most three steps
  plus two per waiting request: it answers every request in flight with \<open>ErrQueueClosed\<close>, keeps
  the receipts already given and everything buffered in \<open>q.ch\<close>, and closes \<open>q.ch\<close>.
\<close>

theorem queue_close_answers_all:
  assumes "queue_run as (queue_init cap) = Some (w, evs)" and "done_closed w"
    and "loop w \<noteq> LoopExited"
  shows "\<exists>bs w'. queue_run (map Admission bs) w = Some (w', []) \<and>
    length bs \<le> 3 + 2 * length (submitCh w) \<and> loop w' = LoopExited \<and> ch_closed w' \<and> ch w' = ch w \<and>
    (\<forall>q \<in> set (inflight w). resps w' (req_id q) = Some (Inl ErrQueueClosed)) \<and>
    (\<forall>r x. resps w r = Some x \<longrightarrow> resps w' r = Some x)"
proof -
  have inv: "queue_inv w" by (rule queue_log.inv_run [OF assms(1)])
  from shutdown_schedule [OF this assms(2,3)] obtain bs w' where
    b: "queue_run (map Admission bs) w = Some (w', [])" "length bs \<le> shutdown_potential w"
      "loop w' = LoopExited" "ch w' = ch w"
      "\<forall>q \<in> set (inflight w). resps w' (req_id q) = Some (Inl ErrQueueClosed)"
      "\<forall>r x. resps w r = Some x \<longrightarrow> resps w' r = Some x" by metis
  have "queue_inv w'"
    by (rule run_invariant [OF b(1), where P = "\<lambda>_ s _. queue_inv s"]) (use inv queue_inv_step in auto)
  then have "ch_closed w'" using b(3) by (simp add: queue_inv_def shutdown_ok_def)
  moreover have "loop_potential (loop w) \<le> 3" by (cases "loop w") auto
  ultimately show ?thesis using b
    by (intro exI [of _ bs] exI [of _ w']) (simp add: shutdown_potential_def)
qed

theorem queue_close_answers_all_witness:
  "\<exists>bs w'. queue_run (map Admission bs) closing_world = Some (w', []) \<and> length bs \<le> 5 \<and>
    loop w' = LoopExited \<and> resps w' 5 = Some (Inl ErrQueueClosed)"
  using queue_close_answers_all [OF closing_run closing_done]
  by (force simp: closing_world_def inflight_def queue_init_def)

section \<open>Consumers\<close>

definition in_hand :: "queue_world \<Rightarrow> nat \<Rightarrow> EncryptedTransaction list" where
  "in_hand w c = (case drains w c of None \<Rightarrow> [] | Some d \<Rightarrow> d_batch d)"

lemma in_hand_drain:
  "Drain_step b w = Some (w', es) \<Longrightarrow> in_hand w c @ delivered_to c es = batches c es @ in_hand w' c"
  by (cases b) (auto simp: in_hand_def step_simps split: queue_splits)

lemma in_hand_loop:
  "runAdmissionLoop_step b w = Some (w', es) \<Longrightarrow>
     in_hand w c @ delivered_to c es = batches c es @ in_hand w' c"
  by (cases b) (auto simp: in_hand_def step_simps split: queue_splits)

lemma in_hand_submit:
  "SubmitWithReceipt_step b w = Some (w', es) \<Longrightarrow>
     in_hand w c @ delivered_to c es = batches c es @ in_hand w' c"
  by (cases b) (auto simp: in_hand_def step_simps split: queue_splits)

interpretation queue_batches:
  batching_log "queue_init cap" queue_step ch queue_inv queue_last_id queue_wraps in_hand
  for cap :: nat
proof unfold_locales
  show "in_hand (queue_init cap) c = []" for c by (simp add: in_hand_def queue_init_def)
next
  fix w w' c es and a :: queue_action
  assume "queue_step a w = Some (w', es)"
  then show "in_hand w c @ delivered_to c es = batches c es @ in_hand w' c"
    by (cases rule: queue_step_cases)
      (simp_all add: in_hand_drain in_hand_loop in_hand_submit, simp_all add: queue_Close_def in_hand_def)
qed

text \<open>
  Every transaction taken from \<open>q.ch\<close> by a consumer is part of a batch its calls of
  \<open>Drain\<close> and \<open>DrainWait\<close> return, or of the call in progress, in the order received; a
  cancelled \<open>DrainWait\<close> returns what it had collected, so cancellation loses nothing.
\<close>

lemma queue_batches_complete:
  assumes "queue_run as (queue_init cap) = Some (w, evs)"
  shows "delivered_to c evs = batches c evs @ in_hand w c"
  using assms by (rule queue_batches.batches_run)

text \<open>
  What a returning call reports is accurate.  \<open>DrainWait\<close> returns without error exactly
  with a full batch, with \<open>ErrQueueClosed\<close> only when \<open>q.ch\<close> is closed and empty, and with a
  context error only when its context is done with that error; \<open>Drain\<close> returns a short batch
  only when \<open>q.ch\<close> is empty, and never an error.
\<close>

lemma queue_drain_results:
  assumes "queue_run as (queue_init cap) = Some (w, evs)" and "drains w c = Some d"
    and "queue_step a w = Some (w', es)" and "DrainReturned c b e \<in> set es"
  shows "b = d_batch d \<and> int (length b) \<le> d_size d \<and>
    (case d_mode d of
       Blocking x \<Rightarrow> (e = None \<longleftrightarrow> int (length b) = d_size d) \<and>
         (e = Some ErrQueueClosed \<longrightarrow> ch w = [] \<and> ch_closed w) \<and>
         (\<forall>ce. e = Some (ErrCtx ce) \<longrightarrow> ctx_err w x = Some ce)
     | NonBlocking \<Rightarrow> e = None \<and> (int (length b) < d_size d \<longrightarrow> ch w = []))"
proof -
  have inv: "queue_inv w" by (rule queue_log.inv_run [OF assms(1)])
  from assms(3) obtain k where k: "Drain_step k w = Some (w', es)"
  proof (cases rule: queue_step_cases)
    case (submit b)
    with submit_frame(3) inv assms(4) show ?thesis unfolding queue_inv_def by blast
  next
    case (loop b)
    with loop_frame(5) inv assms(4) show ?thesis unfolding queue_inv_def by blast
  qed (use assms(4) that in auto)
  from inv assms(2) have "int (length (d_batch d)) \<le> d_size d"
    by (simp add: queue_inv_def drains_ok_def)
  with k assms(2,4) show ?thesis
    by (cases k) (auto simp: step_simps split: queue_splits)
qed

text \<open>Once the closed queue is empty it stays so.\<close>

lemma emptied_submit:
  "SubmitWithReceipt_step b w = Some (w', es) \<Longrightarrow> loop w' = loop w \<and> ch w' = ch w \<and>
     (\<forall>c b x. DrainReturned c b x \<notin> set es)"
  by (cases b) (auto simp: step_simps split: queue_splits)

lemma emptied_drain:
  "Drain_step b w = Some (w', es) \<Longrightarrow> shutdown_ok w \<Longrightarrow>
     loop w' = loop w \<and> (ch w = [] \<longrightarrow> ch w' = []) \<and>
     (\<forall>c b. DrainReturned c b (Some ErrQueueClosed) \<in> set es \<longrightarrow> ch w' = [] \<and> loop w' = LoopExited)"
  by (cases b) (auto simp: step_simps shutdown_ok_def split: queue_splits)

lemma exited_stays: "runAdmissionLoop_step b w = Some (w', es) \<Longrightarrow> loop w \<noteq> LoopExited"
  by (cases b) (auto split: queue_splits)

definition closed_and_empty :: "queue_world \<Rightarrow> log_event list \<Rightarrow> bool" where
  "closed_and_empty w evs \<longleftrightarrow>
     (\<forall>c b. DrainReturned c b (Some ErrQueueClosed) \<in> set evs \<longrightarrow> ch w = [] \<and> loop w = LoopExited)"

lemma closed_and_empty_step:
  assumes "queue_inv w" and "closed_and_empty w evs" and "queue_step a w = Some (w', es)"
  shows "closed_and_empty w' (evs @ es)"
  using assms(3)
proof (cases rule: queue_step_cases)
  case (submit b)
  with emptied_submit [OF submit(2)] assms(2) show ?thesis by (auto simp: closed_and_empty_def)
next
  case (loop b)
  with exited_stays [OF loop(2)] loop_frame(5) [OF loop(2)] assms(1,2) show ?thesis
    by (auto simp: closed_and_empty_def queue_inv_def)
next
  case (drain b)
  with emptied_drain [OF drain(2)] assms(1,2) show ?thesis
    by (auto simp: closed_and_empty_def queue_inv_def)
qed (use assms(2) in \<open>auto simp: closed_and_empty_def queue_Close_def\<close>)

text \<open>
  C21: once some \<open>DrainWait\<close> has returned \<open>ErrQueueClosed\<close>, every transaction that was or ever
  will be committed has been handed to a consumer: consumers may stop at that error.
\<close>

theorem queue_closed_means_drained:
  assumes "queue_run as (queue_init cap) = Some (w, evs)"
    and "DrainReturned c b (Some ErrQueueClosed) \<in> set evs"
  shows "delivered evs = committed evs \<and> loop w = LoopExited"
proof -
  have "queue_inv w \<and> closed_and_empty w evs"
  proof (rule run_invariant [OF assms(1), where P = "\<lambda>_ s es. queue_inv s \<and> closed_and_empty s es"])
    show "queue_inv (queue_init cap) \<and> closed_and_empty (queue_init cap) []"
      by (simp add: queue_inv_init closed_and_empty_def)
  qed (use closed_and_empty_step queue_inv_step in blast)
  with assms(2) have "ch w = []" "loop w = LoopExited" unfolding closed_and_empty_def by blast+
  with queue_log.fifo_run [OF assms(1)] show ?thesis by simp
qed

theorem queue_closed_means_drained_witness:
  "delivered [DrainReturned 9 [] (Some ErrQueueClosed)] =
     committed [DrainReturned 9 [] (Some ErrQueueClosed)] \<and>
   loop ((queue_init 2)\<lparr>done_closed := True, ch_closed := True, loop := LoopExited\<rparr>) = LoopExited"
  by (rule queue_closed_means_drained [where cap = 2 and c = 9 and b = "[]" and
      as = "[CallClose, Admission LoopDone, Admission RejectDone, Consumer (CallDrainWait 9 0 1),
             Consumer (DrainClosed 9)]"])
    (simp_all add: queue_init_def step_simps fun_upd_idem)

end
