(* ===== verification/Go_Fmt.thy ===== *)
theory Go_Fmt
  imports SO_Prelude
begin

text \<open>
  The verbs of Go's \<open>fmt.Sprintf\<close> that the sources use: \<open>%s\<close>, \<open>%d\<close>, \<open>%02d\<close> and
  \<open>%f\<close> / \<open>%.Nf\<close> on IEEE-754 doubles.  \<open>%f\<close> is computed from the exact binary value and
  rounded to nearest, ties to even, as \<open>strconv.AppendFloat(x, 'f', prec, 64)\<close> does.
\<close>

section \<open>Decimal integers\<close>

definition digit_char :: "nat \<Rightarrow> char" where
  "digit_char n = ''0123456789'' ! n"

fun show_nat :: "nat \<Rightarrow> string" where
  "show_nat n = (if n < 10 then [digit_char n] else show_nat (n div 10) @ [digit_char (n mod 10)])"

declare show_nat.simps [simp del]

definition show_int :: "int \<Rightarrow> string" where
  "show_int i = (if i < 0 then CHR ''-'' # show_nat (nat (- i)) else show_nat (nat i))"

definition pad_zero :: "nat \<Rightarrow> string \<Rightarrow> string" where
  "pad_zero w s = replicate (w - length s) CHR ''0'' @ s"

section \<open>Floating point\<close>

type_synonym float64 = "64 word"

definition f64_sign :: "float64 \<Rightarrow> bool" where
  "f64_sign w \<longleftrightarrow> bit w 63"

definition f64_exp :: "float64 \<Rightarrow> nat" where
  "f64_exp w = unat (drop_bit 52 w) mod 2048"

definition f64_mant :: "float64 \<Rightarrow> nat" where
  "f64_mant w = unat w mod 2 ^ 52"

text \<open>Nearest integer to \<open>a / b\<close>, ties to even.\<close>

definition round_half_even :: "nat \<Rightarrow> nat \<Rightarrow> nat" where
  "round_half_even a b =
     (let q = a div b; r = a mod b in
      if 2 * r > b \<or> (2 * r = b \<and> odd q) then q + 1 else q)"

text \<open>\<open>10 ^ p\<close> times the absolute value of a finite double, rounded to an integer.\<close>

definition f64_scaled :: "nat \<Rightarrow> float64 \<Rightarrow> nat" where
  "f64_scaled p w =
     (let e = f64_exp w; m = f64_mant w in
      if e = 0 then round_half_even (m * 10 ^ p) (2 ^ 1074)
      else if 1075 \<le> e then (2 ^ 52 + m) * 2 ^ (e - 1075) * 10 ^ p
      else round_half_even ((2 ^ 52 + m) * 10 ^ p) (2 ^ (1075 - e)))"

text \<open>With precision 0 there is no decimal point.\<close>

definition show_fixed :: "nat \<Rightarrow> nat \<Rightarrow> string" where
  "show_fixed p n =
     (if p = 0 then show_nat n else show_nat (n div 10 ^ p) @ CHR ''.'' # pad_zero p (show_nat (n mod 10 ^ p)))"

definition format_f :: "nat \<Rightarrow> float64 \<Rightarrow> string" where
  "format_f p w =
     (if f64_exp w = 2047 then
        (if f64_mant w \<noteq> 0 then ''NaN'' else if f64_sign w then ''-Inf'' else ''+Inf'')
      else (if f64_sign w then ''-'' else '''') @ show_fixed p (f64_scaled p w))"

lemmas fmt_eval = format_f_def f64_exp_def f64_mant_def f64_sign_def f64_scaled_def
  round_half_even_def show_fixed_def show_nat.simps show_int_def Let_def pad_zero_def
  digit_char_def

section \<open>Which characters the verbs produce\<close>

definition is_digit_char :: "char \<Rightarrow> bool" where
  "is_digit_char c \<longleftrightarrow> 48 \<le> (of_char c :: nat) \<and> (of_char c :: nat) \<le> 57"

lemma of_char_digit_char: "n < 10 \<Longrightarrow> (of_char (digit_char n) :: nat) = 48 + n"
proof -
  assume "n < 10"
  then have "n \<in> {0, 1, 2, 3, 4, 5, 6, 7, 8, 9}" by (simp, arith)
  then show ?thesis by (elim insertE emptyE) (simp_all add: digit_char_def)
qed

lemma show_nat_digits: "c \<in> set (show_nat n) \<Longrightarrow> is_digit_char c"
proof (induction n rule: show_nat.induct)
  case (1 n)
  then show ?case
    by (subst (asm) (2) show_nat.simps)
      (auto simp: is_digit_char_def of_char_digit_char split: if_splits)
qed

lemma show_nat_nonempty [simp]: "show_nat n \<noteq> []"
  by (subst show_nat.simps) simp

lemma show_int_chars: "c \<in> set (show_int i) \<Longrightarrow> is_digit_char c \<or> c = CHR ''-''"
  by (auto simp: show_int_def dest: show_nat_digits split: if_splits)

lemma show_fixed_chars: "c \<in> set (show_fixed p n) \<Longrightarrow> is_digit_char c \<or> c = CHR ''.''"
  by (auto simp: show_fixed_def pad_zero_def is_digit_char_def dest: show_nat_digits split: if_splits)

lemma pipe_not_in_show_int [simp]: "CHR ''|'' \<notin> set (show_int i)"
  by (auto dest!: show_int_chars simp: is_digit_char_def)

lemma pipe_not_in_format_f [simp]: "CHR ''|'' \<notin> set (format_f p w)"
  by (auto simp: format_f_def is_digit_char_def dest!: show_fixed_chars)

section \<open>How long the results are\<close>

lemma length_show_nat: "n < 10 ^ k \<Longrightarrow> 0 < k \<Longrightarrow> length (show_nat n) \<le> k"
proof (induction k arbitrary: n)
  case (Suc k)
  show ?case
  proof (cases "n < 10")
    case False
    then have "n div 10 < 10 ^ k" "0 < k" using Suc.prems by (auto intro!: gr0I)
    from Suc.IH [OF this] False show ?thesis by (simp add: show_nat.simps [of n])
  qed (simp add: show_nat.simps [of n])
qed simp

lemma length_show_int64: "length (show_int (sint (w :: 64 word))) \<le> 20"
proof -
  have "- (2 ^ 63) \<le> sint w" "sint w < 2 ^ 63" using sint_ge [of w] sint_lt [of w] by simp_all
  then have "nat (- sint w) < 10 ^ 19" "nat (sint w) < 10 ^ 19" by simp_all
  from length_show_nat [OF this(1)] length_show_nat [OF this(2)] show ?thesis by (simp add: show_int_def)
qed

lemma round_half_even_le: "round_half_even a b \<le> a + 1"
  by (simp add: round_half_even_def Let_def le_SucI)

lemma f64_scaled_less:
  assumes "f64_exp w \<noteq> 2047"
  shows "f64_scaled p w < 10 ^ 309 * 10 ^ p"
proof -
  have m: "2 ^ 52 + f64_mant w < 2 ^ 53" by (simp add: f64_mant_def)
  have e: "f64_exp w \<le> 2046" using assms by (simp add: f64_exp_def less_Suc_eq_le [symmetric])
  have small: "round_half_even (x * 10 ^ p) b < 10 ^ 309 * 10 ^ p" if "x < 2 ^ 53" for x b
  proof -
    have "x * 10 ^ p \<le> 2 ^ 53 * 10 ^ p" using that by simp
    moreover have "2 ^ 53 * (10 :: nat) ^ p + 1 < 10 ^ 309 * 10 ^ p"
    proof (rule less_le_trans)
      have "0 < (10 :: nat) ^ p" by simp
      then show "2 ^ 53 * (10 :: nat) ^ p + 1 < (2 ^ 53 + 2) * 10 ^ p" unfolding add_mult_distrib by linarith
    qed simp
    ultimately show ?thesis using round_half_even_le [of "x * 10 ^ p" b] by linarith
  qed
  have "(2 :: nat) ^ (f64_exp w - 1075) \<le> 2 ^ 971" by (rule power_increasing) (use e in simp_all)
  then have "(2 ^ 52 + f64_mant w) * 2 ^ (f64_exp w - 1075) < 2 ^ 53 * 2 ^ 971"
    by (rule mult_less_le_imp_less [OF m]) simp_all
  also have "(2 :: nat) ^ 53 * 2 ^ 971 < 10 ^ 309" by simp
  finally have "(2 ^ 52 + f64_mant w) * 2 ^ (f64_exp w - 1075) * 10 ^ p < 10 ^ 309 * 10 ^ p" by simp
  moreover have "f64_mant w < 2 ^ 53" using m by simp
  ultimately show ?thesis using small m by (simp add: f64_scaled_def Let_def)
qed

lemma length_format_f: "length (format_f p w) \<le> 312 + p"
proof (cases "f64_exp w = 2047")
  case False
  let ?n = "f64_scaled p w"
  have "?n div 10 ^ p < 10 ^ 309"
    using f64_scaled_less [OF False, of p] by (simp add: less_mult_imp_div_less)
  then have "length (show_nat (?n div 10 ^ p)) \<le> 309" by (rule length_show_nat) simp
  moreover have "length (show_nat (?n mod 10 ^ p)) \<le> p" if "0 < p"
    by (rule length_show_nat) (use that in simp_all)
  ultimately show ?thesis using False by (cases "p = 0") (auto simp: format_f_def show_fixed_def pad_zero_def)
qed (simp add: format_f_def)

section \<open>Decimal rendering is injective\<close>

definition digit_value :: "char \<Rightarrow> nat" where
  "digit_value c = of_char c - 48"

definition read_nat :: "string \<Rightarrow> nat" where
  "read_nat s = foldl (\<lambda>n c. 10 * n + digit_value c) 0 s"

lemma read_show_nat [simp]: "read_nat (show_nat n) = n"
proof (induction n rule: show_nat.induct)
  case (1 n)
  show ?case
  proof (cases "n < 10")
    case True
    then show ?thesis
      by (subst show_nat.simps) (simp add: read_nat_def digit_value_def of_char_digit_char)
  next
    case False
    with 1 have "read_nat (show_nat (n div 10)) = n div 10" by simp
    with False show ?thesis
      by (subst show_nat.simps) (simp add: read_nat_def digit_value_def of_char_digit_char)
  qed
qed

lemma show_nat_inject [simp]: "show_nat m = show_nat n \<longleftrightarrow> m = n"
  by (metis read_show_nat)

lemma minus_not_in_show_nat [simp]: "show_nat n \<noteq> CHR ''-'' # s"
proof
  assume "show_nat n = CHR ''-'' # s"
  then have "CHR ''-'' \<in> set (show_nat n)" by simp
  then show False by (auto dest!: show_nat_digits simp: is_digit_char_def)
qed

lemma show_int_inject [simp]: "show_int i = show_int j \<longleftrightarrow> i = j"
  by (auto simp: show_int_def dest: sym split: if_splits)

end
