(* ===== verification/Go_Strings.thy ===== *)
theory Go_Strings
  imports Go_Fmt
begin

text \<open>
  The functions of Go's \<open>strings\<close>, \<open>strconv\<close> and \<open>net\<close> packages that the sources use, on
  byte strings.
\<close>

section \<open>Cutting and trimming\<close>

definition TrimPrefix :: "string \<Rightarrow> string \<Rightarrow> string" where
  "TrimPrefix s pre = (if take (length pre) s = pre then drop (length pre) s else s)"

text \<open>\<open>strings.Split\<close> at a one-byte separator, and \<open>strings.SplitN\<close> with \<open>n = 2\<close>.\<close>

fun Split :: "string \<Rightarrow> char \<Rightarrow> string list" where
  "Split [] sep = [[]]"
| "Split (c # s) sep =
     (if c = sep then [] # Split s sep
      else (case Split s sep of [] \<Rightarrow> [[c]] | p # ps \<Rightarrow> (c # p) # ps))"

fun SplitN2 :: "string \<Rightarrow> char \<Rightarrow> string list" where
  "SplitN2 [] sep = [[]]"
| "SplitN2 (c # s) sep =
     (if c = sep then [[], s]
      else (case SplitN2 s sep of [] \<Rightarrow> [[c]] | p # ps \<Rightarrow> (c # p) # ps))"

text \<open>The UTF-8 encodings of the white space characters of Unicode (\<open>unicode.IsSpace\<close>).\<close>

definition space_codes :: "nat list list" where
  "space_codes =
     [[9], [10], [11], [12], [13], [32], [194, 133], [194, 160], [225, 154, 128]] @
     map (\<lambda>b. [226, 128, b]) [128, 129, 130, 131, 132, 133, 134, 135, 136, 137, 138, 168, 169, 175] @
     [[226, 129, 159], [227, 128, 128]]"

definition space_runes :: "string list" where
  "space_runes = map (map char_of) space_codes"

definition starts_with :: "string \<Rightarrow> string \<Rightarrow> bool" where
  "starts_with s pre \<longleftrightarrow> take (length pre) s = pre"

lemma starts_with_shorter: "r \<noteq> [] \<Longrightarrow> starts_with s r \<Longrightarrow> length s - length r < length s"
  by (cases s) (auto simp: starts_with_def)

text \<open>Strips encoded characters of \<open>rs\<close> from the front.\<close>

function strip_front :: "string list \<Rightarrow> string \<Rightarrow> string" where
  "strip_front rs s =
     (case find (\<lambda>r. r \<noteq> [] \<and> starts_with s r) rs of
        None \<Rightarrow> s
      | Some r \<Rightarrow> strip_front rs (drop (length r) s))"
  by auto
termination
  by (relation "measure (length \<circ> snd)") (auto simp: find_Some_iff starts_with_shorter)

declare strip_front.simps [simp del]

text \<open>\<open>strings.TrimSpace\<close>: the trailing characters are stripped from the reversed string.\<close>

definition TrimSpace :: "string \<Rightarrow> string" where
  "TrimSpace s = rev (strip_front (map rev space_runes) (rev (strip_front space_runes s)))"

definition is_blank :: "string \<Rightarrow> bool" where
  "is_blank s \<longleftrightarrow> TrimSpace s = []"

text \<open>A string that begins and ends with a printable ASCII character is left as it is.\<close>

definition graphic :: "char \<Rightarrow> bool" where
  "graphic c \<longleftrightarrow> 33 \<le> (of_char c :: nat) \<and> (of_char c :: nat) \<le> 126"

lemma strip_front_stop:
  assumes "\<And>r. r \<in> set rs \<Longrightarrow> r \<noteq> [] \<Longrightarrow> hd r \<noteq> c"
  shows "strip_front rs (c # s) = c # s"
proof -
  have "hd r = c" if "r \<noteq> []" "starts_with (c # s) r" for r
    using that by (cases r) (auto simp: starts_with_def)
  with assms have "find (\<lambda>r. r \<noteq> [] \<and> starts_with (c # s) r) rs = None"
    unfolding find_None_iff by blast
  then show ?thesis by (subst strip_front.simps) simp
qed

lemma space_codes_ends:
  "cs \<in> set space_codes \<Longrightarrow> cs \<noteq> [] \<and> hd cs \<notin> {33..126} \<and> last cs \<notin> {33..126} \<and> hd cs < 256 \<and> last cs < 256"
  by (auto simp: space_codes_def)

lemma graphic_not_space:
  assumes "graphic c" and "r \<in> set space_runes"
  shows "hd r \<noteq> c" and "last r \<noteq> c"
proof -
  from assms(2) obtain cs where cs: "cs \<in> set space_codes" and r: "r = map char_of cs"
    by (auto simp: space_runes_def)
  from space_codes_ends [OF cs] have "(of_char (hd r) :: nat) \<notin> {33..126}" "(of_char (last r) :: nat) \<notin> {33..126}"
    by (auto simp: r hd_map last_map)
  with assms(1) show "hd r \<noteq> c" "last r \<noteq> c" by (auto simp: graphic_def)
qed

lemma TrimSpace_graphic:
  assumes "s \<noteq> []" and "graphic (hd s)" and "graphic (last s)"
  shows "TrimSpace s = s"
proof -
  have "strip_front space_runes (hd s # tl s) = hd s # tl s"
    using graphic_not_space(1) [OF assms(2)] by (rule strip_front_stop)
  moreover have "strip_front (map rev space_runes) (last s # rev (butlast s)) = last s # rev (butlast s)"
  proof (rule strip_front_stop)
    fix r assume r: "r \<in> set (map rev space_runes)" "r \<noteq> []"
    then have "rev r \<in> set space_runes" by auto
    from graphic_not_space(2) [OF assms(3) this] show "hd r \<noteq> last s"
      using r(2) by (simp add: last_rev)
  qed
  moreover have "rev s = last s # rev (butlast s)"
    using assms(1) by (metis append_butlast_last_id rev.simps(2) rev_rev_ident rev_swap)
  ultimately show ?thesis
    using assms(1) by (metis TrimSpace_def list.collapse rev_rev_ident)
qed

lemma graphic_not_blank: "s \<noteq> [] \<Longrightarrow> graphic (hd s) \<Longrightarrow> graphic (last s) \<Longrightarrow> \<not> is_blank s"
  by (simp add: is_blank_def TrimSpace_graphic)

section \<open>Integers\<close>

datatype num_error = ErrSyntax | ErrRange

fun read_digits :: "string \<Rightarrow> nat \<Rightarrow> nat option" where
  "read_digits [] n = Some n"
| "read_digits (c # s) n = (if is_digit_char c then read_digits s (10 * n + digit_value c) else None)"

text \<open>\<open>strconv.ParseInt(s, 10, 64)\<close>\<close>

definition ParseInt64 :: "string \<Rightarrow> num_error + int" where
  "ParseInt64 s =
     (let (neg, ds) = (case s of
            [] \<Rightarrow> (False, [])
          | c # cs \<Rightarrow> if c = CHR ''-'' then (True, cs) else if c = CHR ''+'' then (False, cs) else (False, s))
      in if ds = [] then Inl ErrSyntax
         else (case read_digits ds 0 of
                 None \<Rightarrow> Inl ErrSyntax
               | Some n \<Rightarrow>
                  (if \<not> neg \<and> n \<ge> 2 ^ 63 then Inl ErrRange
                   else if neg \<and> n > 2 ^ 63 then Inl ErrRange
                   else Inr (if neg then - int n else int n))))"

lemma read_digits_foldl:
  "(\<And>c. c \<in> set s \<Longrightarrow> is_digit_char c) \<Longrightarrow>
     read_digits s n = Some (foldl (\<lambda>n c. 10 * n + digit_value c) n s)"
  by (induction s arbitrary: n) auto

lemma read_digits_show_nat [simp]: "read_digits (show_nat n) 0 = Some n"
  using read_digits_foldl [of "show_nat n" 0] show_nat_digits [of _ n] read_show_nat [of n]
  by (simp add: read_nat_def)

lemma show_nat_head:
  obtains c cs where "show_nat n = c # cs" and "is_digit_char c"
  by (metis list.set_intros(1) neq_Nil_conv show_nat_digits show_nat_nonempty)

text \<open>What \<open>%d\<close> prints, \<open>ParseInt\<close> reads back.\<close>

lemma ParseInt64_show_int:
  assumes "- (2 ^ 63) \<le> i" and "i < 2 ^ 63"
  shows "ParseInt64 (show_int i) = Inr i"
proof (cases "i < 0")
  case True
  with assms show ?thesis by (simp add: ParseInt64_def show_int_def)
next
  case False
  obtain c cs where c: "show_nat (nat i) = c # cs" and d: "is_digit_char c"
    by (rule show_nat_head)
  from d have "c \<noteq> CHR ''-''" "c \<noteq> CHR ''+''" by (auto simp: is_digit_char_def)
  moreover have "read_digits (c # cs) 0 = Some (nat i)" using c by (metis read_digits_show_nat)
  ultimately show ?thesis using False assms c by (simp add: ParseInt64_def show_int_def del: read_digits.simps)
qed

section \<open>Host and port\<close>

fun index_of :: "char \<Rightarrow> string \<Rightarrow> nat option" where
  "index_of c [] = None"
| "index_of c (d # s) = (if c = d then Some 0 else map_option Suc (index_of c s))"

definition last_index :: "char \<Rightarrow> string \<Rightarrow> nat option" where
  "last_index c s = map_option (\<lambda>i. length s - 1 - i) (index_of c (rev s))"

datatype addr_error = MissingPort | TooManyColons | MissingBracket | UnexpectedLeft | UnexpectedRight

text \<open>The two checks and the result that end \<open>net.SplitHostPort\<close>.\<close>

definition split_finish ::
  "string \<Rightarrow> string \<Rightarrow> nat \<Rightarrow> nat \<Rightarrow> nat \<Rightarrow> addr_error + (string \<times> string)" where
  "split_finish hp host i j k =
     (if CHR ''['' \<in> set (drop j hp) then Inl UnexpectedLeft
      else if CHR '']'' \<in> set (drop k hp) then Inl UnexpectedRight
      else Inr (host, drop (Suc i) hp))"

definition SplitHostPort :: "string \<Rightarrow> addr_error + (string \<times> string)" where
  "SplitHostPort hp =
     (case last_index CHR '':'' hp of
        None \<Rightarrow> Inl MissingPort
      | Some i \<Rightarrow>
         (if hp ! 0 = CHR ''['' then
            (case index_of CHR '']'' hp of
               None \<Rightarrow> Inl MissingBracket
             | Some e \<Rightarrow>
                (if Suc e = length hp then Inl MissingPort
                 else if Suc e = i then split_finish hp (take (e - 1) (drop 1 hp)) i 1 (Suc e)
                 else if hp ! Suc e = CHR '':'' then Inl TooManyColons
                 else Inl MissingPort))
          else if CHR '':'' \<in> set (take i hp) then Inl TooManyColons
          else split_finish hp (take i hp) i 0 0))"

definition JoinHostPort :: "string \<Rightarrow> string \<Rightarrow> string" where
  "JoinHostPort host port =
     (if CHR '':'' \<in> set host then ''['' @ host @ '']:'' @ port else host @ '':'' @ port)"

lemma index_of_notin: "c \<notin> set xs \<Longrightarrow> index_of c (xs @ c # ys) = Some (length xs)"
  by (induction xs) auto

lemma last_index_notin: "c \<notin> set ys \<Longrightarrow> last_index c (xs @ c # ys) = Some (length xs)"
  by (simp add: last_index_def index_of_notin)

text \<open>Splitting a joined address gives its parts back; hosts with colons travel in brackets.\<close>

lemma SplitHostPort_JoinHostPort:
  assumes "set host \<inter> {CHR ''['', CHR '']''} = {}"
    and "set port \<inter> {CHR '':'', CHR ''['', CHR '']''} = {}"
  shows "SplitHostPort (JoinHostPort host port) = Inr (host, port)"
proof (cases "CHR '':'' \<in> set host")
  case True
  let ?hp = "CHR ''['' # host @ CHR '']'' # CHR '':'' # port"
  have "last_index CHR '':'' ?hp = Some (length host + 2)"
    using last_index_notin [of "CHR '':''" port "CHR ''['' # host @ [CHR '']'']"] assms by simp
  moreover have "index_of CHR '']'' ?hp = Some (Suc (length host))"
    using index_of_notin [of "CHR '']''" "CHR ''['' # host"] assms by simp
  ultimately show ?thesis
    using True assms by (auto simp: JoinHostPort_def SplitHostPort_def split_finish_def)
next
  case False
  let ?hp = "host @ CHR '':'' # port"
  have "last_index CHR '':'' ?hp = Some (length host)"
    using last_index_notin [of "CHR '':''" port host] assms by simp
  moreover have "?hp ! 0 \<noteq> CHR ''[''"
    using assms(1) by (cases host) auto
  ultimately show ?thesis
    using False assms by (auto simp: JoinHostPort_def SplitHostPort_def split_finish_def)
qed

end
