(* ===== verification/Go_Base64.thy ===== *)
theory Go_Base64
  imports Go_Strings
begin

text \<open>
  Go's \<open>base64.StdEncoding\<close>, in which \<open>encoding/json\<close> carries \<open>[]byte\<close> fields: the standard
  alphabet, with padding; the decoder skips line breaks and ignores surplus bits.
\<close>

definition b64_alphabet :: string where
  "b64_alphabet = ''ABCDEFGHIJKLMNOPQRSTUVWXYZabcdefghijklmnopqrstuvwxyz0123456789+/''"

definition b64_char :: "nat \<Rightarrow> char" where
  "b64_char n = b64_alphabet ! n"

definition b64_value :: "char \<Rightarrow> nat option" where
  "b64_value c = index_of c b64_alphabet"

abbreviation b64_pad :: char where
  "b64_pad \<equiv> CHR ''=''"

fun base64_Encode :: "bytes \<Rightarrow> string" where
  "base64_Encode [] = []"
| "base64_Encode [a] =
     (let n = unat a * 65536
      in [b64_char (n div 262144), b64_char (n div 4096 mod 64), b64_pad, b64_pad])"
| "base64_Encode [a, b] =
     (let n = unat a * 65536 + unat b * 256
      in [b64_char (n div 262144), b64_char (n div 4096 mod 64), b64_char (n div 64 mod 64), b64_pad])"
| "base64_Encode (a # b # c # bs) =
     (let n = unat a * 65536 + unat b * 256 + unat c
      in [b64_char (n div 262144), b64_char (n div 4096 mod 64), b64_char (n div 64 mod 64),
          b64_char (n mod 64)] @ base64_Encode bs)"

definition b64_join :: "nat \<Rightarrow> nat \<Rightarrow> nat \<Rightarrow> nat \<Rightarrow> nat" where
  "b64_join w x y z = ((w * 64 + x) * 64 + y) * 64 + z"

fun b64_quanta :: "string \<Rightarrow> bytes option" where
  "b64_quanta [] = Some []"
| "b64_quanta (p # q # r # s # rest) =
     (case (b64_value p, b64_value q) of
        (Some w, Some x) \<Rightarrow>
          (case (b64_value r, b64_value s) of
             (Some y, Some z) \<Rightarrow>
               (let n = b64_join w x y z in
                map_option (\<lambda>bs. of_nat (n div 65536) # of_nat (n div 256 mod 256) # of_nat (n mod 256) # bs)
                  (b64_quanta rest))
           | (Some y, None) \<Rightarrow>
               (if s = b64_pad \<and> rest = []
                then (let n = b64_join w x y 0 in Some [of_nat (n div 65536), of_nat (n div 256 mod 256)])
                else None)
           | (None, _) \<Rightarrow>
               (if r = b64_pad \<and> s = b64_pad \<and> rest = []
                then (let n = b64_join w x 0 0 in Some [of_nat (n div 65536)])
                else None))
      | _ \<Rightarrow> None)"
| "b64_quanta _ = None"

definition base64_Decode :: "string \<Rightarrow> bytes option" where
  "base64_Decode s = b64_quanta (filter (\<lambda>c. c \<noteq> CHR 0x0A \<and> c \<noteq> CHR 0x0D) s)"

section \<open>Round trip\<close>

lemma index_of_nth: "distinct xs \<Longrightarrow> n < length xs \<Longrightarrow> index_of (xs ! n) xs = Some n"
  by (induction xs arbitrary: n) (auto simp: nth_Cons split: nat.splits)

lemma distinct_b64_alphabet: "distinct b64_alphabet"
  by (simp add: b64_alphabet_def)

lemma length_b64_alphabet [simp]: "length b64_alphabet = 64"
  by (simp add: b64_alphabet_def)

lemma b64_value_char: "n < 64 \<Longrightarrow> b64_value (b64_char n) = Some n"
  by (simp add: b64_value_def b64_char_def index_of_nth distinct_b64_alphabet)

lemma b64_value_pad [simp]: "b64_value b64_pad = None"
  by (simp add: b64_value_def b64_alphabet_def)

definition json_plain :: "char \<Rightarrow> bool" where
  "json_plain c \<longleftrightarrow> c \<noteq> CHR 0x22 \<and> c \<noteq> CHR 0x5C \<and> 32 \<le> (of_char c :: nat)"

lemma b64_alphabet_plain: "list_all json_plain b64_alphabet"
  by (simp add: b64_alphabet_def json_plain_def)

lemma b64_char_plain: "n < 64 \<Longrightarrow> json_plain (b64_char n)"
  using b64_alphabet_plain by (simp add: list_all_length b64_char_def)

text \<open>The characters of an encoding need no escaping in JSON.\<close>

lemma base64_Encode_plain: "c \<in> set (base64_Encode bs) \<Longrightarrow> json_plain c"
proof (induction bs rule: base64_Encode.induct)
  case (2 a)
  have "unat a * 65536 div 262144 < 64" using unat_byte_less [of a] by linarith
  with 2 b64_char_plain show ?case by (auto simp: Let_def json_plain_def)
next
  case (3 a b)
  have "(unat a * 65536 + unat b * 256) div 262144 < 64"
    using unat_byte_less [of a] unat_byte_less [of b] by linarith
  with 3 b64_char_plain show ?case by (auto simp: Let_def json_plain_def)
next
  case (4 a b c bs)
  have "(unat a * 65536 + unat b * 256 + unat c) div 262144 < 64"
    using unat_byte_less [of a] unat_byte_less [of b] unat_byte_less [of c] by linarith
  with 4 b64_char_plain show ?case by (auto simp: Let_def)
qed simp

lemma b64_join_split:
  "b64_join (n div 262144) (n div 4096 mod 64) (n div 64 mod 64) (n mod 64) = n"
proof -
  have "n div 262144 = n div 64 div 64 div 64" "n div 4096 = n div 64 div 64"
    by (simp_all flip: div_mult2_eq)
  then show ?thesis by (simp only: b64_join_def div_mult_mod_eq)
qed

lemma byte_split3:
  fixes a b c :: byte
  defines "n \<equiv> unat a * 65536 + unat b * 256 + unat c"
  shows "n div 65536 = unat a" and "n div 256 mod 256 = unat b" and "n mod 256 = unat c"
    and "n div 262144 < 64"
proof -
  note bounds = unat_byte_less [of a] unat_byte_less [of b] unat_byte_less [of c]
  then have "unat b * 256 + unat c < 65536" by linarith
  then show "n div 65536 = unat a" by (simp add: n_def add.assoc)
  have "n = unat c + (unat a * 256 + unat b) * 256" by (simp add: n_def)
  moreover have "(x + k * 256) div 256 = k" "(x + k * 256) mod 256 = x" if "x < 256" for x k :: nat
    using that by simp_all
  ultimately have "n div 256 = unat a * 256 + unat b" "n mod 256 = unat c" using bounds(3) by metis+
  then show "n div 256 mod 256 = unat b" "n mod 256 = unat c" using bounds by simp_all
  show "n div 262144 < 64" using bounds unfolding n_def by linarith
qed

lemma multiples_64:
  fixes a b :: nat
  shows "a * 65536 div 64 mod 64 = 0" and "(a * 65536 + b * 256) mod 64 = 0" and "a * 65536 mod 64 = 0"
proof -
  have "a * 65536 = a * 1024 * 64" "a * 65536 + b * 256 = (a * 1024 + b * 4) * 64" by simp_all
  then show "a * 65536 mod 64 = 0" "(a * 65536 + b * 256) mod 64 = 0"
    by (simp_all only: mod_mult_self2_is_0)
  have "a * 65536 div 64 = a * 16 * 64" by simp
  then show "a * 65536 div 64 mod 64 = 0" by (simp only: mod_mult_self2_is_0)
qed

lemma b64_quanta_encode: "b64_quanta (base64_Encode bs) = Some bs"
proof (induction bs rule: base64_Encode.induct)
  case (2 a)
  let ?n = "unat a * 65536"
  have "b64_join (?n div 262144) (?n div 4096 mod 64) 0 0 = ?n"
    using b64_join_split [of ?n] by (simp only: multiples_64)
  with byte_split3 [of a 0 0] show ?case by (simp add: Let_def b64_value_char)
next
  case (3 a b)
  let ?n = "unat a * 65536 + unat b * 256"
  have "b64_join (?n div 262144) (?n div 4096 mod 64) (?n div 64 mod 64) 0 = ?n"
    using b64_join_split [of ?n] by (simp only: multiples_64)
  with byte_split3 [of a b 0] show ?case by (simp add: Let_def b64_value_char)
next
  case (4 a b c bs)
  with byte_split3 [of a b c] show ?case
    by (simp add: Let_def b64_value_char b64_join_split)
qed simp

lemma base64_decode_encode [codec_simps]: "base64_Decode (base64_Encode bs) = Some bs"
proof -
  have "filter (\<lambda>c. c \<noteq> CHR 0x0A \<and> c \<noteq> CHR 0x0D) (base64_Encode bs) = base64_Encode bs"
    by (rule filter_True) (auto dest!: base64_Encode_plain simp: json_plain_def)
  then show ?thesis by (simp add: base64_Decode_def b64_quanta_encode)
qed

end
