(* ===== verification/Go_Json.thy ===== *)
theory Go_Json
  imports Go_Base64
begin

text \<open>
  The part of Go's \<open>encoding/json\<close> behind \<open>json.Marshal\<close> and \<open>json.Unmarshal\<close>: the JSON
  grammar with Go's nesting limit, and the decoding of the two kinds of field the sources
  have, \<open>int64\<close> and \<open>[]byte\<close>.
\<close>

section \<open>Grammar\<close>

datatype json =
    JNull
  | JBool bool
  | JNumber string
  | JString string
  | JArray "json list"
  | JObject "(string \<times> json) list"

definition is_json_space :: "char \<Rightarrow> bool" where
  "is_json_space c \<longleftrightarrow> c = CHR '' '' \<or> c = CHR 0x09 \<or> c = CHR 0x0A \<or> c = CHR 0x0D"

abbreviation skip_space :: "string \<Rightarrow> string" where
  "skip_space \<equiv> dropWhile is_json_space"

text \<open>Four hexadecimal digits, and the UTF-8 encoding of a code point.\<close>

fun hex4 :: "string \<Rightarrow> (nat \<times> string) option" where
  "hex4 (a # b # c # d # s) =
     (let v = (\<lambda>x. index_of x ''0123456789abcdef''); u = (\<lambda>x. index_of x ''0123456789ABCDEF'');
          h = (\<lambda>x. case v x of Some n \<Rightarrow> Some n | None \<Rightarrow> u x)
      in case (h a, h b, h c, h d) of
           (Some i, Some j, Some k, Some l) \<Rightarrow> Some (4096 * i + 256 * j + 16 * k + l, s)
         | _ \<Rightarrow> None)"
| "hex4 _ = None"

definition utf8_rune :: "nat \<Rightarrow> string" where
  "utf8_rune n =
     map char_of
       (if n < 128 then [n]
        else if n < 2048 then [192 + n div 64, 128 + n mod 64]
        else if n < 65536 then [224 + n div 4096, 128 + n div 64 mod 64, 128 + n mod 64]
        else [240 + n div 262144, 128 + n div 4096 mod 64, 128 + n div 64 mod 64, 128 + n mod 64])"

definition is_surrogate :: "nat \<Rightarrow> bool" where
  "is_surrogate n \<longleftrightarrow> 0xD800 \<le> n \<and> n < 0xE000"

text \<open>
  A \<open>\u\<close> escape: a surrogate pair is one character, a lone surrogate becomes U+FFFD.
\<close>

definition unescape_u :: "string \<Rightarrow> (string \<times> string) option" where
  "unescape_u s =
     (case hex4 s of
        None \<Rightarrow> None
      | Some (n, rest) \<Rightarrow>
         (if \<not> is_surrogate n then Some (utf8_rune n, rest)
          else (case rest of
                  b # e # rest' \<Rightarrow>
                    (case (if b = CHR 0x5C \<and> e = CHR ''u'' then hex4 rest' else None) of
                       Some (m, rest'') \<Rightarrow>
                         (if n < 0xDC00 \<and> 0xDC00 \<le> m \<and> m < 0xE000
                          then Some (utf8_rune (0x10000 + (n - 0xD800) * 1024 + (m - 0xDC00)), rest'')
                          else Some (utf8_rune 0xFFFD, rest))
                     | None \<Rightarrow> Some (utf8_rune 0xFFFD, rest))
                | _ \<Rightarrow> Some (utf8_rune 0xFFFD, rest))))"

definition simple_escape :: "char \<Rightarrow> char option" where
  "simple_escape c =
     map_of [(CHR 0x22, CHR 0x22), (CHR 0x5C, CHR 0x5C), (CHR ''/'', CHR ''/''), (CHR ''b'', CHR 0x08),
             (CHR ''f'', CHR 0x0C), (CHR ''n'', CHR 0x0A), (CHR ''r'', CHR 0x0D), (CHR ''t'', CHR 0x09)] c"

lemma hex4_shorter: "hex4 s = Some (n, r) \<Longrightarrow> length r < length s"
  by (cases s rule: hex4.cases) (auto simp: Let_def split: option.splits prod.splits)

lemma unescape_u_shorter: "unescape_u s = Some (u, r) \<Longrightarrow> length r < length s"
  by (auto simp: unescape_u_def split: option.splits list.splits if_splits dest!: hex4_shorter)

text \<open>The rest of a string literal after its opening quote.\<close>

function parse_string :: "string \<Rightarrow> (string \<times> string) option" where
  "parse_string [] = None"
| "parse_string (c # s) =
     (if c = CHR 0x22 then Some ([], s)
      else if c = CHR 0x5C then
        (case s of
           [] \<Rightarrow> None
         | e # s' \<Rightarrow>
            (if e = CHR ''u'' then
               (case unescape_u s' of
                  None \<Rightarrow> None
                | Some (u, r) \<Rightarrow> map_option (\<lambda>(t, r'). (u @ t, r')) (parse_string r))
             else (case simple_escape e of
                     None \<Rightarrow> None
                   | Some x \<Rightarrow> map_option (\<lambda>(t, r'). (x # t, r')) (parse_string s'))))
      else if (of_char c :: nat) < 32 then None
      else map_option (\<lambda>(t, r). (c # t, r)) (parse_string s))"
  by pat_completeness auto
termination
  by (relation "measure length") (auto dest!: unescape_u_shorter)

text \<open>A number literal: sign, integer part without leading zeros, fraction, exponent.\<close>

definition span_digits :: "string \<Rightarrow> string \<times> string" where
  "span_digits s = (takeWhile is_digit_char s, dropWhile is_digit_char s)"

definition int_part :: "string \<Rightarrow> (string \<times> string) option" where
  "int_part s =
     (case s of
        [] \<Rightarrow> None
      | c # r \<Rightarrow> (if c = CHR ''0'' then Some ([c], r)
                  else if is_digit_char c then Some (span_digits s) else None))"

definition frac_part :: "string \<Rightarrow> (string \<times> string) option" where
  "frac_part s =
     (case s of
        c # r \<Rightarrow> (if c = CHR ''.'' then
                    (let (d, r') = span_digits r in if d = [] then None else Some (c # d, r'))
                  else Some ([], s))
      | [] \<Rightarrow> Some ([], []))"

definition exp_part :: "string \<Rightarrow> (string \<times> string) option" where
  "exp_part s =
     (case s of
        c # r \<Rightarrow> (if c = CHR ''e'' \<or> c = CHR ''E'' then
                    (let sg = (case r of x # _ \<Rightarrow> if x = CHR ''+'' \<or> x = CHR ''-'' then [x] else [] | [] \<Rightarrow> []);
                         (d, r') = span_digits (drop (length sg) r)
                     in if d = [] then None else Some (c # sg @ d, r'))
                  else Some ([], s))
      | [] \<Rightarrow> Some ([], []))"

definition parse_number :: "string \<Rightarrow> (string \<times> string) option" where
  "parse_number s =
     (let sg = (case s of x # _ \<Rightarrow> if x = CHR ''-'' then [x] else [] | [] \<Rightarrow> [])
      in case int_part (drop (length sg) s) of
           None \<Rightarrow> None
         | Some (i, r1) \<Rightarrow>
            (case frac_part r1 of
               None \<Rightarrow> None
             | Some (f, r2) \<Rightarrow>
                (case exp_part r2 of
                   None \<Rightarrow> None
                 | Some (e, r3) \<Rightarrow> Some (sg @ i @ f @ e, r3))))"

definition parse_literal :: "string \<Rightarrow> json \<Rightarrow> string \<Rightarrow> (json \<times> string) option" where
  "parse_literal word v s = (if starts_with s word then Some (v, drop (length word) s) else None)"

lemma skip_space_Cons_shorter: "skip_space s = c # r \<Longrightarrow> length r < length s"
  using length_dropWhile_le [of is_json_space s] by simp

text \<open>
  Values, array elements and object members.  \<open>d\<close> is the nesting still allowed.  The tests
  \<open>length r' < length s\<close> always hold, since every parser consumes input
  (\<open>parse_value_shorter\<close>); they are what makes termination evident.
\<close>

function parse_value :: "nat \<Rightarrow> string \<Rightarrow> (json \<times> string) option"
  and parse_elems :: "nat \<Rightarrow> string \<Rightarrow> (json list \<times> string) option"
  and parse_members :: "nat \<Rightarrow> string \<Rightarrow> ((string \<times> json) list \<times> string) option" where
  "parse_value d s =
     (case skip_space s of
        [] \<Rightarrow> None
      | c # r \<Rightarrow>
         (if c = CHR ''{'' then
            (if d = 0 then None
             else if take 1 (skip_space r) = ''}'' then Some (JObject [], drop 1 (skip_space r))
             else map_option (\<lambda>(ms, r'). (JObject ms, r')) (parse_members (d - 1) r))
          else if c = CHR ''['' then
            (if d = 0 then None
             else if take 1 (skip_space r) = '']'' then Some (JArray [], drop 1 (skip_space r))
             else map_option (\<lambda>(es, r'). (JArray es, r')) (parse_elems (d - 1) r))
          else if c = CHR 0x22 then map_option (\<lambda>(t, r'). (JString t, r')) (parse_string r)
          else if c = CHR ''t'' then parse_literal ''true'' (JBool True) (c # r)
          else if c = CHR ''f'' then parse_literal ''false'' (JBool False) (c # r)
          else if c = CHR ''n'' then parse_literal ''null'' JNull (c # r)
          else map_option (\<lambda>(n, r'). (JNumber n, r')) (parse_number (c # r))))"
| "parse_elems d s =
     (case parse_value d s of
        None \<Rightarrow> None
      | Some (v, r) \<Rightarrow>
         (case skip_space r of
            [] \<Rightarrow> None
          | c # r' \<Rightarrow>
             (if c = CHR '']'' then Some ([v], r')
              else if c = CHR '','' \<and> length r' < length s
              then map_option (\<lambda>(vs, r''). (v # vs, r'')) (parse_elems d r')
              else None)))"
| "parse_members d s =
     (case skip_space s of
        [] \<Rightarrow> None
      | q # s1 \<Rightarrow>
         (if q \<noteq> CHR 0x22 then None
          else (case parse_string s1 of
             None \<Rightarrow> None
           | Some (k, s2) \<Rightarrow>
              (case skip_space s2 of
                 [] \<Rightarrow> None
               | c # s3 \<Rightarrow>
                  (if c \<noteq> CHR '':'' \<or> \<not> length s3 < length s then None
                   else (case parse_value d s3 of
                      None \<Rightarrow> None
                    | Some (v, s4) \<Rightarrow>
                       (case skip_space s4 of
                          [] \<Rightarrow> None
                        | e # s5 \<Rightarrow>
                           (if e = CHR ''}'' then Some ([(k, v)], s5)
                            else if e = CHR '','' \<and> length s5 < length s
                            then map_option (\<lambda>(ms, r). ((k, v) # ms, r)) (parse_members d s5)
                            else None)))))))) "
  by pat_completeness auto

termination
  by (relation "measure (\<lambda>x. case x of Inl (d, s) \<Rightarrow> 2 * length s
        | Inr (Inl (d, s)) \<Rightarrow> Suc (2 * length s) | Inr (Inr (d, s)) \<Rightarrow> Suc (2 * length s))")
    (auto dest!: skip_space_Cons_shorter)

declare parse_value.simps [simp del] parse_elems.simps [simp del] parse_members.simps [simp del]

lemma parse_string_shorter: "parse_string s = Some (t, r) \<Longrightarrow> length r < length s"
proof (induction s arbitrary: t r rule: measure_induct_rule [of length])
  case (less s)
  from less.prems show ?case
    by (cases s)
      (auto split: if_splits list.splits option.splits dest!: unescape_u_shorter less.IH [rotated])
qed

lemma parse_number_shorter: "parse_number s = Some (t, r) \<Longrightarrow> length r < length s"
proof -
  have span: "length (snd (span_digits x)) \<le> length x" for x
    by (simp add: span_digits_def length_dropWhile_le)
  have i: "length r1 < length x" if "int_part x = Some (y, r1)" for x y r1
    using that span [of "tl x"]
    by (auto simp: int_part_def span_digits_def le_imp_less_Suc length_dropWhile_le
        split: list.splits if_splits)
  have f: "length r1 \<le> length x" if "frac_part x = Some (y, r1)" for x y r1
    using that by (auto simp: frac_part_def span_digits_def le_SucI length_dropWhile_le
        split: list.splits if_splits)
  have e: "length r1 \<le> length x" if "exp_part x = Some (y, r1)" for x y r1
    using that span [of "drop 1 (tl x)"] span [of "tl x"]
    by (auto simp: exp_part_def span_digits_def Let_def split: list.splits if_splits)
  assume "parse_number s = Some (t, r)"
  then show ?thesis
    by (auto simp: parse_number_def Let_def split: list.splits if_splits option.splits
        dest!: i f e)
qed

lemma parse_value_shorter:
  "(parse_value d s = Some (v, r) \<longrightarrow> 2 * length s < n \<longrightarrow> length r < length s) \<and>
   (parse_elems d s = Some (vs, r) \<longrightarrow> Suc (2 * length s) < n \<longrightarrow> length r < length s) \<and>
   (parse_members d s = Some (ms, r) \<longrightarrow> Suc (2 * length s) < n \<longrightarrow> length r < length s)"
proof (induction n arbitrary: d s v vs ms r)
  case 0
  then show ?case by simp
next
  case (Suc n)
  have V: "parse_value d s = Some (v, r) \<Longrightarrow> 2 * length s < n \<Longrightarrow> length r < length s"
    and E: "parse_elems d s = Some (vs, r) \<Longrightarrow> Suc (2 * length s) < n \<Longrightarrow> length r < length s"
    and M: "parse_members d s = Some (ms, r) \<Longrightarrow> Suc (2 * length s) < n \<Longrightarrow> length r < length s"
    for d s v vs ms r using Suc.IH by blast+
  have drop1: "length (drop 1 (skip_space x)) \<le> length x" for x
    using length_dropWhile_le [of is_json_space x] by simp
  note shorter = skip_space_Cons_shorter parse_string_shorter parse_number_shorter
  have "length r < length s" if "parse_value d s = Some (v, r)" "2 * length s < Suc n"
    using that
    by (subst (asm) parse_value.simps)
      (auto simp: parse_literal_def starts_with_def dest!: shorter E M
        intro: le_less_trans [OF drop1, simplified] split: list.splits if_splits)
  moreover have "length r < length s" if "parse_elems d s = Some (vs, r)" "Suc (2 * length s) < Suc n"
    using that
    by (subst (asm) parse_elems.simps)
      (auto dest!: shorter V E split: list.splits if_splits option.splits)
  moreover have "length r < length s" if "parse_members d s = Some (ms, r)" "Suc (2 * length s) < Suc n"
    using that
    by (subst (asm) parse_members.simps)
      (auto dest!: shorter V M split: list.splits if_splits option.splits)
  ultimately show ?case by blast
qed

text \<open>\<open>json.Unmarshal\<close>, up to the decoded tree: one value, then white space only.\<close>

definition json_tree :: "string \<Rightarrow> json option" where
  "json_tree s =
     (case parse_value 10000 s of
        Some (v, r) \<Rightarrow> if skip_space r = [] then Some v else None
      | None \<Rightarrow> None)"

section \<open>Fields\<close>

text \<open>
  Keys match a field name up to case; the fold sets of \<open>s\<close> and \<open>k\<close> contain one more
  character each (U+017F and U+212A).
\<close>

definition fold_char :: "char \<Rightarrow> char" where
  "fold_char c = (let n = (of_char c :: nat) in if 65 \<le> n \<and> n \<le> 90 then char_of (n + 32) else c)"

fun fold_key :: "string \<Rightarrow> string" where
  "fold_key [] = []"
| "fold_key (c # s) =
     (if starts_with (c # s) (utf8_rune 0x17F) then CHR ''s'' # fold_key (drop 1 s)
      else if starts_with (c # s) (utf8_rune 0x212A) then CHR ''k'' # fold_key (drop 2 s)
      else fold_char c # fold_key s)"

definition key_matches :: "string \<Rightarrow> string \<Rightarrow> bool" where
  "key_matches name k \<longleftrightarrow> fold_key k = fold_key name"

text \<open>Decoding into a field with a current value; \<open>None\<close> is an \<open>UnmarshalTypeError\<close>.\<close>

fun decode_int64 :: "json \<Rightarrow> i64 \<Rightarrow> i64 option" where
  "decode_int64 JNull old = Some old"
| "decode_int64 (JNumber n) old =
     (case ParseInt64 n of Inr i \<Rightarrow> Some (word_of_int i) | Inl _ \<Rightarrow> None)"
| "decode_int64 _ old = None"

fun decode_uint8 :: "json \<Rightarrow> byte option" where
  "decode_uint8 JNull = Some 0"
| "decode_uint8 (JNumber n) =
     (case read_digits n 0 of
        Some v \<Rightarrow> if v < 256 then Some (of_nat v) else None
      | None \<Rightarrow> None)"
| "decode_uint8 _ = None"

fun decode_all :: "json list \<Rightarrow> bytes option" where
  "decode_all [] = Some []"
| "decode_all (v # vs) =
     (case (decode_uint8 v, decode_all vs) of (Some b, Some bs) \<Rightarrow> Some (b # bs) | _ \<Rightarrow> None)"

fun decode_bytes :: "json \<Rightarrow> bytes option" where
  "decode_bytes JNull = Some []"
| "decode_bytes (JString s) = base64_Decode s"
| "decode_bytes (JArray vs) = decode_all vs"
| "decode_bytes _ = None"

section \<open>Reading back what \<open>json.Marshal\<close> writes\<close>

lemma parse_string_plain:
  "list_all json_plain t \<Longrightarrow> parse_string (t @ CHR 0x22 # r) = Some (t, r)"
  by (induction t) (auto simp: json_plain_def)

lemma span_digits_show_nat:
  "\<not> is_digit_char c \<Longrightarrow> span_digits (show_nat n @ c # r) = (show_nat n, c # r)"
  using show_nat_digits [of _ n]
  by (simp add: span_digits_def takeWhile_append2 dropWhile_append2)

lemma show_nat_no_leading_zero: "show_nat n = CHR ''0'' # cs \<Longrightarrow> cs = []"
proof (induction n arbitrary: cs rule: show_nat.induct)
  case (1 n)
  show ?case
  proof (cases "n < 10")
    case True
    with "1.prems" show ?thesis by (subst (asm) show_nat.simps) simp
  next
    case False
    obtain e es where e: "show_nat (n div 10) = e # es" by (metis neq_Nil_conv show_nat_nonempty)
    with "1.prems" False have "e = CHR ''0''" by (subst (asm) show_nat.simps) simp
    with 1(1) False e have "show_nat (n div 10) = ''0''" by auto
    then have "n div 10 = 0" by (metis digit_char_def nth_Cons_0 read_show_nat show_nat.simps zero_less_numeral)
    with False show ?thesis by simp
  qed
qed

lemma int_part_show_nat:
  assumes "\<not> is_digit_char c"
  shows "int_part (show_nat n @ c # r) = Some (show_nat n, c # r)"
proof -
  obtain e es where e: "show_nat n = e # es" "is_digit_char e" by (rule show_nat_head)
  with show_nat_no_leading_zero [of n es] span_digits_show_nat [OF assms, of n r] show ?thesis
    by (auto simp: int_part_def)
qed

lemma parse_number_show_int:
  assumes "c = CHR '','' \<or> c = CHR ''}''"
  shows "parse_number (show_int i @ c # r) = Some (show_int i, c # r)"
proof -
  have c: "\<not> is_digit_char c" using assms by (auto simp: is_digit_char_def)
  have tails: "frac_part (c # r) = Some ([], c # r)" "exp_part (c # r) = Some ([], c # r)"
    using assms by (auto simp: frac_part_def exp_part_def)
  show ?thesis
  proof (cases "i < 0")
    case True
    with int_part_show_nat [OF c, of "nat (- i)" r] tails show ?thesis
      by (simp add: parse_number_def show_int_def)
  next
    case False
    obtain e es where "show_nat (nat i) = e # es" "is_digit_char e" by (rule show_nat_head)
    moreover from this have "e \<noteq> CHR ''-''" by (auto simp: is_digit_char_def)
    ultimately show ?thesis
      using False int_part_show_nat [OF c, of "nat i" r] tails
      by (simp add: parse_number_def show_int_def)
  qed
qed

end
