(* ===== verification/Raft_Proposal.thy ===== *)
theory Raft_Proposal
  imports Transactions Go_Json
begin

text \<open>
  \<open>pkg/sequencing/raft_log.go\<close>: the replicated value (\<open>raftProposal\<close>), its JSON form and what
  the FSM reconstructs from a committed log entry.
\<close>

record raftProposal =
  SubmittedAtUnixNano :: i64
  ProposalCiphertext :: bytes

definition json_quote :: "string \<Rightarrow> string" where
  "json_quote s = CHR 0x22 # s @ [CHR 0x22]"

text \<open>\<open>json.Marshal(raftProposal{...})\<close>, with the field names of the struct tags.\<close>

definition marshal_proposal :: "raftProposal \<Rightarrow> string" where
  "marshal_proposal p =
     ''{'' @ json_quote ''submitted_at_unix_nano'' @ '':'' @ show_int (sint (SubmittedAtUnixNano p)) @
     '','' @ json_quote ''ciphertext'' @ '':'' @ json_quote (base64_Encode (ProposalCiphertext p)) @ ''}''"

text \<open>\<open>json.Unmarshal(data, &proposal)\<close>; \<open>None\<close> is an error.\<close>

definition zero_proposal :: raftProposal where
  "zero_proposal = \<lparr>SubmittedAtUnixNano = 0, ProposalCiphertext = []\<rparr>"

definition decode_member :: "string \<times> json \<Rightarrow> raftProposal \<Rightarrow> raftProposal option" where
  "decode_member kv p =
     (if key_matches ''submitted_at_unix_nano'' (fst kv)
      then map_option (\<lambda>n. p\<lparr>SubmittedAtUnixNano := n\<rparr>) (decode_int64 (snd kv) (SubmittedAtUnixNano p))
      else if key_matches ''ciphertext'' (fst kv)
      then map_option (\<lambda>b. p\<lparr>ProposalCiphertext := b\<rparr>) (decode_bytes (snd kv))
      else Some p)"

fun decode_members :: "(string \<times> json) list \<Rightarrow> raftProposal \<Rightarrow> raftProposal option" where
  "decode_members [] p = Some p"
| "decode_members (kv # ms) p =
     (case decode_member kv p of None \<Rightarrow> None | Some p' \<Rightarrow> decode_members ms p')"

definition unmarshal_proposal :: "string \<Rightarrow> raftProposal option" where
  "unmarshal_proposal s =
     (case json_tree s of
        Some JNull \<Rightarrow> Some zero_proposal
      | Some (JObject ms) \<Rightarrow> decode_members ms zero_proposal
      | _ \<Rightarrow> None)"

text \<open>The transaction \<open>raftFSM.Apply\<close> builds from the entry at \<open>index\<close>.\<close>

definition fsm_tx :: "u64 \<Rightarrow> string \<Rightarrow> EncryptedTransaction option" where
  "fsm_tx index data =
     map_option (\<lambda>p. \<lparr>ID = index, Ciphertext = ProposalCiphertext p,
                      ArrivedAt = time_Unix0 (SubmittedAtUnixNano p)\<rparr>)
       (unmarshal_proposal data)"

section \<open>Round trip\<close>

lemma skip_space_nonspace: "\<not> is_json_space c \<Longrightarrow> skip_space (c # s) = c # s"
  by simp

lemma parse_value_string:
  "list_all json_plain t \<Longrightarrow> parse_value d (CHR 0x22 # t @ CHR 0x22 # r) = Some (JString t, r)"
  by (subst parse_value.simps) (simp add: is_json_space_def parse_string_plain)

lemma parse_value_show_int:
  assumes "c = CHR '','' \<or> c = CHR ''}''"
  shows "parse_value d (show_int i @ c # r) = Some (JNumber (show_int i), c # r)"
proof -
  obtain e es where e: "show_int i = e # es" "is_digit_char e \<or> e = CHR ''-''"
    by (metis list.set_intros(1) neq_Nil_conv show_int_chars show_int_def show_nat_nonempty list.discI)
  then have "\<not> is_json_space e" "e \<notin> set ''{[tfn'' \<union> {CHR 0x22}"
    by (auto simp: is_digit_char_def is_json_space_def)
  with parse_number_show_int [OF assms, of i r] e show ?thesis
    by (subst parse_value.simps) simp
qed

lemma parse_members_last:
  assumes "list_all json_plain k" and "parse_value d s = Some (v, CHR ''}'' # r)"
  shows "parse_members d (CHR 0x22 # k @ CHR 0x22 # CHR '':'' # s) = Some ([(k, v)], r)"
  using assms by (subst parse_members.simps) (simp add: is_json_space_def parse_string_plain)

lemma parse_members_more:
  assumes "list_all json_plain k" and "parse_value d s = Some (v, CHR '','' # r)"
    and "length r < length s" and "parse_members d r = Some (ms, r')"
  shows "parse_members d (CHR 0x22 # k @ CHR 0x22 # CHR '':'' # s) = Some ((k, v) # ms, r')"
  using assms by (subst parse_members.simps) (simp add: is_json_space_def parse_string_plain)

lemma json_tree_marshal:
  "json_tree (marshal_proposal p) =
     Some (JObject [(''submitted_at_unix_nano'', JNumber (show_int (sint (SubmittedAtUnixNano p)))),
                    (''ciphertext'', JString (base64_Encode (ProposalCiphertext p)))])"
proof -
  let ?n = "show_int (sint (SubmittedAtUnixNano p))" and ?b = "base64_Encode (ProposalCiphertext p)"
  let ?ct = "CHR 0x22 # ''ciphertext'' @ CHR 0x22 # CHR '':'' # CHR 0x22 # ?b @ CHR 0x22 # ''}''"
  have plain: "list_all json_plain ?b" by (simp add: list_all_iff base64_Encode_plain)
  have plain_keys: "list_all json_plain ''ciphertext''" "list_all json_plain ''submitted_at_unix_nano''"
    by (simp_all add: json_plain_def)
  have ct: "parse_members 9999 ?ct = Some ([(''ciphertext'', JString ?b)], [])"
    by (rule parse_members_last [OF plain_keys(1) parse_value_string [OF plain]])
  have "parse_members 9999 (CHR 0x22 # ''submitted_at_unix_nano'' @ CHR 0x22 # CHR '':'' #
      (?n @ CHR '','' # ?ct)) =
    Some ([(''submitted_at_unix_nano'', JNumber ?n), (''ciphertext'', JString ?b)], [])"
    by (rule parse_members_more [OF plain_keys(2) parse_value_show_int _ ct]) simp_all
  then show ?thesis
    unfolding json_tree_def
    by (subst parse_value.simps) (simp add: marshal_proposal_def json_quote_def is_json_space_def)
qed

lemma key_matches_self [simp]: "key_matches k k"
  by (simp add: key_matches_def)

lemma fold_key_ascii:
  "(of_char c :: nat) < 128 \<Longrightarrow> fold_key (c # s) = fold_char c # fold_key s"
  by (auto simp: starts_with_def utf8_rune_def)

lemma key_matches_ciphertext [simp]: "\<not> key_matches ''submitted_at_unix_nano'' ''ciphertext''"
proof -
  have "fold_char CHR ''s'' \<noteq> fold_char CHR ''c''" by (simp add: fold_char_def)
  then show ?thesis
    using fold_key_ascii [of "CHR ''s''" "''ubmitted_at_unix_nano''"]
      fold_key_ascii [of "CHR ''c''" "''iphertext''"]
    by (simp add: key_matches_def del: fold_key.simps)
qed

lemma ParseInt64_sint: "ParseInt64 (show_int (sint (n :: i64))) = Inr (sint n)"
  using sint_ge [of n] sint_lt [of n] by (intro ParseInt64_show_int) simp_all

text \<open>
  C24: the FSM of every replica recovers exactly the proposal its leader marshalled, submission
  time and ciphertext included, for every value of both.
\<close>

theorem proposal_roundtrip: "unmarshal_proposal (marshal_proposal p) = Some p"
  by (simp add: unmarshal_proposal_def json_tree_marshal decode_member_def ParseInt64_sint
      base64_decode_encode zero_proposal_def)

lemma fsm_tx_marshal [simp]:
  "fsm_tx i (marshal_proposal \<lparr>SubmittedAtUnixNano = n, ProposalCiphertext = b\<rparr>) =
     Some \<lparr>ID = i, Ciphertext = b, ArrivedAt = time_Unix0 n\<rparr>"
  by (simp add: fsm_tx_def unmarshal_proposal_def json_tree_marshal decode_member_def ParseInt64_sint
      base64_decode_encode zero_proposal_def)

lemma fsm_tx_ID: "fsm_tx i data = Some tx \<Longrightarrow> ID tx = i"
  by (auto simp: fsm_tx_def)

end
