(* ===== verification/Raft_Log.thy ===== *)
theory Raft_Log
  imports Ordered_Log Raft_Proposal "HOL-Library.Sublist"
begin

text \<open>
  \<open>pkg/sequencing/raft_log.go\<close>: one node of the replicated backend.  The Raft library
  (hashicorp/raft) is the environment: it decides which entries are committed at which
  indices, calls the FSM, and resolves or fails the futures of \<open>raft.Apply\<close>.  What the code
  relies on of it is the named hypothesis \<open>raft_contract\<close>.  Everything else, the three
  operations of the backend and the FSM, is translated branch by branch.
\<close>

section \<open>State\<close>

text \<open>What \<open>raftFSM.Apply\<close> returns to the library.\<close>

datatype fsm_response = RespTx EncryptedTransaction | RespErr

text \<open>The FSM goroutine: between entries, or blocked in the select of \<open>Apply\<close>.\<close>

datatype fsm_pc = FsmIdle | FsmSending nat EncryptedTransaction

text \<open>
  A call of \<open>SubmitWithReceipt\<close>: before the deadline test, blocked on the future, with the
  future resolved, returned.
\<close>

datatype raft_sub_pc =
    RaftMarshalled nat string
  | RaftProposed
  | RaftAnswered fsm_response
  | RaftReturned

record raft_drain =
  rd_batch :: "EncryptedTransaction list"
  rd_size :: int
  rd_ctx :: nat

record RaftOrderedLog =
  commit_buffer :: nat
  committed_ch :: "EncryptedTransaction list"
  r_done :: bool
  node_shutdown :: bool
  transport_closed :: bool

text \<open>
  \<open>proposed\<close> remembers the bytes handed to \<open>raft.Apply\<close> by each call, \<open>applied\<close> the calls
  whose entry the library has applied here, \<open>lib_index\<close> and \<open>fsm_index\<close> the index of the entry
  last given to the FSM and last finished by it.
\<close>

record raft_world = RaftOrderedLog +
  fsm :: fsm_pc
  r_submits :: "nat \<Rightarrow> raft_sub_pc option"
  r_drains :: "nat \<Rightarrow> raft_drain option"
  r_ctx_err :: "nat \<Rightarrow> ctx_error option"
  deadline :: "nat \<Rightarrow> time option"
  proposed :: "nat \<Rightarrow> string option"
  applied :: "nat \<Rightarrow> bool"
  lib_index :: u64
  fsm_index :: u64

text \<open>\<open>CommitBuffer\<close> falls back to 1024 when it is not positive.\<close>

definition effective_commit_buffer :: "int \<Rightarrow> nat" where
  "effective_commit_buffer n = nat (if n \<le> 0 then 1024 else n)"

definition raft_init :: "int \<Rightarrow> (nat \<Rightarrow> time option) \<Rightarrow> raft_world" where
  "raft_init buf dl = \<lparr>commit_buffer = effective_commit_buffer buf, committed_ch = [], r_done = False,
     node_shutdown = False, transport_closed = False, fsm = FsmIdle, r_submits = (\<lambda>_. None),
     r_drains = (\<lambda>_. None), r_ctx_err = (\<lambda>_. None), deadline = dl, proposed = (\<lambda>_. None),
     applied = (\<lambda>_. False), lib_index = 0, fsm_index = 0\<rparr>"

section \<open>Submitting\<close>

datatype raft_submit_action =
    RaftCallSubmit nat nat bytes time
  | RaftPropose nat time
  | RaftFutureFails nat string
  | RaftTakeResponse nat

definition raft_return ::
  "nat \<Rightarrow> log_error + EncryptedTransaction \<Rightarrow> raft_world \<Rightarrow> raft_world \<times> log_event list" where
  "raft_return r res w = (w\<lparr>r_submits := (r_submits w)(r \<mapsto> RaftReturned)\<rparr>, [SubmitReturned r res])"

text \<open>
  \<open>ctx.Err()\<close> is \<open>nil\<close> until the context's own timer has fired, even after the deadline; the
  early return then carries no error.
\<close>

definition ctx_return :: "ctx_error option \<Rightarrow> log_error + EncryptedTransaction" where
  "ctx_return e = (case e of Some x \<Rightarrow> Inl (ErrCtx x) | None \<Rightarrow> Inr zero_tx)"

fun RaftSubmit_step ::
  "raft_submit_action \<Rightarrow> raft_world \<Rightarrow> (raft_world \<times> log_event list) option" where
  "RaftSubmit_step (RaftCallSubmit r x ciphertext now) w =
     (if r_submits w r \<noteq> None \<or> applied w r then None
      else (case r_ctx_err w x of
              Some e \<Rightarrow> Some (w\<lparr>r_submits := (r_submits w)(r \<mapsto> RaftReturned)\<rparr>,
                             [SubmitCalled r ciphertext, SubmitReturned r (Inl (ErrCtx e))])
            | None \<Rightarrow>
               (let p = marshal_proposal \<lparr>SubmittedAtUnixNano = UnixNano now, ProposalCiphertext = ciphertext\<rparr>
                in Some (w\<lparr>r_submits := (r_submits w)(r \<mapsto> RaftMarshalled x p)\<rparr>, [SubmitCalled r ciphertext]))))"
| "RaftSubmit_step (RaftPropose r now) w =
     (case r_submits w r of
        Some (RaftMarshalled x p) \<Rightarrow>
          (if (case deadline w x of Some t \<Rightarrow> t - now \<le> 0 | None \<Rightarrow> False)
           then Some (raft_return r (ctx_return (r_ctx_err w x)) w)
           else Some (w\<lparr>r_submits := (r_submits w)(r \<mapsto> RaftProposed), proposed := (proposed w)(r \<mapsto> p)\<rparr>, []))
      | _ \<Rightarrow> None)"
| "RaftSubmit_step (RaftFutureFails r e) w =
     (case r_submits w r of
        Some RaftProposed \<Rightarrow> Some (raft_return r (Inl (ErrRaft (''raft apply failed: '' @ e))) w)
      | _ \<Rightarrow> None)"
| "RaftSubmit_step (RaftTakeResponse r) w =
     (case r_submits w r of
        Some (RaftAnswered (RespTx tx)) \<Rightarrow> Some (raft_return r (Inr tx) w)
      | Some (RaftAnswered RespErr) \<Rightarrow>
          Some (raft_return r (Inl (ErrRaft ''raft apply returned unexpected response type'')) w)
      | _ \<Rightarrow> None)"

section \<open>The FSM\<close>

datatype fsm_action =
    FsmApply u64 nat string
  | FsmSend
  | FsmDiscard

text \<open>The library resolves the future of the call the entry came from, if it still waits.\<close>

definition resolve_future :: "nat \<Rightarrow> fsm_response \<Rightarrow> raft_world \<Rightarrow> raft_world" where
  "resolve_future r resp w =
     (if r_submits w r = Some RaftProposed
      then w\<lparr>r_submits := (r_submits w)(r \<mapsto> RaftAnswered resp)\<rparr> else w)"

definition fsm_return :: "nat \<Rightarrow> fsm_response \<Rightarrow> raft_world \<Rightarrow> raft_world" where
  "fsm_return r resp w = (resolve_future r resp w)\<lparr>fsm := FsmIdle, fsm_index := lib_index w\<rparr>"

text \<open>
  \<open>FsmApply i r data\<close>: the library calls \<open>Apply\<close> for the entry at index \<open>i\<close>, proposed by call
  \<open>r\<close> (of this node or of an earlier leader) with the bytes \<open>data\<close>.
\<close>

fun raftFSM_step :: "fsm_action \<Rightarrow> raft_world \<Rightarrow> (raft_world \<times> log_event list) option" where
  "raftFSM_step (FsmApply i r data) w =
     (case fsm w of
        FsmIdle \<Rightarrow>
          (let w1 = w\<lparr>lib_index := i, applied := (applied w)(r := True)\<rparr>
           in case fsm_tx i data of
                None \<Rightarrow> Some (fsm_return r RespErr w1, [])
              | Some tx \<Rightarrow> Some (w1\<lparr>fsm := FsmSending r tx\<rparr>, []))
      | FsmSending _ _ \<Rightarrow> None)"
| "raftFSM_step FsmSend w =
     (case fsm w of
        FsmSending r tx \<Rightarrow>
          (if length (committed_ch w) < commit_buffer w
           then Some (fsm_return r (RespTx tx) (w\<lparr>committed_ch := committed_ch w @ [tx]\<rparr>), [Committed r tx])
           else None)
      | FsmIdle \<Rightarrow> None)"
| "raftFSM_step FsmDiscard w =
     (case fsm w of
        FsmSending r tx \<Rightarrow> (if r_done w then Some (fsm_return r (RespTx tx) w, []) else None)
      | FsmIdle \<Rightarrow> None)"

section \<open>Draining and closing\<close>

datatype raft_drain_action =
    RaftCallDrainWait nat nat int
  | RaftDrainRecv nat | RaftDrainFull nat | RaftDrainClosed nat | RaftDrainCancelled nat

definition raft_drain_return ::
  "nat \<Rightarrow> raft_drain \<Rightarrow> log_error option \<Rightarrow> raft_world \<Rightarrow> raft_world \<times> log_event list" where
  "raft_drain_return c d e w =
     (w\<lparr>r_drains := (r_drains w)(c := None)\<rparr>, [DrainReturned c (rd_batch d) e])"

fun RaftDrainWait_step ::
  "raft_drain_action \<Rightarrow> raft_world \<Rightarrow> (raft_world \<times> log_event list) option" where
  "RaftDrainWait_step (RaftCallDrainWait c x n) w =
     (case r_drains w c of
        Some _ \<Rightarrow> None
      | None \<Rightarrow>
         (if n \<le> 0 then Some (w, [DrainReturned c [] None])
          else if cap_out_of_range n then Some (w, [Panicked ''makeslice: cap out of range''])
          else Some (w\<lparr>r_drains := (r_drains w)(c \<mapsto> \<lparr>rd_batch = [], rd_size = n, rd_ctx = x\<rparr>)\<rparr>, [])))"
| "RaftDrainWait_step (RaftDrainRecv c) w =
     (case (r_drains w c, committed_ch w) of
        (Some d, tx # rest) \<Rightarrow>
          (if int (length (rd_batch d)) < rd_size d
           then Some (w\<lparr>committed_ch := rest,
                        r_drains := (r_drains w)(c \<mapsto> d\<lparr>rd_batch := rd_batch d @ [tx]\<rparr>)\<rparr>,
                      [Delivered c tx])
           else None)
      | _ \<Rightarrow> None)"
| "RaftDrainWait_step (RaftDrainFull c) w =
     (case r_drains w c of
        Some d \<Rightarrow>
          (if int (length (rd_batch d)) < rd_size d then None else Some (raft_drain_return c d None w))
      | None \<Rightarrow> None)"
| "RaftDrainWait_step (RaftDrainClosed c) w =
     (case r_drains w c of
        Some d \<Rightarrow>
          (if int (length (rd_batch d)) < rd_size d \<and> r_done w
           then Some (raft_drain_return c d (Some ErrQueueClosed) w) else None)
      | None \<Rightarrow> None)"
| "RaftDrainWait_step (RaftDrainCancelled c) w =
     (case r_drains w c of
        Some d \<Rightarrow>
          (case r_ctx_err w (rd_ctx d) of
             Some e \<Rightarrow>
               (if int (length (rd_batch d)) < rd_size d
                then Some (raft_drain_return c d (Some (ErrCtx e)) w) else None)
           | None \<Rightarrow> None)
      | None \<Rightarrow> None)"

text \<open>\<open>Close\<close>: once, and then the node and the transport are shut down too.\<close>

definition raft_Close :: "raft_world \<Rightarrow> raft_world" where
  "raft_Close w =
     (if r_done w then w else w\<lparr>r_done := True, node_shutdown := True, transport_closed := True\<rparr>)"

datatype raft_action =
    RaftSubmitter raft_submit_action
  | RaftFSM fsm_action
  | RaftConsumer raft_drain_action
  | RaftCtxCancel nat ctx_error
  | RaftCallClose

fun raft_step :: "raft_action \<Rightarrow> raft_world \<Rightarrow> (raft_world \<times> log_event list) option" where
  "raft_step (RaftSubmitter a) w = RaftSubmit_step a w"
| "raft_step (RaftFSM a) w = raftFSM_step a w"
| "raft_step (RaftConsumer a) w = RaftDrainWait_step a w"
| "raft_step (RaftCtxCancel x e) w =
     (case r_ctx_err w x of
        None \<Rightarrow> Some (w\<lparr>r_ctx_err := (r_ctx_err w)(x \<mapsto> e)\<rparr>, [])
      | Some _ \<Rightarrow> None)"
| "raft_step RaftCallClose w = Some (raft_Close w, [])"

abbreviation raft_run ::
  "raft_action list \<Rightarrow> raft_world \<Rightarrow> (raft_world \<times> log_event list) option" where
  "raft_run \<equiv> run raft_step"

section \<open>What is assumed of the library\<close>

text \<open>
  The documented guarantees of Raft towards one node: the FSM is given entries at strictly
  increasing indices; an entry is applied once; the entry of a local call carries the bytes
  that call passed to \<open>raft.Apply\<close>.
\<close>

fun lib_violates :: "raft_action \<Rightarrow> raft_world \<Rightarrow> bool" where
  "lib_violates (RaftFSM (FsmApply i r data)) w \<longleftrightarrow>
     \<not> (lib_index w < i \<and> \<not> applied w r \<and>
        (case r_submits w r of None \<Rightarrow> True | Some _ \<Rightarrow> proposed w r = Some data))"
| "lib_violates _ w \<longleftrightarrow> False"

definition raft_contract :: "raft_action list \<Rightarrow> raft_world \<Rightarrow> bool" where
  "raft_contract as w \<longleftrightarrow> run_avoids raft_step lib_violates as w"

section \<open>Invariant\<close>

definition fsm_ok :: "raft_world \<Rightarrow> bool" where
  "fsm_ok w \<longleftrightarrow> (fsm w = FsmIdle \<longrightarrow> fsm_index w = lib_index w) \<and>
     (\<forall>r tx. fsm w = FsmSending r tx \<longrightarrow> ID tx = lib_index w)"

definition raft_inv :: "raft_world \<Rightarrow> bool" where
  "raft_inv w \<longleftrightarrow> fsm_ok w \<and> length (committed_ch w) \<le> commit_buffer w \<and> 0 < commit_buffer w \<and>
     (\<forall>c d. r_drains w c = Some d \<longrightarrow> int (length (rd_batch d)) \<le> rd_size d)"

lemmas raft_step_defs = raft_return_def ctx_return_def resolve_future_def fsm_return_def
  raft_drain_return_def raft_Close_def Let_def

lemmas raft_splits = option.splits list.splits raft_sub_pc.splits fsm_pc.splits fsm_response.splits
  if_splits

lemma raft_step_cases [consumes 1, case_names submit fsm drain ctx close]:
  assumes "raft_step a w = Some (w', es)"
  obtains b where "a = RaftSubmitter b" "RaftSubmit_step b w = Some (w', es)"
  | b where "a = RaftFSM b" "raftFSM_step b w = Some (w', es)"
  | b where "a = RaftConsumer b" "RaftDrainWait_step b w = Some (w', es)"
  | x e where "a = RaftCtxCancel x e" "w' = w\<lparr>r_ctx_err := (r_ctx_err w)(x \<mapsto> e)\<rparr>" "es = []"
  | "a = RaftCallClose" "w' = raft_Close w" "es = []"
  using assms by (cases a) (auto split: option.splits)

text \<open>What a submitter, a consumer and the FSM leave alone.\<close>

lemma raft_submit_frame:
  "RaftSubmit_step b w = Some (w', es) \<Longrightarrow>
     committed_ch w' = committed_ch w \<and> fsm w' = fsm w \<and> fsm_index w' = fsm_index w \<and>
     lib_index w' = lib_index w \<and> commit_buffer w' = commit_buffer w \<and> r_drains w' = r_drains w \<and>
     r_done w' = r_done w \<and> applied w' = applied w \<and> committed es = [] \<and> delivered es = []"
  by (cases b) (auto simp: raft_step_defs split: raft_splits)

lemma raft_drain_frame:
  "RaftDrainWait_step b w = Some (w', es) \<Longrightarrow>
     delivered es @ committed_ch w' = committed_ch w \<and> fsm w' = fsm w \<and> fsm_index w' = fsm_index w \<and>
     lib_index w' = lib_index w \<and> commit_buffer w' = commit_buffer w \<and> r_submits w' = r_submits w \<and>
     r_done w' = r_done w \<and> applied w' = applied w \<and> proposed w' = proposed w \<and> committed es = []"
  by (cases b) (auto simp: raft_step_defs split: raft_splits)

lemma raft_fsm_frame:
  "raftFSM_step b w = Some (w', es) \<Longrightarrow>
     committed_ch w' = committed_ch w @ committed es \<and> delivered es = [] \<and>
     commit_buffer w' = commit_buffer w \<and> r_drains w' = r_drains w \<and> r_done w' = r_done w \<and>
     proposed w' = proposed w"
  by (cases b) (auto simp: raft_step_defs split: raft_splits)

lemma fsm_ok_fsm: "raftFSM_step b w = Some (w', es) \<Longrightarrow> fsm_ok w \<Longrightarrow> fsm_ok w'"
  by (cases b) (auto simp: fsm_ok_def raft_step_defs fsm_tx_ID split: raft_splits)

lemma raft_inv_step:
  assumes "raft_inv w" and "raft_step a w = Some (w', es)"
  shows "raft_inv w'"
  using assms(2)
proof (cases rule: raft_step_cases)
  case (submit b)
  with raft_submit_frame [OF submit(2)] assms(1) show ?thesis by (auto simp: raft_inv_def fsm_ok_def)
next
  case (fsm b)
  have "length (committed_ch w') \<le> commit_buffer w"
    using fsm(2) assms(1) by (cases b) (auto simp: raft_step_defs raft_inv_def split: raft_splits)
  with raft_fsm_frame [OF fsm(2)] fsm_ok_fsm [OF fsm(2)] assms(1) show ?thesis
    by (auto simp: raft_inv_def)
next
  case (drain b)
  have "int (length (rd_batch d)) \<le> rd_size d" if "r_drains w' c = Some d" for c d
    using drain(2) assms(1) that by (cases b) (auto simp: raft_step_defs raft_inv_def split: raft_splits)
  moreover have "length (committed_ch w') \<le> length (committed_ch w)"
    using raft_drain_frame [OF drain(2)] by (metis length_append le_add2)
  ultimately show ?thesis
    using raft_drain_frame [OF drain(2)] assms(1) by (auto simp: raft_inv_def fsm_ok_def)
qed (use assms(1) in \<open>auto simp: raft_inv_def fsm_ok_def raft_Close_def\<close>)

lemma raft_inv_init: "raft_inv (raft_init buf dl)"
  by (simp add: raft_inv_def fsm_ok_def raft_init_def effective_commit_buffer_def)

section \<open>The Raft log is an ordered log\<close>

definition raft_last_id :: "raft_world \<Rightarrow> nat" where
  "raft_last_id w = unat (fsm_index w)"

text \<open>Steps at which an entry would not continue the increasing sequence of indices.\<close>

fun raft_wraps :: "raft_action \<Rightarrow> raft_world \<Rightarrow> bool" where
  "raft_wraps (RaftFSM (FsmApply i r data)) w \<longleftrightarrow> \<not> lib_index w < i"
| "raft_wraps (RaftFSM _) w \<longleftrightarrow> fsm w \<noteq> FsmIdle \<and> \<not> fsm_index w < lib_index w"
| "raft_wraps _ w \<longleftrightarrow> False"

lemma raft_fifo_step:
  assumes "raft_inv w" and "raft_step a w = Some (w', es)"
  shows "delivered es @ committed_ch w' = committed_ch w @ committed es"
  using assms(2)
  by (cases rule: raft_step_cases)
    (auto dest!: raft_submit_frame raft_drain_frame raft_fsm_frame simp: raft_Close_def)

lemma raft_commit_step: "raft_step a w = Some (w', es) \<Longrightarrow> commits_first es"
  by (cases rule: raft_step_cases)
    (auto dest: raft_submit_frame raft_drain_frame raft_fsm_frame intro: commits_firstI)

lemma raft_ids_fsm:
  "raftFSM_step b w = Some (w', es) \<Longrightarrow> fsm_ok w \<Longrightarrow> \<not> raft_wraps (RaftFSM b) w \<Longrightarrow>
     raft_last_id w \<le> raft_last_id w' \<and> sorted_wrt (<) (map tx_id (committed es)) \<and>
     (\<forall>t \<in> set (committed es). raft_last_id w < tx_id t \<and> tx_id t \<le> raft_last_id w')"
  by (cases b)
    (auto simp: raft_step_defs raft_last_id_def fsm_ok_def word_less_nat_alt word_le_nat_alt
      split: raft_splits)

lemma raft_ids_step:
  assumes "raft_inv w" and "raft_step a w = Some (w', es)" and "\<not> raft_wraps a w"
  shows "raft_last_id w \<le> raft_last_id w' \<and> sorted_wrt (<) (map tx_id (committed es)) \<and>
     (\<forall>t \<in> set (committed es). raft_last_id w < tx_id t \<and> tx_id t \<le> raft_last_id w')"
  using assms(2)
proof (cases rule: raft_step_cases)
  case (fsm b)
  with raft_ids_fsm [OF fsm(2)] assms(1,3) show ?thesis by (simp add: raft_inv_def)
qed (auto dest!: raft_submit_frame raft_drain_frame simp: raft_last_id_def raft_Close_def)

interpretation raft_log: ordered_log "raft_init buf dl" raft_step committed_ch raft_inv raft_last_id raft_wraps
  for buf dl
proof unfold_locales
  show "committed_ch (raft_init buf dl) = []" by (simp add: raft_init_def)
qed (fact raft_inv_init raft_inv_step raft_fifo_step raft_commit_step raft_ids_step)+

text \<open>The library's contract rules those steps out.\<close>

definition indices_ok :: "raft_world \<Rightarrow> bool" where
  "indices_ok w \<longleftrightarrow> (if fsm w = FsmIdle then fsm_index w = lib_index w else fsm_index w < lib_index w)"

lemma indices_ok_step:
  assumes "indices_ok w" and "\<not> lib_violates a w" and "raft_step a w = Some (w', es)"
  shows "indices_ok w'"
  using assms(3)
proof (cases rule: raft_step_cases)
  case (fsm b)
  then show ?thesis using assms(1,2)
    by (cases b) (auto simp: indices_ok_def raft_step_defs split: raft_splits)
qed (use assms(1) in \<open>auto dest!: raft_submit_frame raft_drain_frame simp: indices_ok_def raft_Close_def\<close>)

lemma raft_contract_avoids:
  assumes "raft_contract as (raft_init buf dl)"
  shows "run_avoids raft_step raft_wraps as (raft_init buf dl)"
proof (rule run_avoids_weaken [where P = indices_ok])
  show "run_avoids raft_step lib_violates as (raft_init buf dl)"
    using assms by (simp add: raft_contract_def)
  show "indices_ok (raft_init buf dl)" by (simp add: indices_ok_def raft_init_def)
  show "\<not> raft_wraps a w" if "indices_ok w" "\<not> lib_violates a w" for a w
    using that by (cases "(a, w)" rule: raft_wraps.cases) (auto simp: indices_ok_def split: if_splits)
qed (rule indices_ok_step)

end
