(* ===== verification/Raft_Log_Properties.thy ===== *)
theory Raft_Log_Properties
  imports Raft_Log
begin

text \<open>
  What \<open>RaftOrderedLog\<close> guarantees on one node, given the library's contract, and what two
  replicas have in common.
\<close>

section \<open>Histories\<close>

text \<open>The early return of \<open>SubmitWithReceipt\<close> after the deadline but before the context's timer.\<close>

fun deadline_race :: "raft_action \<Rightarrow> raft_world \<Rightarrow> bool" where
  "deadline_race (RaftSubmitter (RaftPropose r now)) w \<longleftrightarrow>
     (case r_submits w r of
        Some (RaftMarshalled x p) \<Rightarrow>
          (case deadline w x of Some t \<Rightarrow> t - now \<le> 0 \<and> r_ctx_err w x = None | None \<Rightarrow> False)
      | _ \<Rightarrow> False)"
| "deadline_race _ w \<longleftrightarrow> False"

lemma run_avoids_both:
  "run_avoids step b1 as s \<Longrightarrow> run_avoids step b2 as s \<Longrightarrow> run_avoids step (\<lambda>a s. b1 a s \<or> b2 a s) as s"
  by (induction as arbitrary: s) (auto split: option.splits)

text \<open>\<open>p\<close> is the marshalled proposal of a call that was made with its ciphertext.\<close>

definition from_call :: "log_event list \<Rightarrow> nat \<Rightarrow> string \<Rightarrow> bool" where
  "from_call evs r p \<longleftrightarrow>
     (\<exists>n b. p = marshal_proposal \<lparr>SubmittedAtUnixNano = n, ProposalCiphertext = b\<rparr> \<and>
            SubmitCalled r b \<in> set evs)"

lemma from_call_mono: "from_call evs r p \<Longrightarrow> from_call (evs @ es) r p"
  by (auto simp: from_call_def)

lemma from_call_new:
  "from_call (evs @ [SubmitCalled r b]) r (marshal_proposal \<lparr>SubmittedAtUnixNano = n, ProposalCiphertext = b\<rparr>)"
  by (auto simp: from_call_def)

lemma from_call_tx: "fsm_tx i p = Some tx \<Longrightarrow> from_call evs r p \<Longrightarrow> SubmitCalled r (Ciphertext tx) \<in> set evs"
  by (auto simp: from_call_def)

text \<open>Where each call's proposal is, and that it is the call's own.\<close>

definition proposals_ok :: "raft_world \<Rightarrow> log_event list \<Rightarrow> bool" where
  "proposals_ok w evs \<longleftrightarrow>
     (\<forall>r x p. r_submits w r = Some (RaftMarshalled x p) \<longrightarrow> from_call evs r p) \<and>
     (\<forall>r p. proposed w r = Some p \<longrightarrow> from_call evs r p) \<and>
     (\<forall>r tx. fsm w = FsmSending r tx \<longrightarrow>
        applied w r \<and> (r_submits w r \<noteq> None \<longrightarrow> SubmitCalled r (Ciphertext tx) \<in> set evs))"

definition raft_receipts_ok :: "raft_world \<Rightarrow> log_event list \<Rightarrow> bool" where
  "raft_receipts_ok w evs \<longleftrightarrow>
     (\<forall>r tx. r_submits w r = Some (RaftAnswered (RespTx tx)) \<or> SubmitReturned r (Inr tx) \<in> set evs \<longrightarrow>
        SubmitCalled r (Ciphertext tx) \<in> set evs \<and> (Committed r tx \<in> set evs \<or> r_done w))"

definition raft_once_ok :: "raft_world \<Rightarrow> log_event list \<Rightarrow> bool" where
  "raft_once_ok w evs \<longleftrightarrow>
     distinct (committers evs) \<and> (\<forall>r \<in> set (committers evs). applied w r) \<and>
     (\<forall>r tx. fsm w = FsmSending r tx \<longrightarrow> applied w r \<and> r \<notin> set (committers evs))"

lemma proposals_ok_submit:
  "RaftSubmit_step b w = Some (w', es) \<Longrightarrow> proposals_ok w evs \<Longrightarrow> proposals_ok w' (evs @ es)"
  by (cases b)
    (auto simp: proposals_ok_def raft_step_defs from_call_mono from_call_new split: raft_splits)

lemma proposals_ok_fsm:
  "raftFSM_step b w = Some (w', es) \<Longrightarrow> \<not> lib_violates (RaftFSM b) w \<Longrightarrow> proposals_ok w evs \<Longrightarrow>
     proposals_ok w' (evs @ es)"
  by (cases b)
    (auto simp: proposals_ok_def raft_step_defs intro: from_call_mono from_call_tx split: raft_splits)

lemma proposals_ok_drain:
  "RaftDrainWait_step b w = Some (w', es) \<Longrightarrow> proposals_ok w evs \<Longrightarrow> proposals_ok w' (evs @ es)"
  using raft_drain_frame [of b w w' es] by (simp add: proposals_ok_def from_call_mono)

lemma raft_receipts_ok_submit:
  "RaftSubmit_step b w = Some (w', es) \<Longrightarrow> \<not> deadline_race (RaftSubmitter b) w \<Longrightarrow>
     raft_receipts_ok w evs \<Longrightarrow> raft_receipts_ok w' (evs @ es)"
  by (cases b) (auto simp: raft_receipts_ok_def raft_step_defs split: raft_splits)

lemma raft_receipts_ok_fsm:
  "raftFSM_step b w = Some (w', es) \<Longrightarrow> proposals_ok w evs \<Longrightarrow> raft_receipts_ok w evs \<Longrightarrow>
     raft_receipts_ok w' (evs @ es)"
  by (cases b) (auto simp: raft_receipts_ok_def proposals_ok_def raft_step_defs split: raft_splits)

lemma raft_receipts_ok_drain:
  "RaftDrainWait_step b w = Some (w', es) \<Longrightarrow> raft_receipts_ok w evs \<Longrightarrow> raft_receipts_ok w' (evs @ es)"
  by (cases b) (auto simp: raft_receipts_ok_def raft_step_defs split: raft_splits)

lemma raft_once_ok_step:
  assumes "raft_once_ok w evs" and "\<not> lib_violates a w" and "raft_step a w = Some (w', es)"
  shows "raft_once_ok w' (evs @ es)"
  using assms(3)
proof (cases rule: raft_step_cases)
  case (submit b)
  then have "committers es = []" by (cases b) (auto simp: raft_step_defs split: raft_splits)
  with raft_submit_frame [OF submit(2)] assms(1) show ?thesis by (simp add: raft_once_ok_def)
next
  case (fsm b)
  with assms(1,2) show ?thesis
    by (cases b) (auto simp: raft_once_ok_def raft_step_defs split: raft_splits)
next
  case (drain b)
  then have "committers es = []" by (cases b) (auto simp: raft_step_defs split: raft_splits)
  with raft_drain_frame [OF drain(2)] assms(1) show ?thesis by (simp add: raft_once_ok_def)
qed (use assms(1) in \<open>auto simp: raft_once_ok_def raft_Close_def\<close>)

lemma proposals_receipts_step:
  assumes "proposals_ok w evs \<and> raft_receipts_ok w evs"
    and "\<not> (lib_violates a w \<or> deadline_race a w)" and "raft_step a w = Some (w', es)"
  shows "proposals_ok w' (evs @ es) \<and> raft_receipts_ok w' (evs @ es)"
  using assms(3)
proof (cases rule: raft_step_cases)
  case (submit b)
  with proposals_ok_submit raft_receipts_ok_submit assms show ?thesis by simp
next
  case (fsm b)
  with proposals_ok_fsm raft_receipts_ok_fsm assms show ?thesis by simp
next
  case (drain b)
  with proposals_ok_drain raft_receipts_ok_drain assms show ?thesis by simp
qed (use assms(1) in \<open>auto simp: proposals_ok_def raft_receipts_ok_def raft_Close_def\<close>)

lemma raft_receipts_run:
  assumes "raft_run as (raft_init buf dl) = Some (w, evs)" and "raft_contract as (raft_init buf dl)"
    and "run_avoids raft_step deadline_race as (raft_init buf dl)"
  shows "raft_receipts_ok w evs"
proof -
  have "proposals_ok w evs \<and> raft_receipts_ok w evs"
    by (rule run_invariant_avoids [OF assms(1) run_avoids_both [OF assms(2) [unfolded raft_contract_def] assms(3)],
          where P = "\<lambda>_ w evs. proposals_ok w evs \<and> raft_receipts_ok w evs"])
      (simp add: proposals_ok_def raft_receipts_ok_def raft_init_def, rule proposals_receipts_step)
  then show ?thesis ..
qed

section \<open>Consumers\<close>

definition raft_in_hand :: "raft_world \<Rightarrow> nat \<Rightarrow> EncryptedTransaction list" where
  "raft_in_hand w c = (case r_drains w c of None \<Rightarrow> [] | Some d \<Rightarrow> rd_batch d)"

lemma raft_in_hand_drain:
  "RaftDrainWait_step b w = Some (w', es) \<Longrightarrow>
     raft_in_hand w c @ delivered_to c es = batches c es @ raft_in_hand w' c"
  by (cases b) (auto simp: raft_in_hand_def raft_step_defs split: raft_splits)

lemma raft_in_hand_other:
  "RaftSubmit_step a w = Some (w', es) \<Longrightarrow> delivered_to c es = [] \<and> batches c es = []"
  "raftFSM_step b w = Some (w', es) \<Longrightarrow> delivered_to c es = [] \<and> batches c es = []"
  by (cases a; auto simp: raft_step_defs split: raft_splits)
    (cases b; auto simp: raft_step_defs split: raft_splits)

interpretation raft_batches:
  batching_log "raft_init buf dl" raft_step committed_ch raft_inv raft_last_id raft_wraps raft_in_hand
  for buf dl
proof unfold_locales
  show "raft_in_hand (raft_init buf dl) c = []" for c by (simp add: raft_in_hand_def raft_init_def)
next
  fix w w' c es and a :: raft_action
  assume "raft_step a w = Some (w', es)"
  then show "raft_in_hand w c @ delivered_to c es = batches c es @ raft_in_hand w' c"
  proof (cases rule: raft_step_cases)
    case (submit b)
    with raft_submit_frame [OF submit(2)] raft_in_hand_other(1) [OF submit(2)] show ?thesis
      by (simp add: raft_in_hand_def)
  next
    case (fsm b)
    with raft_fsm_frame [OF fsm(2)] raft_in_hand_other(2) [OF fsm(2)] show ?thesis
      by (simp add: raft_in_hand_def)
  next
    case (drain b)
    then show ?thesis by (simp add: raft_in_hand_drain)
  qed (simp_all add: raft_in_hand_def raft_Close_def)
qed

section \<open>Properties of one node\<close>

text \<open>A run of a leader with one submission, one foreign entry and one consumer.\<close>

definition leader_actions :: "raft_action list" where
  "leader_actions =
     [RaftSubmitter (RaftCallSubmit 5 0 [7] 100), RaftSubmitter (RaftPropose 5 101),
      RaftFSM (FsmApply 2 9 ''no json''),
      RaftFSM (FsmApply 3 5 (marshal_proposal \<lparr>SubmittedAtUnixNano = 100, ProposalCiphertext = [7]\<rparr>)),
      RaftFSM FsmSend, RaftSubmitter (RaftTakeResponse 5),
      RaftConsumer (RaftCallDrainWait 8 0 1), RaftConsumer (RaftDrainRecv 8),
      RaftConsumer (RaftDrainFull 8)]"

definition leader_tx :: EncryptedTransaction where
  "leader_tx = \<lparr>ID = 3, Ciphertext = [7], ArrivedAt = 100\<rparr>"

definition leader_events :: "log_event list" where
  "leader_events =
     [SubmitCalled 5 [7], Committed 5 leader_tx, SubmitReturned 5 (Inr leader_tx), Delivered 8 leader_tx,
      DrainReturned 8 [leader_tx] None]"

definition leader_world :: raft_world where
  "leader_world = (raft_init 4 (\<lambda>_. None))
     \<lparr>r_submits := [5 \<mapsto> RaftReturned],
      proposed := [5 \<mapsto> marshal_proposal \<lparr>SubmittedAtUnixNano = 100, ProposalCiphertext = [7]\<rparr>],
      applied := (\<lambda>_. False)(9 := True, 5 := True), lib_index := 3, fsm_index := 3\<rparr>"

lemma no_json: "fsm_tx i ''no json'' = None"
proof -
  have "parse_value 10000 ''no json'' = None"
    by (subst parse_value.simps) (simp add: is_json_space_def parse_literal_def starts_with_def)
  then show ?thesis by (simp add: fsm_tx_def unmarshal_proposal_def json_tree_def)
qed

lemmas raft_eval = leader_actions_def leader_tx_def leader_events_def leader_world_def raft_init_def
  effective_commit_buffer_def raft_step_defs no_json UnixNano_def time_Unix0_def

lemma leader_run: "raft_run leader_actions (raft_init 4 (\<lambda>_. None)) = Some (leader_world, leader_events)"
  by (simp add: raft_eval fun_upd_idem)

lemma leader_contract: "raft_contract leader_actions (raft_init 4 (\<lambda>_. None))"
  by (simp add: raft_contract_def raft_eval)

lemma leader_no_race: "run_avoids raft_step deadline_race leader_actions (raft_init 4 (\<lambda>_. None))"
  by (simp add: raft_eval)

text \<open>
  On every node, in every interleaving, what consumers of the Raft backend receive followed
  by what is buffered is exactly what the FSM forwarded, in the order it did.
\<close>

lemma raft_fifo:
  assumes "raft_run as (raft_init buf dl) = Some (w, evs)"
  shows "delivered evs @ committed_ch w = committed evs"
  using assms by (rule raft_log.fifo_run)

text \<open>
  C7: refinement.  Given Raft's guarantee of increasing indices, a Raft node too does nothing but
  what the abstract log allows, event by event, and the log then holds exactly the transactions
  in the node's commit channel.
\<close>

theorem raft_refines_log:
  assumes "raft_run as (raft_init buf dl) = Some (w, evs)" and "raft_contract as (raft_init buf dl)"
  shows "\<exists>k \<le> raft_last_id w. spec_run evs spec_init = Some \<lparr>spec_queue = committed_ch w, spec_last = k\<rparr>"
  by (rule raft_log.refines_run [OF assms(1) raft_contract_avoids [OF assms(2)]])

theorem raft_refines_log_witness:
  "\<exists>k \<le> raft_last_id leader_world.
     spec_run leader_events spec_init = Some \<lparr>spec_queue = committed_ch leader_world, spec_last = k\<rparr>"
  by (rule raft_refines_log [OF leader_run leader_contract])

text \<open>
  Every transaction a consumer takes from a Raft node is part of a batch its calls of
  \<open>DrainWait\<close> return, or of the call in progress: neither \<open>Close\<close> nor cancellation loses what
  a consumer has already taken.
\<close>

lemma raft_batches_complete:
  assumes "raft_run as (raft_init buf dl) = Some (w, evs)"
  shows "delivered_to c evs = batches c evs @ raft_in_hand w c"
  using assms by (rule raft_batches.batches_run)

text \<open>
  Given Raft's guarantee of increasing indices, the sequence IDs of the Raft backend
  strictly increase in forwarding order and towards every consumer, and no submission is
  forwarded twice.
\<close>

lemma raft_ids_increase:
  assumes "raft_run as (raft_init buf dl) = Some (w, evs)" and "raft_contract as (raft_init buf dl)"
  shows "sorted_wrt (<) (map tx_id (committed evs)) \<and>
    sorted_wrt (\<lambda>x y. tx_id x < tx_id y) (delivered_to c evs) \<and> distinct (committers evs)"
proof -
  have "raft_once_ok w evs"
    by (rule run_invariant_avoids [OF assms(1) assms(2) [unfolded raft_contract_def],
          where P = "\<lambda>_. raft_once_ok"])
      (simp add: raft_once_ok_def raft_init_def, rule raft_once_ok_step)
  then show ?thesis
    using raft_log.ids_run [OF assms(1)] raft_log.drained_sorted [OF assms(1)]
      raft_contract_avoids [OF assms(2)] by (simp add: raft_once_ok_def)
qed

text \<open>
  Given the library's contract and no call caught between its deadline and the context's
  timer, a receipt of the Raft backend is truthful: the transaction carries the ciphertext of
  the call, and it has been forwarded to this node's consumers unless the log was closed.
\<close>

lemma raft_receipt_truthful:
  assumes "raft_run as (raft_init buf dl) = Some (w, evs)" and "raft_contract as (raft_init buf dl)"
    and "run_avoids raft_step deadline_race as (raft_init buf dl)"
    and "SubmitReturned r (Inr tx) \<in> set evs"
  shows "SubmitCalled r (Ciphertext tx) \<in> set evs \<and> (Committed r tx \<in> set evs \<or> r_done w)"
  using raft_receipts_run [OF assms(1-3)] assms(4) by (auto simp: raft_receipts_ok_def)

text \<open>
  That proviso is needed.  When \<open>time.Until(deadline)\<close> is not positive but the context's
  timer has not fired yet, \<open>ctx.Err()\<close> is still nil and \<open>SubmitWithReceipt\<close> returns the zero
  transaction without an error, although nothing was proposed.
\<close>

lemma raft_false_receipt:
  "map_option snd (raft_run
       [RaftSubmitter (RaftCallSubmit 5 0 [7] 100), RaftSubmitter (RaftPropose 5 101)]
       (raft_init 4 [0 \<mapsto> 101])) =
     Some [SubmitCalled 5 [7], SubmitReturned 5 (Inr zero_tx)]"
  by (simp add: raft_eval)

section \<open>Replicas\<close>

text \<open>The entries the library gave to the FSM in a run, and what the FSM makes of them.\<close>

fun entries :: "raft_action list \<Rightarrow> (u64 \<times> string) list" where
  "entries [] = []"
| "entries (RaftFSM (FsmApply i r data) # as) = (i, data) # entries as"
| "entries (_ # as) = entries as"

definition fsm_outputs :: "(u64 \<times> string) list \<Rightarrow> EncryptedTransaction list" where
  "fsm_outputs es = List.map_filter (\<lambda>(i, data). fsm_tx i data) es"

fun fsm_sending :: "fsm_pc \<Rightarrow> EncryptedTransaction list" where
  "fsm_sending FsmIdle = []"
| "fsm_sending (FsmSending r tx) = [tx]"

lemma entries_append [simp]: "entries (as @ bs) = entries as @ entries bs"
  by (induction as rule: entries.induct) auto

lemma fsm_outputs_append [simp]: "fsm_outputs (xs @ ys) = fsm_outputs xs @ fsm_outputs ys"
  by (simp add: fsm_outputs_def List.map_filter_def)

lemma fsm_outputs_entry [simp]:
  "fsm_outputs [] = []"
  "fsm_outputs [(i, data)] = (case fsm_tx i data of None \<Rightarrow> [] | Some tx \<Rightarrow> [tx])"
  by (simp_all add: fsm_outputs_def map_filter_simps split: option.splits)

lemma forwarded_entries:
  assumes "raft_run as (raft_init buf dl) = Some (w, evs)"
  shows "\<not> r_done w \<longrightarrow> committed evs @ fsm_sending (fsm w) = fsm_outputs (entries as)"
proof (rule run_invariant [OF assms, where
      P = "\<lambda>as w evs. \<not> r_done w \<longrightarrow> committed evs @ fsm_sending (fsm w) = fsm_outputs (entries as)"])
  show "\<not> r_done (raft_init buf dl) \<longrightarrow>
      committed [] @ fsm_sending (fsm (raft_init buf dl)) = fsm_outputs (entries [])"
    by (simp add: raft_init_def)
next
  fix as evs a es and w w' :: raft_world
  assume P: "\<not> r_done w \<longrightarrow> committed evs @ fsm_sending (fsm w) = fsm_outputs (entries as)"
  assume "raft_step a w = Some (w', es)"
  then show "\<not> r_done w' \<longrightarrow>
      committed (evs @ es) @ fsm_sending (fsm w') = fsm_outputs (entries (as @ [a]))"
  proof (cases rule: raft_step_cases)
    case (submit b)
    with raft_submit_frame [OF submit(2)] P show ?thesis by simp
  next
    case (fsm b)
    with P show ?thesis by (cases b) (auto simp: raft_step_defs split: raft_splits)
  next
    case (drain b)
    with raft_drain_frame [OF drain(2)] P show ?thesis by simp
  qed (use P in \<open>auto simp: raft_Close_def\<close>)
qed

text \<open>
  Two replicas agree: if the entries applied on one node are a prefix of those applied on another
  (Raft's state machine safety) and neither has been closed, one of the two sequences of transactions
  forwarded so far, IDs, times and ciphertexts included, is a prefix of the other.
\<close>

lemma committed_comparable:
  assumes "raft_run as (raft_init buf dl) = Some (w, evs)" and "\<not> r_done w"
    and "raft_run as' (raft_init buf' dl') = Some (w', evs')" and "\<not> r_done w'"
    and "prefix (entries as) (entries as')"
  shows "prefix (committed evs) (committed evs') \<or> prefix (committed evs') (committed evs)"
proof -
  have "committed evs @ fsm_sending (fsm w) = fsm_outputs (entries as)"
    "committed evs' @ fsm_sending (fsm w') = fsm_outputs (entries as')"
    using forwarded_entries [OF assms(1)] forwarded_entries [OF assms(3)] assms(2,4) by simp_all
  then have "prefix (committed evs) (fsm_outputs (entries as))"
    "prefix (committed evs') (fsm_outputs (entries as'))" by (metis prefixI)+
  moreover have "prefix (fsm_outputs (entries as)) (fsm_outputs (entries as'))"
    using assms(5) by (auto simp: prefix_def)
  ultimately show ?thesis by (meson prefix_order.trans prefix_same_cases)
qed

end
