(* ===== verification/Log_Consumers.thy ===== *)
theory Log_Consumers
  imports Tx_Queue_Liveness Raft_Log_Properties
begin

text \<open>
  What the sequencer's collector relies on of an ordered log: a call of \<open>DrainWait\<close> in progress
  keeps its size, returns once, and returns fewer transactions than asked for only with an
  error; nobody but a caller receives anything.  Both backends provide it.
\<close>

section \<open>Returns of one consumer\<close>

fun returns :: "nat \<Rightarrow> log_event list \<Rightarrow> (EncryptedTransaction list \<times> log_error option) list" where
  "returns c [] = []"
| "returns c (DrainReturned d b e # es) = (if c = d then (b, e) # returns c es else returns c es)"
| "returns c (_ # es) = returns c es"

lemma returns_append [simp]: "returns c (xs @ ys) = returns c xs @ returns c ys"
  by (induction xs rule: returns.induct) auto

lemma batches_returns: "batches c es = concat (map fst (returns c es))"
  by (induction es rule: batches.induct) auto

section \<open>The contract\<close>

text \<open>
  \<open>call_size s c\<close> is the size of the call consumer \<open>c\<close> is in, \<open>calls a\<close> says that action \<open>a\<close> is
  a call of \<open>Drain\<close> or \<open>DrainWait\<close>, and \<open>drain1\<close> is the action of consumer 0 calling
  \<open>DrainWait(ctx, 1)\<close> and \<open>cancel0\<close> the cancellation of that context, number 0.
\<close>

locale drained_log = batching_log init step pending inv last_id wraps in_hand
  for init :: "'s" and step :: "'a \<Rightarrow> 's \<Rightarrow> ('s \<times> log_event list) option" and pending inv last_id wraps in_hand +
  fixes call_size :: "'s \<Rightarrow> nat \<Rightarrow> int option"
    and calls :: "'a \<Rightarrow> bool"
    and drain1 :: "'a"
    and cancel0 :: "'a"
  assumes no_call_init: "call_size init c = None"
    and drain1_calls: "calls drain1"
    and cancel_calls_not: "\<not> calls cancel0"
    and call_drain1: "step drain1 s = Some (s', es) \<Longrightarrow>
      call_size s 0 = None \<and> call_size s' = (call_size s)(0 \<mapsto> 1) \<and> es = []"
    and idle_step: "step a s = Some (s', es) \<Longrightarrow> \<not> calls a \<Longrightarrow> call_size s c = None \<Longrightarrow>
      call_size s' c = None \<and> delivered_to c es = [] \<and> returns c es = []"
    and busy_step: "step a s = Some (s', es) \<Longrightarrow> \<not> calls a \<Longrightarrow> call_size s c = Some n \<Longrightarrow>
      (returns c es = [] \<and> call_size s' c = Some n) \<or>
      (\<exists>b e. returns c es = [(b, e)] \<and> call_size s' c = None \<and> (e \<noteq> None \<longrightarrow> int (length b) < n))"

section \<open>Both backends provide it\<close>

definition queue_call_size :: "queue_world \<Rightarrow> nat \<Rightarrow> int option" where
  "queue_call_size w c = map_option d_size (drains w c)"

fun queue_calls :: "queue_action \<Rightarrow> bool" where
  "queue_calls (Consumer (CallDrainWait c x n)) \<longleftrightarrow> True"
| "queue_calls (Consumer (CallDrain c n)) \<longleftrightarrow> True"
| "queue_calls _ \<longleftrightarrow> False"

lemma queue_calls_submit:
  "SubmitWithReceipt_step a w = Some (w', es) \<Longrightarrow> drains w' = drains w \<and> delivered_to c es = [] \<and> returns c es = []"
  by (cases a) (auto simp: step_simps split: queue_splits)

lemma queue_calls_loop:
  "runAdmissionLoop_step a w = Some (w', es) \<Longrightarrow> returns c es = [] \<and> queue_call_size w' = queue_call_size w \<and>
     (drains w c = None \<longrightarrow> delivered_to c es = [])"
  by (cases a) (auto simp: step_simps queue_call_size_def split: queue_splits)

lemma queue_calls_drain:
  "Drain_step a w = Some (w', es) \<Longrightarrow> \<not> queue_calls (Consumer a) \<Longrightarrow>
     (case drains w c of
        None \<Rightarrow> drains w' c = None \<and> delivered_to c es = [] \<and> returns c es = []
      | Some d \<Rightarrow> (returns c es = [] \<and> queue_call_size w' c = Some (d_size d)) \<or>
          (\<exists>b e. returns c es = [(b, e)] \<and> drains w' c = None \<and> (e \<noteq> None \<longrightarrow> int (length b) < d_size d)))"
  by (cases a) (auto simp: step_simps queue_call_size_def split: queue_splits)

lemma queue_consumer_step:
  assumes "queue_step a w = Some (w', es)" and "\<not> queue_calls a"
  shows "case queue_call_size w c of
      None \<Rightarrow> queue_call_size w' c = None \<and> delivered_to c es = [] \<and> returns c es = []
    | Some n \<Rightarrow> (returns c es = [] \<and> queue_call_size w' c = Some n) \<or>
        (\<exists>b e. returns c es = [(b, e)] \<and> queue_call_size w' c = None \<and> (e \<noteq> None \<longrightarrow> int (length b) < n))"
  using assms(1)
proof (cases rule: queue_step_cases)
  case (submit b)
  then show ?thesis using queue_calls_submit [of b w w' es c]
    by (auto simp: queue_call_size_def split: option.splits)
next
  case (loop b)
  then show ?thesis using queue_calls_loop [of b w w' es c]
    by (auto simp: queue_call_size_def split: option.splits)
next
  case (drain b)
  then show ?thesis using queue_calls_drain [of b w w' es c] assms(2)
    by (auto simp: queue_call_size_def split: option.splits)
qed (auto simp: queue_call_size_def queue_Close_def split: option.splits)

interpretation queue_consumers: drained_log "queue_init cap" queue_step ch queue_inv queue_last_id queue_wraps
    in_hand queue_call_size queue_calls "Consumer (CallDrainWait 0 0 1)" "CtxCancel 0 Canceled"
  for cap :: nat
proof unfold_locales
  show "queue_call_size (queue_init cap) c = None" for c by (simp add: queue_call_size_def queue_init_def)
  show "queue_call_size s 0 = None \<and> queue_call_size s' = (queue_call_size s)(0 \<mapsto> 1) \<and> es = []"
    if "queue_step (Consumer (CallDrainWait 0 0 1)) s = Some (s', es)" for s s' es
    using that by (auto simp: queue_call_size_def drain_call_def split: option.splits)
qed (simp, simp, (use queue_consumer_step in \<open>fastforce split: option.splits\<close>)+)

definition raft_call_size :: "raft_world \<Rightarrow> nat \<Rightarrow> int option" where
  "raft_call_size w c = map_option rd_size (r_drains w c)"

fun raft_calls :: "raft_action \<Rightarrow> bool" where
  "raft_calls (RaftConsumer (RaftCallDrainWait c x n)) \<longleftrightarrow> True"
| "raft_calls _ \<longleftrightarrow> False"

lemma raft_calls_submit:
  "RaftSubmit_step a w = Some (w', es) \<Longrightarrow> r_drains w' = r_drains w \<and> delivered_to c es = [] \<and> returns c es = []"
  by (cases a) (auto simp: raft_step_defs split: raft_splits)

lemma raft_calls_fsm:
  "raftFSM_step a w = Some (w', es) \<Longrightarrow> r_drains w' = r_drains w \<and> delivered_to c es = [] \<and> returns c es = []"
  by (cases a) (auto simp: raft_step_defs split: raft_splits)

lemma raft_calls_drain:
  "RaftDrainWait_step a w = Some (w', es) \<Longrightarrow> \<not> raft_calls (RaftConsumer a) \<Longrightarrow>
     (case r_drains w c of
        None \<Rightarrow> r_drains w' c = None \<and> delivered_to c es = [] \<and> returns c es = []
      | Some d \<Rightarrow> (returns c es = [] \<and> raft_call_size w' c = Some (rd_size d)) \<or>
          (\<exists>b e. returns c es = [(b, e)] \<and> r_drains w' c = None \<and> (e \<noteq> None \<longrightarrow> int (length b) < rd_size d)))"
  by (cases a) (auto simp: raft_step_defs raft_call_size_def split: raft_splits)

lemma raft_consumer_step:
  assumes "raft_step a w = Some (w', es)" and "\<not> raft_calls a"
  shows "case raft_call_size w c of
      None \<Rightarrow> raft_call_size w' c = None \<and> delivered_to c es = [] \<and> returns c es = []
    | Some n \<Rightarrow> (returns c es = [] \<and> raft_call_size w' c = Some n) \<or>
        (\<exists>b e. returns c es = [(b, e)] \<and> raft_call_size w' c = None \<and> (e \<noteq> None \<longrightarrow> int (length b) < n))"
  using assms(1)
proof (cases rule: raft_step_cases)
  case (submit b)
  then show ?thesis using raft_calls_submit [of b w w' es c]
    by (auto simp: raft_call_size_def split: option.splits)
next
  case (fsm b)
  then show ?thesis using raft_calls_fsm [of b w w' es c]
    by (auto simp: raft_call_size_def split: option.splits)
next
  case (drain b)
  then show ?thesis using raft_calls_drain [of b w w' es c] assms(2)
    by (auto simp: raft_call_size_def split: option.splits)
qed (auto simp: raft_call_size_def raft_Close_def split: option.splits)

interpretation raft_consumers: drained_log "raft_init buf dl" raft_step committed_ch raft_inv raft_last_id raft_wraps
    raft_in_hand raft_call_size raft_calls "RaftConsumer (RaftCallDrainWait 0 0 1)" "RaftCtxCancel 0 Canceled"
  for buf dl
proof unfold_locales
  show "raft_call_size (raft_init buf dl) c = None" for c by (simp add: raft_call_size_def raft_init_def)
  show "raft_call_size s 0 = None \<and> raft_call_size s' = (raft_call_size s)(0 \<mapsto> 1) \<and> es = []"
    if "raft_step (RaftConsumer (RaftCallDrainWait 0 0 1)) s = Some (s', es)" for s s' es
    using that by (auto simp: raft_call_size_def split: option.splits)
qed (simp, simp, (use raft_consumer_step in \<open>fastforce split: option.splits\<close>)+)

end
