(* ===== verification/Go_Bytes.thy ===== *)
theory Go_Bytes
  imports SO_Prelude
begin

text \<open>
  Byte-level encodings of the Go standard library that the sequencer relies on:
  \<open>binary.LittleEndian.PutUint64\<close> and \<open>encoding/hex\<close>.
\<close>

section \<open>Little-endian 64-bit integers\<close>

definition byte_at :: "nat \<Rightarrow> u64 \<Rightarrow> byte" where
  "byte_at k w = ucast (drop_bit (8 * k) w)"

definition PutUint64_le :: "u64 \<Rightarrow> bytes" where
  "PutUint64_le w = map (\<lambda>k. byte_at k w) [0, 1, 2, 3, 4, 5, 6, 7]"

lemma length_PutUint64_le [simp, codec_simps]: "length (PutUint64_le w) = 8"
  by (simp add: PutUint64_le_def)

lemma bit_byte_at: "bit (byte_at k w) j \<longleftrightarrow> j < 8 \<and> bit w (8 * k + j)"
  by (simp add: byte_at_def bit_ucast_iff bit_drop_bit_eq)

lemma PutUint64_le_inject [simp, codec_simps]:
  "PutUint64_le v = PutUint64_le w \<longleftrightarrow> v = w"
proof
  assume eq: "PutUint64_le v = PutUint64_le w"
  have same: "byte_at k v = byte_at k w" if "k < 8" for k
  proof -
    have "k \<in> set [0, 1, 2, 3, 4, 5, 6, 7]" using that by auto
    with eq show ?thesis unfolding PutUint64_le_def map_eq_conv by blast
  qed
  show "v = w"
  proof (rule bit_word_eqI)
    fix n assume "n < LENGTH(64)"
    then have k: "n div 8 < 8" by simp
    have split: "8 * (n div 8) + n mod 8 = n" by simp
    from same [OF k] have "bit (byte_at (n div 8) v) (n mod 8) = bit (byte_at (n div 8) w) (n mod 8)"
      by simp
    then show "bit v n = bit w n" by (simp add: bit_byte_at)
  qed
qed simp

section \<open>Hexadecimal\<close>

definition hex_digits :: string where
  "hex_digits = ''0123456789abcdef''"

definition hex_pair :: "byte \<Rightarrow> string" where
  "hex_pair b = [hex_digits ! (unat b div 16), hex_digits ! (unat b mod 16)]"

text \<open>\<open>hex.EncodeToString\<close>\<close>

definition hex_EncodeToString :: "bytes \<Rightarrow> string" where
  "hex_EncodeToString bs = concat (map hex_pair bs)"

fun hex_value :: "char \<Rightarrow> nat option" where
  "hex_value c =
     (let n = (of_char c :: nat) in
      if 48 \<le> n \<and> n \<le> 57 then Some (n - 48)
      else if 97 \<le> n \<and> n \<le> 102 then Some (n - 87)
      else if 65 \<le> n \<and> n \<le> 70 then Some (n - 55)
      else None)"

datatype hex_error = InvalidByteError char | ErrLength

text \<open>\<open>hex.DecodeString\<close>: a bad digit is reported before an odd length.\<close>

fun hex_DecodeString :: "string \<Rightarrow> hex_error + bytes" where
  "hex_DecodeString [] = Inr []"
| "hex_DecodeString [c] =
     (case hex_value c of None \<Rightarrow> Inl (InvalidByteError c) | Some _ \<Rightarrow> Inl ErrLength)"
| "hex_DecodeString (c # d # s) =
     (case hex_value c of
        None \<Rightarrow> Inl (InvalidByteError c)
      | Some h \<Rightarrow>
         (case hex_value d of
            None \<Rightarrow> Inl (InvalidByteError d)
          | Some l \<Rightarrow>
             (case hex_DecodeString s of
                Inl e \<Rightarrow> Inl e
              | Inr bs \<Rightarrow> Inr (of_nat (16 * h + l) # bs))))"

declare hex_value.simps [simp del]

lemma hex_value_digit: "n < 16 \<Longrightarrow> hex_value (hex_digits ! n) = Some n"
proof -
  assume "n < 16"
  then have "n \<in> {0, 1, 2, 3, 4, 5, 6, 7, 8, 9, 10, 11, 12, 13, 14, 15}" by (simp, arith)
  then show ?thesis
    by (elim insertE emptyE) (simp_all add: hex_digits_def hex_value.simps)
qed

lemma length_hex_EncodeToString [simp, codec_simps]:
  "length (hex_EncodeToString bs) = 2 * length bs"
  by (induction bs) (simp_all add: hex_EncodeToString_def hex_pair_def)

lemma hex_decode_encode [simp, codec_simps]:
  "hex_DecodeString (hex_EncodeToString bs) = Inr bs"
proof (induction bs)
  case Nil
  show ?case by (simp add: hex_EncodeToString_def)
next
  case (Cons b bs)
  have "unat b div 16 < 16" using unat_byte_less [of b] by linarith
  moreover have "(of_nat (16 * (unat b div 16) + unat b mod 16) :: byte) = b"
    by (simp only: mult_div_mod_eq) simp
  ultimately show ?case
    using Cons by (simp add: hex_EncodeToString_def hex_pair_def hex_value_digit)
qed

lemma hex_EncodeToString_inject [simp, codec_simps]:
  "hex_EncodeToString x = hex_EncodeToString y \<longleftrightarrow> x = y"
  by (metis hex_decode_encode sum.inject(2))

lemma hex_DecodeString_length:
  "hex_DecodeString s = Inr bs \<Longrightarrow> length s = 2 * length bs"
  by (induction s arbitrary: bs rule: hex_DecodeString.induct)
    (auto split: option.splits sum.splits)

end
