(* ===== verification/Go_Sha256.thy ===== *)
theory Go_Sha256
  imports SO_Prelude
begin

unbundle bit_operations_syntax

text \<open>
  SHA-256 (FIPS 180-4) as computed by \<open>crypto/sha256\<close> of the Go standard library and by
  the \<open>sha256\<close> precompile the Solidity contract calls.  A Go hasher accumulates what is
  written to it; \<open>Sum\<close> is the digest of everything written so far, so the hasher state is
  modelled by the bytes accumulated.
\<close>

section \<open>The compression function\<close>

definition ROTR :: "nat \<Rightarrow> u32 \<Rightarrow> u32" where
  "ROTR n x = drop_bit n x OR push_bit (32 - n) x"

definition sha_Ch :: "u32 \<Rightarrow> u32 \<Rightarrow> u32 \<Rightarrow> u32" where
  "sha_Ch x y z = (x AND y) XOR (NOT x AND z)"

definition sha_Maj :: "u32 \<Rightarrow> u32 \<Rightarrow> u32 \<Rightarrow> u32" where
  "sha_Maj x y z = (x AND y) XOR (x AND z) XOR (y AND z)"

definition sha_Sigma0 :: "u32 \<Rightarrow> u32" where
  "sha_Sigma0 x = ROTR 2 x XOR ROTR 13 x XOR ROTR 22 x"

definition sha_Sigma1 :: "u32 \<Rightarrow> u32" where
  "sha_Sigma1 x = ROTR 6 x XOR ROTR 11 x XOR ROTR 25 x"

definition sha_sigma0 :: "u32 \<Rightarrow> u32" where
  "sha_sigma0 x = ROTR 7 x XOR ROTR 18 x XOR drop_bit 3 x"

definition sha_sigma1 :: "u32 \<Rightarrow> u32" where
  "sha_sigma1 x = ROTR 17 x XOR ROTR 19 x XOR drop_bit 10 x"

text \<open>The round constants, eight 32-bit words to a row, the first word in the highest bits.\<close>

definition sha_K_row :: "256 word \<Rightarrow> u32 list" where
  "sha_K_row n = map (\<lambda>i. ucast (drop_bit (32 * i) n)) [7, 6, 5, 4, 3, 2, 1, 0]"

definition sha_K :: "u32 list" where
  "sha_K = concat (map sha_K_row
    [0x428a2f9871374491b5c0fbcfe9b5dba53956c25b59f111f1923f82a4ab1c5ed5,
     0xd807aa9812835b01243185be550c7dc372be5d7480deb1fe9bdc06a7c19bf174,
     0xe49b69c1efbe47860fc19dc6240ca1cc2de92c6f4a7484aa5cb0a9dc76f988da,
     0x983e5152a831c66db00327c8bf597fc7c6e00bf3d5a7914706ca635114292967,
     0x27b70a852e1b21384d2c6dfc53380d13650a7354766a0abb81c2c92e92722c85,
     0xa2bfe8a1a81a664bc24b8b70c76c51a3d192e819d6990624f40e3585106aa070,
     0x19a4c1161e376c082748774c34b0bcb5391c0cb34ed8aa4a5b9cca4f682e6ff3,
     0x748f82ee78a5636f84c878148cc7020890befffaa4506cebbef9a3f7c67178f2])"

datatype sha_state = ShaState u32 u32 u32 u32 u32 u32 u32 u32

definition sha_init :: sha_state where
  "sha_init = ShaState 0x6a09e667 0xbb67ae85 0x3c6ef372 0xa54ff53a
                       0x510e527f 0x9b05688c 0x1f83d9ab 0x5be0cd19"

fun sha_round :: "u32 \<Rightarrow> u32 \<Rightarrow> sha_state \<Rightarrow> sha_state" where
  "sha_round k w (ShaState a b c d e f g h) =
     (let t1 = h + sha_Sigma1 e + sha_Ch e f g + k + w;
          t2 = sha_Sigma0 a + sha_Maj a b c
      in ShaState (t1 + t2) a b c (d + t1) e f g)"

fun sha_rounds :: "u32 list \<Rightarrow> u32 list \<Rightarrow> sha_state \<Rightarrow> sha_state" where
  "sha_rounds (k # ks) (w # ws) s = sha_rounds ks ws (sha_round k w s)"
| "sha_rounds _ _ s = s"

text \<open>The message schedule, kept latest word first while it is extended.\<close>

fun sha_extend :: "nat \<Rightarrow> u32 list \<Rightarrow> u32 list" where
  "sha_extend 0 ws = ws"
| "sha_extend (Suc n) ws =
     sha_extend n ((sha_sigma1 (ws ! 1) + ws ! 6 + sha_sigma0 (ws ! 14) + ws ! 15) # ws)"

fun be_words :: "bytes \<Rightarrow> u32 list" where
  "be_words (a # b # c # d # bs) =
     (push_bit 24 (ucast a) OR push_bit 16 (ucast b) OR push_bit 8 (ucast c) OR ucast d) # be_words bs"
| "be_words _ = []"

fun sha_add :: "sha_state \<Rightarrow> sha_state \<Rightarrow> sha_state" where
  "sha_add (ShaState a b c d e f g h) (ShaState a' b' c' d' e' f' g' h') =
     ShaState (a + a') (b + b') (c + c') (d + d') (e + e') (f + f') (g + g') (h + h')"

definition sha_block :: "bytes \<Rightarrow> sha_state \<Rightarrow> sha_state" where
  "sha_block blk s = sha_add s (sha_rounds sha_K (rev (sha_extend 48 (rev (be_words blk)))) s)"

section \<open>Padding and digest\<close>

definition be_u64 :: "u64 \<Rightarrow> bytes" where
  "be_u64 w = map (\<lambda>i. ucast (drop_bit i w)) [56, 48, 40, 32, 24, 16, 8, 0]"

definition sha_pad :: "bytes \<Rightarrow> bytes" where
  "sha_pad m = m @ 0x80 # replicate ((119 - length m mod 64) mod 64) 0
                 @ be_u64 (of_nat (8 * length m))"

fun sha_blocks :: "nat \<Rightarrow> bytes \<Rightarrow> sha_state \<Rightarrow> sha_state" where
  "sha_blocks 0 m s = s"
| "sha_blocks (Suc n) m s = sha_blocks n (drop 64 m) (sha_block (take 64 m) s)"

definition be_u32 :: "u32 \<Rightarrow> bytes" where
  "be_u32 w = map (\<lambda>i. ucast (drop_bit i w)) [24, 16, 8, 0]"

fun sha_digest :: "sha_state \<Rightarrow> bytes" where
  "sha_digest (ShaState a b c d e f g h) = concat (map be_u32 [a, b, c, d, e, f, g, h])"

definition sha256 :: "bytes \<Rightarrow> bytes" where
  "sha256 m = (let p = sha_pad m in sha_digest (sha_blocks (length p div 64) p sha_init))"

lemma length_sha256 [simp, codec_simps]: "length (sha256 m) = 32"
  by (cases "sha_blocks (length (sha_pad m) div 64) (sha_pad m) sha_init")
    (simp add: sha256_def Let_def be_u32_def)

text \<open>Padding always yields whole blocks, so no byte of the message is left unhashed.\<close>

lemma sha_pad_blocks: "length (sha_pad m) mod 64 = 0"
proof -
  have "length (sha_pad m) = length m + 9 + (119 - length m mod 64) mod 64"
    by (simp add: sha_pad_def be_u64_def)
  moreover have "(119 - r) mod 64 = (if r \<le> 55 then 55 - r else 119 - r)" if "r < 64" for r :: nat
    using that by (auto simp: mod_if)
  ultimately have "length (sha_pad m) = 64 * (length m div 64) +
      (if length m mod 64 \<le> 55 then 64 else 128)"
    by (simp add: minus_mod_eq_mult_div [symmetric] add.commute)
  then show ?thesis by simp
qed

section \<open>The streaming hasher\<close>

text \<open>\<open>sha256.New\<close>, \<open>h.Write\<close> and \<open>h.Sum(nil)\<close>.\<close>

type_synonym hasher = bytes

definition sha256_New :: hasher where "sha256_New = []"
definition hasher_Write :: "bytes \<Rightarrow> hasher \<Rightarrow> hasher" where "hasher_Write p h = h @ p"
definition hasher_Sum :: "hasher \<Rightarrow> bytes" where "hasher_Sum h = sha256 h"

lemmas hasher_defs = sha256_New_def hasher_Write_def hasher_Sum_def

end
