(* ===== verification/Commitments.thy ===== *)
theory Commitments
  imports Transactions Go_Bytes Go_Sha256 Go_Fmt "HOL-Library.Multiset"
begin

text \<open>
  \<open>pkg/sequencing/commitment.go\<close>: the hash commitments to a single order, to one received
  transaction and to an ordered batch.  The theorems separate what the byte encodings
  guarantee from what SHA-256 guarantees: equal commitments mean either equal inputs or an
  explicit pair of different byte strings with the same SHA-256 digest.
\<close>

section \<open>Single-order commitments\<close>

record OrderMetadata =
  OrderID :: string
  User :: string
  Token :: string
  Amount :: float64
  Price :: float64
  Timestamp :: i64
  Nonce :: string

definition order_data :: "OrderMetadata \<Rightarrow> string" where
  "order_data order =
     OrderID order @ ''|'' @ User order @ ''|'' @ Token order @ ''|'' @
     format_f 6 (Amount order) @ ''|'' @ format_f 6 (Price order) @ ''|'' @
     show_int (sint (Timestamp order)) @ ''|'' @ Nonce order"

definition GenerateCommitment :: "OrderMetadata \<Rightarrow> string" where
  "GenerateCommitment order =
     hex_EncodeToString (sha256 (bytes_of_string (order_data order)))"

section \<open>Reception and batch commitments\<close>

record ReceptionProof =
  SequenceID :: u64
  ArrivedUnix :: i64
  Commitment :: string

definition GenerateReceptionCommitment :: "EncryptedTransaction \<Rightarrow> string" where
  "GenerateReceptionCommitment tx =
     (let h = sha256_New;
          h = hasher_Write (PutUint64_le (ID tx)) h;
          h = hasher_Write (PutUint64_le (UnixNano (ArrivedAt tx))) h;
          h = hasher_Write (Ciphertext tx) h
      in hex_EncodeToString (hasher_Sum h))"

fun batch_hash_loop :: "EncryptedTransaction list \<Rightarrow> hasher \<Rightarrow> hasher" where
  "batch_hash_loop [] h = h"
| "batch_hash_loop (tx # batch) h =
     (let h = hasher_Write (PutUint64_le (ID tx)) h;
          h = hasher_Write (PutUint64_le (UnixNano (ArrivedAt tx))) h;
          h = hasher_Write (Ciphertext tx) h
      in batch_hash_loop batch h)"

definition GenerateBatchCommitment :: "EncryptedTransaction list \<Rightarrow> string" where
  "GenerateBatchCommitment batch =
     hex_EncodeToString (hasher_Sum (batch_hash_loop batch sha256_New))"

section \<open>What is hashed\<close>

text \<open>The bytes one transaction contributes, and the bytes of a batch.\<close>

definition tx_encoding :: "EncryptedTransaction \<Rightarrow> bytes" where
  "tx_encoding tx = PutUint64_le (ID tx) @ PutUint64_le (UnixNano (ArrivedAt tx)) @ Ciphertext tx"

definition batch_encoding :: "EncryptedTransaction list \<Rightarrow> bytes" where
  "batch_encoding batch = concat (map tx_encoding batch)"

text \<open>What a commitment can see of a transaction: instants count modulo \<open>2 ^ 64\<close> ns.\<close>

definition tx_view :: "EncryptedTransaction \<Rightarrow> u64 \<times> i64 \<times> bytes" where
  "tx_view tx = (ID tx, UnixNano (ArrivedAt tx), Ciphertext tx)"

definition sha256_collision :: "bytes \<Rightarrow> bytes \<Rightarrow> bool" where
  "sha256_collision x y \<longleftrightarrow> x \<noteq> y \<and> sha256 x = sha256 y"

lemma batch_hash_loop_append: "batch_hash_loop batch h = h @ batch_encoding batch"
  by (induction batch arbitrary: h)
    (simp_all add: Let_def hasher_defs batch_encoding_def tx_encoding_def)

lemma GenerateBatchCommitment_encoding:
  "GenerateBatchCommitment batch = hex_EncodeToString (sha256 (batch_encoding batch))"
  by (simp add: GenerateBatchCommitment_def batch_hash_loop_append hasher_defs)

lemma GenerateReceptionCommitment_encoding:
  "GenerateReceptionCommitment tx = hex_EncodeToString (sha256 (tx_encoding tx))"
  by (simp add: GenerateReceptionCommitment_def Let_def hasher_defs tx_encoding_def)

lemma batch_encoding_Nil [simp]: "batch_encoding [] = []"
  by (simp add: batch_encoding_def)

lemma batch_encoding_Cons [simp]: "batch_encoding (tx # b) = tx_encoding tx @ batch_encoding b"
  by (simp add: batch_encoding_def)

lemma batch_encoding_append [simp]: "batch_encoding (a @ b) = batch_encoding a @ batch_encoding b"
  by (simp add: batch_encoding_def)

lemma tx_encoding_view [codec_simps]: "tx_encoding s = tx_encoding t \<longleftrightarrow> tx_view s = tx_view t"
  by (auto simp: tx_encoding_def tx_view_def)

lemma tx_encoding_append_view:
  assumes "length (Ciphertext s) = length (Ciphertext t)"
  shows "tx_encoding s @ u = tx_encoding t @ v \<longleftrightarrow> tx_view s = tx_view t \<and> u = v"
  using assms by (auto simp: tx_encoding_def tx_view_def)

lemma tx_encoding_append_id: "tx_encoding s @ u = tx_encoding t @ v \<Longrightarrow> ID s = ID t"
  by (simp add: tx_encoding_def)

lemma commitment_eq_iff:
  "x \<noteq> y \<Longrightarrow> hex_EncodeToString (sha256 x) = hex_EncodeToString (sha256 y) \<longleftrightarrow> sha256_collision x y"
  by (auto simp: sha256_collision_def)

lemma batch_encoding_reorder:
  "mset a = mset b \<Longrightarrow> distinct (map ID a) \<Longrightarrow> batch_encoding a = batch_encoding b \<Longrightarrow> a = b"
proof (induction a arbitrary: b)
  case Nil
  then show ?case by simp
next
  case (Cons x a)
  then obtain y b' where b: "b = y # b'" by (cases b) auto
  with Cons.prems have "ID x = ID y" by (auto dest: tx_encoding_append_id)
  moreover from Cons.prems b have "y \<in> set (x # a)" by (metis list.set_intros(1) set_mset_mset)
  ultimately have "x = y" using Cons.prems(2) by (auto simp: image_iff)
  with Cons b show ?case by simp
qed

lemma batch_encoding_fixed_layout:
  "map (length \<circ> Ciphertext) a = map (length \<circ> Ciphertext) b \<Longrightarrow>
   batch_encoding a = batch_encoding b \<longleftrightarrow> map tx_view a = map tx_view b"
proof (induction a arbitrary: b)
  case Nil
  then show ?case by simp
next
  case (Cons x a)
  then show ?case by (cases b) (auto simp: tx_encoding_append_view)
qed

lemma order_data_fields:
  assumes "CHR ''|'' \<notin> set (OrderID a @ User a @ Token a)"
    and "CHR ''|'' \<notin> set (OrderID b @ User b @ Token b)"
    and "order_data a = order_data b"
  shows "OrderID a = OrderID b \<and> User a = User b \<and> Token a = Token b \<and>
    format_f 6 (Amount a) = format_f 6 (Amount b) \<and> format_f 6 (Price a) = format_f 6 (Price b) \<and>
    Timestamp a = Timestamp b \<and> Nonce a = Nonce b"
  using assms by (auto simp: order_data_def separator_split_unique intro: signed_word_eqI)

section \<open>Properties\<close>

text \<open>
  C12: Reordering a batch is always visible.  Two different orderings of the same
  transactions, whose sequence IDs are pairwise different, have different commitments,
  except if (and then exactly if) their two encodings are a SHA-256 collision.
\<close>

theorem batch_commitment_binds_order:
  assumes "mset a = mset b" and "distinct (map ID a)" and "a \<noteq> b"
  shows "GenerateBatchCommitment a = GenerateBatchCommitment b \<longleftrightarrow>
    sha256_collision (batch_encoding a) (batch_encoding b)"
  using assms commitment_eq_iff batch_encoding_reorder
  unfolding GenerateBatchCommitment_encoding by blast

text \<open>
  C13: Tampering with one transaction of a batch (its ID, its timestamp or its ciphertext,
  the rest left in place) changes the commitment, unless the two encodings collide.
\<close>

theorem batch_commitment_binds_each_tx:
  assumes "tx_view s \<noteq> tx_view t"
  shows "GenerateBatchCommitment (pre @ s # post) = GenerateBatchCommitment (pre @ t # post) \<longleftrightarrow>
    sha256_collision (batch_encoding (pre @ s # post)) (batch_encoding (pre @ t # post))"
  using assms commitment_eq_iff [of "batch_encoding (pre @ s # post)" "batch_encoding (pre @ t # post)"]
  by (auto simp: tx_encoding_view GenerateBatchCommitment_encoding)

text \<open>
  The batch commitment does not bind the boundaries between transactions: ciphertexts
  are hashed without their length, so any two consecutive transactions of a batch can be
  merged into one whose ciphertext swallows the second, with the same commitment.
\<close>

lemma batch_commitment_merge_collision:
  "GenerateBatchCommitment (pre @ s # t # post) =
   GenerateBatchCommitment (pre @ s\<lparr>Ciphertext := Ciphertext s @ tx_encoding t\<rparr> # post)"
  by (simp add: GenerateBatchCommitment_encoding tx_encoding_def)

text \<open>
  When the ciphertext lengths agree position by position, two batches that differ in any
  ID, timestamp or ciphertext have different commitments, unless the two encodings collide.
\<close>

lemma batch_commitment_binds_fixed_layout:
  assumes "map (length \<circ> Ciphertext) a = map (length \<circ> Ciphertext) b"
    and "map tx_view a \<noteq> map tx_view b"
  shows "GenerateBatchCommitment a = GenerateBatchCommitment b \<longleftrightarrow>
    sha256_collision (batch_encoding a) (batch_encoding b)"
  using commitment_eq_iff [of "batch_encoding a" "batch_encoding b"]
    batch_encoding_fixed_layout [OF assms(1)] assms(2)
  by (auto simp: GenerateBatchCommitment_encoding)

text \<open>
  A reception commitment determines the sequence ID, the timestamp and the ciphertext it
  acknowledges, unless the two encodings collide; and it is the commitment of the batch that
  holds that transaction alone, so per-transaction proofs and batch roots agree.
\<close>

lemma reception_commitment_binds_tx:
  "(GenerateReceptionCommitment s = GenerateReceptionCommitment t \<longleftrightarrow>
     tx_view s = tx_view t \<or> sha256_collision (tx_encoding s) (tx_encoding t)) \<and>
   GenerateReceptionCommitment s = GenerateBatchCommitment [s]"
proof -
  have "sha256 (tx_encoding s) = sha256 (tx_encoding t) \<longleftrightarrow>
      tx_encoding s = tx_encoding t \<or> sha256_collision (tx_encoding s) (tx_encoding t)"
    by (auto simp: sha256_collision_def)
  then show ?thesis
    by (simp add: GenerateReceptionCommitment_encoding GenerateBatchCommitment_encoding
        tx_encoding_view)
qed

text \<open>
  A single-order commitment binds every field of the order that does not go through
  \<open>%f\<close>, and the six-decimal rendering of the two that do: if two orders differ in one of
  them and no pipe character occurs in their order IDs, users and tokens, their commitments
  differ (unless the two renderings collide).
\<close>

lemma order_commitment_binds_fields:
  assumes "CHR ''|'' \<notin> set (OrderID a @ User a @ Token a)"
    and "CHR ''|'' \<notin> set (OrderID b @ User b @ Token b)"
    and "(OrderID a, User a, Token a, format_f 6 (Amount a), format_f 6 (Price a), Timestamp a, Nonce a)
       \<noteq> (OrderID b, User b, Token b, format_f 6 (Amount b), format_f 6 (Price b), Timestamp b, Nonce b)"
  shows "GenerateCommitment a = GenerateCommitment b \<longleftrightarrow>
    sha256_collision (bytes_of_string (order_data a)) (bytes_of_string (order_data b))"
  using commitment_eq_iff [of "bytes_of_string (order_data a)" "bytes_of_string (order_data b)"]
    order_data_fields [OF assms(1,2)] assms(3)
  by (auto simp: GenerateCommitment_def)

text \<open>
  Without that proviso the pipe-delimited format is ambiguous: moving a pipe between two
  adjacent string fields gives a different order with the same commitment.
\<close>

lemma order_commitment_pipe_ambiguity:
  "GenerateCommitment (order\<lparr>OrderID := x @ ''|'' @ y, User := z\<rparr>) =
   GenerateCommitment (order\<lparr>OrderID := x, User := y @ ''|'' @ z\<rparr>)"
  by (simp add: GenerateCommitment_def order_data_def)

section \<open>Witnesses\<close>

text \<open>Concrete transactions and orders used to instantiate the properties.\<close>

definition tx_alice :: EncryptedTransaction where
  "tx_alice = \<lparr>ID = 1, Ciphertext = [0xAA, 0xBB], ArrivedAt = 1700000000000000000\<rparr>"

definition tx_bob :: EncryptedTransaction where
  "tx_bob = \<lparr>ID = 2, Ciphertext = [0xCC, 0xDD], ArrivedAt = 1700000000000000001\<rparr>"

definition order_sample :: OrderMetadata where
  "order_sample = \<lparr>OrderID = ''12345'', User = ''0xABCDEF'', Token = ''ETH'',
     Amount = 0x4004000000000000, Price = 0x409C200000000000, Timestamp = 1700000000,
     Nonce = ''random|123''\<rparr>"

lemma batch_commitment_binds_order_witness:
  "GenerateBatchCommitment [tx_alice, tx_bob] = GenerateBatchCommitment [tx_bob, tx_alice] \<longleftrightarrow>
   sha256_collision (batch_encoding [tx_alice, tx_bob]) (batch_encoding [tx_bob, tx_alice])"
  by (rule batch_commitment_binds_order) (simp_all add: tx_alice_def tx_bob_def add_mset_commute)

lemma batch_commitment_binds_each_tx_witness:
  "GenerateBatchCommitment ([tx_bob] @ tx_alice # [tx_bob]) =
     GenerateBatchCommitment ([tx_bob] @ tx_alice\<lparr>Ciphertext := [0xAA]\<rparr> # [tx_bob]) \<longleftrightarrow>
   sha256_collision (batch_encoding ([tx_bob] @ tx_alice # [tx_bob]))
     (batch_encoding ([tx_bob] @ tx_alice\<lparr>Ciphertext := [0xAA]\<rparr> # [tx_bob]))"
  by (rule batch_commitment_binds_each_tx) (simp add: tx_view_def tx_alice_def)

end
