(* ===== verification/Privacy_Layer.thy ===== *)
theory Privacy_Layer
  imports SO_Prelude "HOL-Library.Multiset"
begin

text \<open>
  \<open>pkg/privacy\<close> (the cgo wrapper and its stub) together with the C++ functions it calls
  (\<open>cpp/src/privacy/encryption.cpp\<close>, \<open>keygen.cpp\<close>).  libsodium is the record \<open>sodium\<close>; what is
  relied on of sealed boxes is the named hypothesis \<open>sealed_boxes\<close>.  C memory that a call
  leaves allocated is part of its result.
\<close>

section \<open>libsodium\<close>

text \<open>\<open>box_seal\<close> takes the randomness of the ephemeral key; \<open>None\<close> is a nonzero return code.\<close>

record sodium =
  sodium_init :: int
  box_keypair :: "(bytes \<times> bytes) option"
  box_seal :: "nat \<Rightarrow> bytes \<Rightarrow> bytes \<Rightarrow> bytes option"
  box_seal_open :: "bytes \<Rightarrow> bytes \<Rightarrow> bytes \<Rightarrow> bytes option"

abbreviation "PublicKeyBytes \<equiv> 32 :: nat"
abbreviation "SecretKeyBytes \<equiv> 32 :: nat"
abbreviation "SealBytes \<equiv> 48 :: nat"

text \<open>A sealed box opens, under the matching key pair, to what was sealed, and is 48 bytes longer.\<close>

definition sealed_boxes :: "sodium \<Rightarrow> bytes \<Rightarrow> bytes \<Rightarrow> bool" where
  "sealed_boxes lib pub sec \<longleftrightarrow>
     (\<forall>rnd pt ct. box_seal lib rnd pt pub = Some ct \<longrightarrow>
        length ct = length pt + SealBytes \<and> box_seal_open lib ct pub sec = Some pt) \<and>
     (\<forall>ct pt. box_seal_open lib ct pub sec = Some pt \<longrightarrow> length ct = length pt + SealBytes)"

section \<open>The C++ adapter\<close>

abbreviation "SO_SUCCESS \<equiv> 0 :: int"
abbreviation "SO_ERR_BAD_CIPHER \<equiv> - 1 :: int"
abbreviation "SO_ERR_KEY_MISMATCH \<equiv> - 2 :: int"
abbreviation "SO_ERR_INIT_FAILED \<equiv> - 4 :: int"

record DecryptedTx =
  plaintext :: bytes
  dec_length :: nat
  original_index :: u32
  status :: int

definition init_privacy_layer :: "sodium \<Rightarrow> int" where
  "init_privacy_layer lib = (if sodium_init lib < 0 then SO_ERR_INIT_FAILED else SO_SUCCESS)"

definition generate_sequencer_keys :: "sodium \<Rightarrow> int \<times> (bytes \<times> bytes)" where
  "generate_sequencer_keys lib =
     (if sodium_init lib < 0 then (SO_ERR_INIT_FAILED, [], [])
      else (case box_keypair lib of
              None \<Rightarrow> (SO_ERR_KEY_MISMATCH, [], [])
            | Some (pub, sec) \<Rightarrow> (SO_SUCCESS, pub, sec)))"

definition seal_transaction :: "sodium \<Rightarrow> nat \<Rightarrow> bytes \<Rightarrow> bytes \<Rightarrow> int \<times> bytes" where
  "seal_transaction lib rnd pt seq_pub_key =
     (case box_seal lib rnd pt seq_pub_key of None \<Rightarrow> (SO_ERR_BAD_CIPHER, []) | Some ct \<Rightarrow> (SO_SUCCESS, ct))"

definition decrypt_single_tx :: "sodium \<Rightarrow> bytes \<Rightarrow> bytes \<Rightarrow> bytes \<Rightarrow> DecryptedTx \<Rightarrow> int \<times> DecryptedTx" where
  "decrypt_single_tx lib input pub_key priv_key out =
     (if length input < SealBytes
      then (SO_ERR_BAD_CIPHER, out\<lparr>status := SO_ERR_BAD_CIPHER, dec_length := 0\<rparr>)
      else let plaintext_len = length input - SealBytes in
        (case box_seal_open lib input pub_key priv_key of
           None \<Rightarrow> (SO_ERR_KEY_MISMATCH, out\<lparr>status := SO_ERR_KEY_MISMATCH, dec_length := 0\<rparr>)
         | Some pt \<Rightarrow>
             (SO_SUCCESS, out\<lparr>plaintext := pt, dec_length := plaintext_len, status := SO_SUCCESS\<rparr>)))"

text \<open>
  One iteration of the worker lambda of \<open>decrypt_batch_tx\<close>: the outputs and the failure flag.
\<close>

definition batch_item ::
  "sodium \<Rightarrow> bytes \<Rightarrow> bytes \<Rightarrow> bytes list \<Rightarrow> DecryptedTx list \<times> int \<Rightarrow> nat \<Rightarrow> DecryptedTx list \<times> int" where
  "batch_item lib pub_key priv_key inputs st i =
     (let (outputs, any_failure) = st; input = inputs ! i; out = outputs ! i in
      if length input < SealBytes
      then (outputs[i := out\<lparr>status := SO_ERR_BAD_CIPHER, dec_length := 0\<rparr>], SO_ERR_BAD_CIPHER)
      else let plaintext_len = length input - SealBytes in
        (case box_seal_open lib input pub_key priv_key of
           None \<Rightarrow> (outputs[i := out\<lparr>status := SO_ERR_BAD_CIPHER, dec_length := 0\<rparr>], SO_ERR_BAD_CIPHER)
         | Some pt \<Rightarrow>
             (outputs[i := out\<lparr>plaintext := pt, dec_length := plaintext_len, original_index := of_nat i,
                               status := SO_SUCCESS\<rparr>], any_failure)))"

text \<open>
  The index range of thread \<open>t\<close>.  The workers run concurrently: a schedule names the thread that
  handles its next item, and \<open>join\<close> waits for whatever the schedule left undone.  Each worker
  writes only its own outputs; the failure flag is one atomic variable.
\<close>

definition chunk :: "nat \<Rightarrow> nat \<Rightarrow> nat \<Rightarrow> nat list" where
  "chunk chunk_size batch_size t = [t * chunk_size ..< min (t * chunk_size + chunk_size) batch_size]"

definition thread_count :: "nat \<Rightarrow> nat \<Rightarrow> nat" where
  "thread_count hw batch_size = min (if hw = 0 then 2 else hw) batch_size"

fun interleave :: "nat list \<Rightarrow> nat list list \<Rightarrow> nat list" where
  "interleave [] todo = concat todo"
| "interleave (t # sched) todo =
     (if t < length todo
      then (case todo ! t of
              [] \<Rightarrow> interleave sched todo
            | i # is \<Rightarrow> i # interleave sched (todo[t := is]))
      else interleave sched todo)"

text \<open>The call on a machine that reports \<open>hw\<close> hardware threads.\<close>

definition decrypt_batch_tx ::
  "sodium \<Rightarrow> nat \<Rightarrow> nat list \<Rightarrow> bytes list \<Rightarrow> bytes \<Rightarrow> bytes \<Rightarrow> DecryptedTx list \<Rightarrow> int \<times> DecryptedTx list" where
  "decrypt_batch_tx lib hw sched inputs pub_key priv_key outputs =
     (let batch_size = length inputs in
      if batch_size = 0 then (SO_SUCCESS, outputs)
      else let num_threads = thread_count hw batch_size;
               chunk_size = (batch_size + num_threads - 1) div num_threads;
               (outs, any_failure) =
                 foldl (batch_item lib pub_key priv_key inputs) (outputs, SO_SUCCESS)
                   (interleave sched (map (chunk chunk_size batch_size) [0..<num_threads]))
           in (any_failure, outs))"

section \<open>The Go wrapper\<close>

text \<open>\<open>GoBytesPanic\<close> is not an error value: it is the run-time panic of \<open>C.GoBytes\<close>.\<close>

datatype privacy_error =
    InitFailed | KeygenFailed int | EmptyKey | SaveFailed string | BadExpectedLen | LoadFailed string
  | EmptyPlaintext | PublicKeyLength | SecretKeyLength | SealFailed int
  | TooShort | DecryptFailed int int | ItemTooShort nat | BatchFailed "nat list"
  | RequiresCgo | Unavailable | GoBytesPanic

definition privacy_Init :: "sodium \<Rightarrow> privacy_error option" where
  "privacy_Init lib = (if init_privacy_layer lib \<noteq> 0 then Some InitFailed else None)"

definition GenerateSequencerKeys :: "sodium \<Rightarrow> privacy_error + (bytes \<times> bytes)" where
  "GenerateSequencerKeys lib =
     (let (ret, pub, sec) = generate_sequencer_keys lib in
      if ret \<noteq> 0 then Inl (KeygenFailed ret) else Inr (pub, sec))"

definition SealTransaction :: "sodium \<Rightarrow> nat \<Rightarrow> bytes \<Rightarrow> bytes \<Rightarrow> privacy_error + bytes" where
  "SealTransaction lib rnd pt sequencerPubKey =
     (if length pt = 0 then Inl EmptyPlaintext
      else if length sequencerPubKey \<noteq> PublicKeyBytes then Inl PublicKeyLength
      else let (ret, ciphertext) = seal_transaction lib rnd pt sequencerPubKey in
        if ret \<noteq> 0 then Inl (SealFailed ret) else Inr ciphertext)"

text \<open>
  \<open>C.int(n)\<close> of a \<open>size_t\<close> keeps the low 32 bits and reads them as signed; \<open>C.GoBytes(ptr, n)\<close> copies the
  first \<open>n\<close> bytes and panics (\<open>None\<close>) if \<open>n\<close> is negative.
\<close>

definition C_int :: "nat \<Rightarrow> int" where
  "C_int n = sint (word_of_nat n :: 32 word)"

definition GoBytes :: "bytes \<Rightarrow> int \<Rightarrow> bytes option" where
  "GoBytes mem n = (if n < 0 then None else Some (take (nat n) mem))"

definition empty_output :: DecryptedTx where
  "empty_output = \<lparr>plaintext = [], dec_length = 0, original_index = 0, status = 0\<rparr>"

definition DecryptSingle :: "sodium \<Rightarrow> bytes \<Rightarrow> bytes \<Rightarrow> bytes \<Rightarrow> privacy_error + bytes" where
  "DecryptSingle lib ciphertext pubKey secKey =
     (if length ciphertext \<le> SealBytes then Inl TooShort
      else if length pubKey \<noteq> PublicKeyBytes then Inl PublicKeyLength
      else if length secKey \<noteq> SecretKeyBytes then Inl SecretKeyLength
      else let (ret, dec) = decrypt_single_tx lib ciphertext pubKey secKey empty_output in
        if ret \<noteq> 0 \<or> status dec \<noteq> 0 then Inl (DecryptFailed ret (status dec))
        else (case GoBytes (plaintext dec) (C_int (dec_length dec)) of
                None \<Rightarrow> Inl GoBytesPanic
              | Some pt \<Rightarrow> Inr pt))"

text \<open>
  The allocation loop of \<open>DecryptBatch\<close>: a ciphertext shorter than a seal ends the call before
  the deferred cleanup of the per-item buffers is registered; \<open>Some i\<close> is the index of that
  ciphertext, two buffers per earlier item being allocated.
\<close>

fun alloc_loop :: "nat \<Rightarrow> bytes list \<Rightarrow> nat option" where
  "alloc_loop i [] = None"
| "alloc_loop i (ct # cts) = (if length ct < SealBytes then Some i else alloc_loop (Suc i) cts)"

text \<open>The loop that builds the output; a panic in it leaves the function, \<open>None\<close>.\<close>

fun collect_output :: "nat \<Rightarrow> DecryptedTx list \<Rightarrow> (bytes list \<times> nat list) option" where
  "collect_output i [] = Some ([], [])"
| "collect_output i (d # ds) =
     (if status d \<noteq> 0
      then map_option (\<lambda>(out, errIdx). ([] # out, i # errIdx)) (collect_output (Suc i) ds)
      else (case GoBytes (plaintext d) (C_int (dec_length d)) of
              None \<Rightarrow> None
            | Some pt \<Rightarrow> map_option (\<lambda>(out, errIdx). (pt # out, errIdx)) (collect_output (Suc i) ds)))"

text \<open>
  The result of the call and the number of C buffers it leaves allocated.  cgo's \<open>C.malloc\<close> and
  \<open>C.CBytes\<close> never return \<open>nil\<close> (the program crashes instead), so the checks for it are dead.  The
  deferred cleanup also runs when the last loop panics.
\<close>

definition DecryptBatch ::
  "sodium \<Rightarrow> nat \<Rightarrow> nat list \<Rightarrow> bytes list \<Rightarrow> bytes \<Rightarrow> bytes \<Rightarrow> (privacy_error + bytes list) \<times> nat" where
  "DecryptBatch lib hw sched ciphertexts pubKey secKey =
     (if length pubKey \<noteq> PublicKeyBytes then (Inl PublicKeyLength, 0)
      else if length secKey \<noteq> SecretKeyBytes then (Inl SecretKeyLength, 0)
      else if length ciphertexts = 0 then (Inr [], 0)
      else (case alloc_loop 0 ciphertexts of
              Some i \<Rightarrow> (Inl (ItemTooShort i), 2 * i)
            | None \<Rightarrow>
               (let (ret, dec) = decrypt_batch_tx lib hw sched ciphertexts pubKey secKey
                                   (replicate (length ciphertexts) empty_output)
                in case collect_output 0 dec of
                     None \<Rightarrow> (Inl GoBytesPanic, 0)
                   | Some (out, errIdx) \<Rightarrow>
                       if ret \<noteq> 0 \<or> length errIdx > 0 then (Inl (BatchFailed errIdx), 0) else (Inr out, 0))))"

text \<open>The stub of builds without cgo refuses every operation.\<close>

definition stub_Init :: "privacy_error option" where
  "stub_Init = Some RequiresCgo"

definition stub_GenerateSequencerKeys :: "privacy_error + (bytes \<times> bytes)" where
  "stub_GenerateSequencerKeys = Inl Unavailable"

definition stub_SaveKeyToFile :: "string \<Rightarrow> bytes \<Rightarrow> privacy_error option" where
  "stub_SaveKeyToFile path key = Some Unavailable"

definition stub_LoadKeyFromFile :: "string \<Rightarrow> int \<Rightarrow> privacy_error + bytes" where
  "stub_LoadKeyFromFile path expectedLen = Inl Unavailable"

definition stub_SealTransaction :: "bytes \<Rightarrow> bytes \<Rightarrow> privacy_error + bytes" where
  "stub_SealTransaction pt sequencerPubKey = Inl Unavailable"

definition stub_DecryptSingle :: "bytes \<Rightarrow> bytes \<Rightarrow> bytes \<Rightarrow> privacy_error + bytes" where
  "stub_DecryptSingle ciphertext pubKey secKey = Inl Unavailable"

definition stub_DecryptBatch :: "bytes list \<Rightarrow> bytes \<Rightarrow> bytes \<Rightarrow> privacy_error + bytes list" where
  "stub_DecryptBatch ciphertexts pubKey secKey = Inl Unavailable"

section \<open>What is sealed can be read\<close>

lemma C_int_fits: "len < 2 ^ 31 \<Longrightarrow> C_int len = int len"
  by (simp add: C_int_def signed_of_nat signed_take_bit_int_eq_self)

lemma C_int_negative:
  assumes "2 ^ 31 \<le> n" and "n < 2 ^ 32"
  shows "C_int n < 0"
proof -
  have "(int n + 2147483648) mod 4294967296 = (int n - 2147483648 + 4294967296) mod 4294967296" by (simp add: add.commute)
  also have "\<dots> = int n - 2147483648" unfolding mod_add_self2 using assms by (intro mod_pos_pos_trivial) simp_all
  finally show ?thesis
    using assms by (simp add: C_int_def signed_of_nat signed_take_bit_eq_take_bit_shift take_bit_int_def)
qed

lemma GoBytes_fits: "len < 2 ^ 31 \<Longrightarrow> GoBytes mem (C_int len) = Some (take len mem)"
  by (simp add: GoBytes_def C_int_fits)

text \<open>A plaintext of two to four gigabytes is not returned: the conversion makes its length negative.\<close>

lemma DecryptSingle_panics:
  assumes "length pub = PublicKeyBytes" and "length sec = SecretKeyBytes" and "box_seal_open lib ct pub sec = Some pt"
    and "length ct = SealBytes + n" and "2 ^ 31 \<le> n" and "n < 2 ^ 32"
  shows "DecryptSingle lib ct pub sec = Inl GoBytesPanic"
proof -
  have "C_int n < 0" using assms(5,6) by (rule C_int_negative)
  with assms show ?thesis
    by (simp add: DecryptSingle_def decrypt_single_tx_def Let_def empty_output_def GoBytes_def)
qed

lemma SealTransaction_opens:
  assumes "SealTransaction lib rnd pt pub = Inr ct" and "sealed_boxes lib pub sec" and "length sec = SecretKeyBytes"
    and "length pt < 2 ^ 31"
  shows "DecryptSingle lib ct pub sec = Inr pt \<and> length ct = length pt + SealBytes"
proof -
  from assms(1,2) have "length pub = PublicKeyBytes" "pt \<noteq> []" "length ct = length pt + SealBytes"
    "box_seal_open lib ct pub sec = Some pt"
    by (auto simp: SealTransaction_def seal_transaction_def sealed_boxes_def split: if_splits option.splits)
  with assms(3,4) show ?thesis
    by (simp add: DecryptSingle_def decrypt_single_tx_def Let_def empty_output_def GoBytes_fits)
qed

section \<open>The chunks cover the batch\<close>

lemma chunks_prefix:
  "concat (map (chunk c n) [0..<k]) = [0..<min (k * c) n]"
proof (induction k)
  case (Suc k)
  have "[0..<min (k * c) n] @ [k * c..<min (k * c + c) n] = [0..<min (k * c + c) n]"
  proof (cases "k * c \<le> n")
    case True
    then have "k * c + (min (k * c + c) n - k * c) = min (k * c + c) n" by simp
    with True show ?thesis
      using upt_add_eq_append [of 0 "k * c" "min (k * c + c) n - k * c"] by (simp add: min_absorb1)
  qed simp
  with Suc show ?case by (simp add: chunk_def add.commute)
qed simp

lemma chunks_cover:
  assumes "0 < n"
  shows "concat (map (chunk ((n + thread_count hw n - 1) div thread_count hw n) n) [0..<thread_count hw n]) = [0..<n]"
proof -
  let ?t = "thread_count hw n"
  have t: "0 < ?t" using assms by (simp add: thread_count_def)
  have "n \<le> ?t * ((n + ?t - 1) div ?t)"
    using t dividend_less_times_div [of ?t "n + ?t - 1"] by simp
  then show ?thesis by (simp add: chunks_prefix min_def)
qed

section \<open>Batch decryption is decryption of each item\<close>

text \<open>The output of item \<open>i\<close>, as a function of its input alone.\<close>

definition item_output :: "sodium \<Rightarrow> bytes \<Rightarrow> bytes \<Rightarrow> bytes list \<Rightarrow> nat \<Rightarrow> DecryptedTx" where
  "item_output lib pub sec inputs i =
     (case box_seal_open lib (inputs ! i) pub sec of
        Some pt \<Rightarrow> empty_output\<lparr>plaintext := pt, dec_length := length (inputs ! i) - SealBytes,
                      original_index := of_nat i, status := SO_SUCCESS\<rparr>
      | None \<Rightarrow> empty_output\<lparr>status := SO_ERR_BAD_CIPHER, dec_length := 0\<rparr>)"

definition opens :: "sodium \<Rightarrow> bytes \<Rightarrow> bytes \<Rightarrow> bytes \<Rightarrow> bool" where
  "opens lib pub sec ct \<longleftrightarrow> box_seal_open lib ct pub sec \<noteq> None"

text \<open>Whatever the order, every index is handled once and no other output is touched.\<close>

lemma batch_items_any_order:
  assumes "\<And>ct. ct \<in> set inputs \<Longrightarrow> SealBytes \<le> length ct"
    and "distinct is" and "set is \<subseteq> {..<length inputs}" and "length outs = length inputs"
    and "\<And>i. i \<in> set is \<Longrightarrow> outs ! i = empty_output"
  shows "foldl (batch_item lib pub sec inputs) (outs, flag) is =
    (map (\<lambda>i. if i \<in> set is then item_output lib pub sec inputs i else outs ! i) [0..<length inputs],
     if \<forall>i \<in> set is. opens lib pub sec (inputs ! i) then flag else SO_ERR_BAD_CIPHER)"
  using assms(2-5)
proof (induction "is" arbitrary: outs flag)
  case Nil
  then show ?case by simp (metis map_nth)
next
  case (Cons i "is")
  then have i: "i < length inputs" "outs ! i = empty_output" by auto
  have "\<not> length (inputs ! i) < SealBytes" using assms(1) i by (simp add: not_less)
  with i have "batch_item lib pub sec inputs (outs, flag) i =
      (outs[i := item_output lib pub sec inputs i],
       if opens lib pub sec (inputs ! i) then flag else SO_ERR_BAD_CIPHER)"
    by (simp add: batch_item_def item_output_def opens_def Let_def split: option.split)
  moreover have "outs[i := x] ! j = empty_output" if "j \<in> set is" for j x
    using Cons.prems that by (metis distinct.simps(2) list.set_intros(2) nth_list_update_neq)
  moreover have "outs[i := x] ! j = (if j = i then x else outs ! j)" if "j < length inputs" for j x
    using that Cons.prems by (simp add: nth_list_update)
  ultimately show ?case using Cons by (auto simp: Cons.IH)
qed

lemma interleave_mset: "mset (interleave sched todo) = mset (concat todo)"
proof (induction sched todo rule: interleave.induct)
  case (2 t sched todo)
  show ?case
  proof (cases "t < length todo \<and> todo ! t \<noteq> []")
    case True
    then obtain i "is" where at: "todo ! t = i # is" by (cases "todo ! t") auto
    have "todo = take t todo @ (i # is) # drop (Suc t) todo"
      using id_take_nth_drop [of t todo] True at by simp
    from arg_cong [OF this, of "\<lambda>x. mset (concat x)"]
    have "mset (concat todo) = mset (concat (take t todo @ (i # is) # drop (Suc t) todo))" .
    also have "\<dots> = add_mset i (mset (concat (todo[t := is])))"
      using True by (simp add: upd_conv_take_nth_drop)
    also have "\<dots> = mset (interleave (t # sched) todo)"
      using True at "2.IH"(2) by simp
    finally show ?thesis ..
  next
    case False
    with 2 show ?thesis by (auto split: list.split)
  qed
qed simp

lemma collect_output_map:
  assumes "\<And>i. a \<le> i \<Longrightarrow> i < b \<Longrightarrow> status (f i) = 0 \<Longrightarrow> dec_length (f i) < 2 ^ 31"
  shows "collect_output j (map f [a..<b]) = Some
     (map (\<lambda>i. if status (f i) \<noteq> 0 then [] else take (dec_length (f i)) (plaintext (f i))) [a..<b],
      map (\<lambda>i. i - a + j) (filter (\<lambda>i. status (f i) \<noteq> 0) [a..<b]))"
  using assms
proof (induction "b - a" arbitrary: a j)
  case (Suc n)
  then have ab: "a < b" by simp
  have "map (\<lambda>i. i - Suc a + Suc j) (filter P [Suc a..<b]) = map (\<lambda>i. i - a + j) (filter P [Suc a..<b])" for P
    by (rule map_cong [OF refl]) auto
  moreover have "GoBytes (plaintext (f a)) (C_int (dec_length (f a))) = Some (take (dec_length (f a)) (plaintext (f a)))"
    if "status (f a) = 0"
    using that Suc.prems ab by (intro GoBytes_fits) simp
  ultimately show ?case using Suc.hyps(1) [of "Suc a" "Suc j"] Suc.hyps(2) Suc.prems ab
    by (auto simp: upt_conv_Cons Let_def)
qed simp

lemma alloc_loop_None: "alloc_loop i cts = None \<longleftrightarrow> (\<forall>ct \<in> set cts. SealBytes \<le> length ct)"
  by (induction cts arbitrary: i) auto

lemma alloc_loop_Some:
  "alloc_loop i cts = Some j \<Longrightarrow>
     i \<le> j \<and> j - i < length cts \<and> length (cts ! (j - i)) < SealBytes \<and> (\<forall>k < j - i. SealBytes \<le> length (cts ! k))"
proof (induction cts arbitrary: i)
  case (Cons ct cts)
  show ?case
  proof (cases "length ct < SealBytes")
    case True
    with Cons.prems show ?thesis by simp
  next
    case False
    with Cons.prems have "alloc_loop (Suc i) cts = Some j" by simp
    from Cons.IH [OF this] False show ?thesis
      by (auto simp: nth_Cons less_Suc_eq_0_disj Suc_diff_Suc split: nat.splits)
        (metis Suc_diff_Suc Suc_le_eq less_Suc_eq_0_disj nth_Cons_Suc not_less_eq Suc_less_eq)+
  qed
qed simp

lemma decrypt_batch_items:
  assumes "inputs \<noteq> []" and "\<And>ct. ct \<in> set inputs \<Longrightarrow> SealBytes \<le> length ct"
  shows "decrypt_batch_tx lib hw sched inputs pub sec (replicate (length inputs) empty_output) =
    (if \<forall>ct \<in> set inputs. opens lib pub sec ct then SO_SUCCESS else SO_ERR_BAD_CIPHER,
     map (item_output lib pub sec inputs) [0..<length inputs])"
proof -
  let ?n = "length inputs"
  define ord where "ord = interleave sched
    (map (chunk ((?n + thread_count hw ?n - 1) div thread_count hw ?n) ?n) [0..<thread_count hw ?n])"
  have "mset ord = mset [0..<?n]"
    unfolding ord_def interleave_mset by (subst chunks_cover) (use assms(1) in simp_all)
  then have ord: "distinct ord" "set ord = {0..<?n}"
    by (metis distinct_upt mset_eq_imp_distinct_iff, metis mset_eq_setD set_upt)
  have "foldl (batch_item lib pub sec inputs) (replicate ?n empty_output, SO_SUCCESS) ord =
    (map (\<lambda>i. if i \<in> set ord then item_output lib pub sec inputs i else replicate ?n empty_output ! i) [0..<?n],
     if \<forall>i \<in> set ord. opens lib pub sec (inputs ! i) then SO_SUCCESS else SO_ERR_BAD_CIPHER)"
    by (rule batch_items_any_order [OF assms(2) ord(1)]) (auto simp: ord(2))
  moreover have "map (\<lambda>i. if i \<in> set ord then item_output lib pub sec inputs i
      else replicate ?n empty_output ! i) [0..<?n] = map (item_output lib pub sec inputs) [0..<?n]"
    by (rule map_cong [OF refl]) (auto simp: ord(2))
  moreover have "(\<forall>i \<in> set ord. opens lib pub sec (inputs ! i)) \<longleftrightarrow> (\<forall>ct \<in> set inputs. opens lib pub sec ct)"
    unfolding ord(2) by (auto simp: all_set_conv_all_nth)
  ultimately have "foldl (batch_item lib pub sec inputs) (replicate ?n empty_output, SO_SUCCESS) ord =
    (map (item_output lib pub sec inputs) [0..<?n],
     if \<forall>ct \<in> set inputs. opens lib pub sec ct then SO_SUCCESS else SO_ERR_BAD_CIPHER)"
    by simp
  with assms(1) show ?thesis unfolding decrypt_batch_tx_def ord_def by (simp add: Let_def)
qed

lemma DecryptBatch_items:
  assumes "length pub = PublicKeyBytes" and "length sec = SecretKeyBytes"
    and "list_all (\<lambda>ct. SealBytes \<le> length ct) cts" and "sealed_boxes lib pub sec"
    and "list_all (\<lambda>ct. length ct < SealBytes + 2 ^ 31) cts"
  shows "DecryptBatch lib hw sched cts pub sec =
    (if list_all (opens lib pub sec) cts
     then Inr (map (\<lambda>ct. the (box_seal_open lib ct pub sec)) cts)
     else Inl (BatchFailed (filter (\<lambda>i. \<not> opens lib pub sec (cts ! i)) [0..<length cts])), 0)"
proof (cases "cts = []")
  case True
  with assms show ?thesis by (simp add: DecryptBatch_def)
next
  case False
  let ?f = "item_output lib pub sec cts"
  have st: "status (?f i) \<noteq> 0 \<longleftrightarrow> \<not> opens lib pub sec (cts ! i)" for i
    by (auto simp: item_output_def opens_def split: option.splits)
  have pt: "take (dec_length (?f i)) (plaintext (?f i)) = the (box_seal_open lib (cts ! i) pub sec)"
    if "opens lib pub sec (cts ! i)" for i
    using that assms(4) by (auto simp: item_output_def opens_def sealed_boxes_def)
  have "map (\<lambda>i. if status (?f i) \<noteq> 0 then [] else take (dec_length (?f i)) (plaintext (?f i))) [0..<length cts] =
      map (\<lambda>ct. the (box_seal_open lib ct pub sec)) cts" if "list_all (opens lib pub sec) cts"
    using that st pt by (intro nth_equalityI) (auto simp: list_all_length)
  moreover have "decrypt_batch_tx lib hw sched cts pub sec (replicate (length cts) empty_output) =
    (if list_all (opens lib pub sec) cts then SO_SUCCESS else SO_ERR_BAD_CIPHER, map ?f [0..<length cts])"
    using decrypt_batch_items [OF False, of lib hw sched pub sec] assms(3) by (simp add: list_all_iff)
  moreover have "alloc_loop 0 cts = None" using assms(3) by (simp add: alloc_loop_None list_all_iff)
  moreover have "filter (\<lambda>i. \<not> opens lib pub sec (cts ! i)) [0..<length cts] = []
      \<longleftrightarrow> list_all (opens lib pub sec) cts"
    by (auto simp: filter_empty_conv list_all_length)
  moreover have "dec_length (?f i) < 2 ^ 31" if "i < length cts" for i
    using that assms(5) by (auto simp: item_output_def empty_output_def list_all_length split: option.split)
  then have "collect_output 0 (map ?f [0..<length cts]) = Some
     (map (\<lambda>i. if status (?f i) \<noteq> 0 then [] else take (dec_length (?f i)) (plaintext (?f i))) [0..<length cts],
      filter (\<lambda>i. status (?f i) \<noteq> 0) [0..<length cts])"
    by (subst collect_output_map) simp_all
  ultimately show ?thesis
    using False assms(1,2) st by (simp add: DecryptBatch_def)
qed

text \<open>A transparent box of the right length, to exhibit the hypotheses.\<close>

definition glass_sodium :: sodium where
  "glass_sodium = \<lparr>sodium_init = 0, box_keypair = Some (replicate 32 1, replicate 32 2),
     box_seal = (\<lambda>rnd pt pub. Some (replicate 48 0 @ pt)),
     box_seal_open = (\<lambda>ct pub sec. if 48 \<le> length ct \<and> take 48 ct = replicate 48 0 then Some (drop 48 ct) else None)\<rparr>"

lemma glass_sealed: "sealed_boxes glass_sodium pub sec"
  by (auto simp: sealed_boxes_def glass_sodium_def)

lemma glass_start:
  "privacy_Init glass_sodium = None" "GenerateSequencerKeys glass_sodium = Inr (replicate 32 1, replicate 32 2)"
  by (simp_all add: privacy_Init_def init_privacy_layer_def GenerateSequencerKeys_def generate_sequencer_keys_def glass_sodium_def)

text \<open>
  C10: \<open>DecryptBatch\<close>, with its division of the batch among any number of C++ threads under any schedule, is
  decryption of each item in order.  With keys of the right length, and if every ciphertext is at least
  a seal long and its plaintext shorter than \<open>2^31\<close> bytes, it returns all plaintexts when all open; if
  some do not, it returns no plaintext at all but an error that names exactly their indices (the
  comment on the function promises the other plaintexts as well).  It leaves no C memory allocated.
\<close>

theorem DecryptBatch_itemwise:
  assumes "length pub = PublicKeyBytes" and "length sec = SecretKeyBytes"
    and "list_all (\<lambda>ct. SealBytes \<le> length ct) cts" and "sealed_boxes lib pub sec"
    and "list_all (\<lambda>ct. length ct < SealBytes + 2 ^ 31) cts"
  shows "DecryptBatch lib hw sched cts pub sec =
    (if list_all (opens lib pub sec) cts
     then Inr (map (\<lambda>ct. the (box_seal_open lib ct pub sec)) cts)
     else Inl (BatchFailed (filter (\<lambda>i. \<not> opens lib pub sec (cts ! i)) [0..<length cts])), 0)"
  by (rule DecryptBatch_items [OF assms])

theorem DecryptBatch_itemwise_witness:
  "DecryptBatch glass_sodium 4 [0, 1, 0] [replicate 48 0 @ [7], replicate 50 1] (replicate 32 1) (replicate 32 2) =
     (Inl (BatchFailed [1]), 0)"
  using DecryptBatch_itemwise [of "replicate 32 1" "replicate 32 2" "[replicate 48 0 @ [7], replicate 50 1]"
      glass_sodium 4 "[0, 1, 0]"] glass_sealed [of "replicate 32 1" "replicate 32 2"]
  by (simp add: opens_def glass_sodium_def)

text \<open>
  C25: what a client seals, the sequencer opens: every plaintext of fewer than \<open>2^31\<close> bytes sealed with the
  public key by \<open>SealTransaction\<close> comes back from \<open>DecryptSingle\<close> and, if all of a batch are that short, at its
  position from \<open>DecryptBatch\<close>.  (Longer ones are lost to the conversion \<open>C.int(dec.length)\<close>.)
\<close>

theorem seal_decrypt_roundtrip:
  assumes "sealed_boxes lib pub sec" and "length sec = SecretKeyBytes"
    and "list_all2 (\<lambda>(rnd, pt) ct. SealTransaction lib rnd pt pub = Inr ct) rpts cts"
    and "list_all (\<lambda>(rnd, pt). length pt < 2 ^ 31) rpts"
  shows "list_all2 (\<lambda>(rnd, pt) ct. DecryptSingle lib ct pub sec = Inr pt) rpts cts \<and>
    (cts \<noteq> [] \<longrightarrow> DecryptBatch lib hw sched cts pub sec = (Inr (map snd rpts), 0))"
proof -
  have one: "length pub = PublicKeyBytes \<and> length ct = length pt + SealBytes \<and> pt \<noteq> [] \<and>
      box_seal_open lib ct pub sec = Some pt"
    if "SealTransaction lib rnd pt pub = Inr ct" for rnd pt ct
    using that assms(1)
    by (auto simp: SealTransaction_def seal_transaction_def sealed_boxes_def
        split: if_splits option.splits)
  have at: "length pub = PublicKeyBytes \<and> length (cts ! i) = length (snd (rpts ! i)) + SealBytes \<and>
      box_seal_open lib (cts ! i) pub sec = Some (snd (rpts ! i)) \<and> length (snd (rpts ! i)) < 2 ^ 31 \<and>
      SealTransaction lib (fst (rpts ! i)) (snd (rpts ! i)) pub = Inr (cts ! i)" if "i < length cts" for i
    using list_all2_nthD2 [OF assms(3) that] list_all2_lengthD [OF assms(3)] one assms(4) that
    by (auto simp: list_all_length split: prod.splits)
  then have "DecryptSingle lib (cts ! i) pub sec = Inr (snd (rpts ! i))" if "i < length cts" for i
    using that SealTransaction_opens [OF _ assms(1,2)] by blast
  then have "list_all2 (\<lambda>(rnd, pt) ct. DecryptSingle lib ct pub sec = Inr pt) rpts cts"
    using list_all2_lengthD [OF assms(3)] by (simp add: list_all2_conv_all_nth case_prod_unfold)
  moreover have "DecryptBatch lib hw sched cts pub sec = (Inr (map snd rpts), 0)" if "cts \<noteq> []"
  proof -
    from at [of 0] \<open>cts \<noteq> []\<close> have "length pub = PublicKeyBytes" by simp
    moreover have "map (\<lambda>ct. the (box_seal_open lib ct pub sec)) cts = map snd rpts"
      using at list_all2_lengthD [OF assms(3)] by (intro nth_equalityI) auto
    moreover have "list_all (\<lambda>ct. SealBytes \<le> length ct) cts" "list_all (\<lambda>ct. length ct < SealBytes + 2 ^ 31) cts"
      "list_all (opens lib pub sec) cts"
      using at by (simp_all add: list_all_length opens_def)
    ultimately show ?thesis
      using DecryptBatch_items [OF _ assms(2) _ assms(1), of cts hw sched] by simp
  qed
  ultimately show ?thesis by blast
qed

theorem seal_decrypt_roundtrip_witness:
  "DecryptBatch glass_sodium 4 [0, 1, 0] [replicate 48 0 @ [7]] (replicate 32 1) (replicate 32 2) = (Inr [[7]], 0)"
  using seal_decrypt_roundtrip [of glass_sodium "replicate 32 1" "replicate 32 2" "[(0, [7])]"
      "[replicate 48 0 @ [7]]" 4 "[0, 1, 0]"] glass_sealed [of "replicate 32 1" "replicate 32 2"]
  by (simp add: SealTransaction_def seal_transaction_def glass_sodium_def)

text \<open>
  One ciphertext shorter than a seal makes the whole batch fail, and the call then leaks
  two C buffers for every ciphertext before it: the early return precedes the deferred cleanup.
\<close>

lemma DecryptBatch_leak:
  assumes "length pub = PublicKeyBytes" and "length sec = SecretKeyBytes"
    and "list_all (\<lambda>ct. SealBytes \<le> length ct) good" and "length bad < SealBytes"
  shows "DecryptBatch lib hw sched (good @ bad # rest) pub sec = (Inl (ItemTooShort (length good)), 2 * length good)"
proof -
  have "alloc_loop i (good @ bad # rest) = Some (i + length good)" for i
    using assms(3,4) by (induction good arbitrary: i) auto
  with assms(1,2) show ?thesis by (simp add: DecryptBatch_def)
qed

end
