(* ===== verification/Sequencer_Pipeline.thy ===== *)
theory Sequencer_Pipeline
  imports Log_Consumers Encrypted_Mempool Commitments Privacy_Layer
begin

text \<open>
  \<open>cmd/sequencer/main.go\<close>, the two long-running goroutines: the collector, which moves committed
  transactions from the ordered log into the mempool one by one, and the batch processor, which
  waits for 1000 of them, commits to their order, has the commitment published and reveals them.
  They run concurrently with the ordered log and with each other; a run is any interleaving.
\<close>

section \<open>The ordered log, as the pipeline sees it\<close>

text \<open>
  \<open>ops_drain1\<close> is the collector's call of \<open>DrainWait(ctx, 1)\<close>, \<open>ops_cancel\<close> the effect of
  \<open>cancel()\<close> on the log, \<open>ops_calls\<close> recognises calls of \<open>Drain\<close> and \<open>DrainWait\<close>: in this
  program only the collector makes them.
\<close>

record ('a, 's) log_ops =
  ops_step :: "'a \<Rightarrow> 's \<Rightarrow> ('s \<times> log_event list) option"
  ops_calls :: "'a \<Rightarrow> bool"
  ops_drain1 :: "'a"
  ops_cancel :: "'a"

definition queue_ops :: "(queue_action, queue_world) log_ops" where
  "queue_ops = \<lparr>ops_step = queue_step, ops_calls = queue_calls,
     ops_drain1 = Consumer (CallDrainWait 0 0 1), ops_cancel = CtxCancel 0 Canceled\<rparr>"

definition raft_ops :: "(raft_action, raft_world) log_ops" where
  "raft_ops = \<lparr>ops_step = raft_step, ops_calls = raft_calls,
     ops_drain1 = RaftConsumer (RaftCallDrainWait 0 0 1), ops_cancel = RaftCtxCancel 0 Canceled\<rparr>"

section \<open>Revealing a batch\<close>

text \<open>The keys and the library, and whether the log is a \<open>RaftOrderedLog\<close>.\<close>

record reveal_config =
  rc_sodium :: sodium
  rc_pubKey :: bytes
  rc_secKey :: bytes
  rc_is_raft :: bool

text \<open>
  What the processor reports: the batch decrypted in one call, or, after falling back to one
  call per item, the IDs of the transactions that could not be decrypted.  \<open>RevealPanicked\<close> is no report:
  a decryption panicked, which ends the process.  That takes a ciphertext of more than two gigabytes
  (\<open>reveal_no_panic\<close>); gRPC servers refuse messages above four megabytes unless told otherwise, and this
  one is not.
\<close>

datatype reveal_report = BatchDecrypted nat | ItemsFailed "u64 list" | RevealPanicked

definition reveal_batch ::
  "reveal_config \<Rightarrow> nat \<Rightarrow> nat list \<Rightarrow> EncryptedTransaction list \<Rightarrow> reveal_report" where
  "reveal_batch cfg hw sched batch =
     (let single = (\<lambda>tx. DecryptSingle (rc_sodium cfg) (Ciphertext tx) (rc_pubKey cfg) (rc_secKey cfg)) in
      case fst (DecryptBatch (rc_sodium cfg) hw sched (map Ciphertext batch) (rc_pubKey cfg) (rc_secKey cfg)) of
        Inr _ \<Rightarrow> BatchDecrypted (length batch)
      | Inl err \<Rightarrow>
          if err = GoBytesPanic \<or> list_ex (\<lambda>tx. single tx = Inl GoBytesPanic) batch then RevealPanicked
          else ItemsFailed (map ID (filter (\<lambda>tx. (case single tx of Inl _ \<Rightarrow> True | Inr _ \<Rightarrow> False)) batch)))"

section \<open>The goroutines\<close>

datatype coll_pc = CollReady | CollInCall | CollHolding "EncryptedTransaction list" | CollStopped

datatype bat_pc = BatSelect | BatRound | BatWaiting | BatHave "EncryptedTransaction list" | BatExited

record 's pipe_world =
  p_log :: 's
  coll :: coll_pc
  pool :: EncryptedMempool
  bat :: bat_pc
  p_cancelled :: bool

definition pipe_init :: "'s \<Rightarrow> 's pipe_world" where
  "pipe_init l = \<lparr>p_log = l, coll = CollReady, pool = NewEncryptedMempool 1024, bat = BatSelect, p_cancelled = False\<rparr>"

text \<open>A processed batch, its commitment, whether a publication was started, and the report.\<close>

datatype pipe_event = PLog log_event | PBatch "EncryptedTransaction list" string bool reveal_report

datatype 'a pipe_action =
    LogAct 'a | CollCall | CollAdd
  | BatStart | BatTry | BatTick | BatCtxDone | BatProcess bool nat "nat list"
  | MainCancel

text \<open>The return of the collector's call: an error ends it, whatever else was returned.\<close>

definition coll_return :: "log_event list \<Rightarrow> coll_pc \<Rightarrow> coll_pc" where
  "coll_return es pc =
     (case (pc, returns 0 es) of
        (CollInCall, (txs, err) # _) \<Rightarrow> (if err \<noteq> None then CollStopped else CollHolding txs)
      | _ \<Rightarrow> pc)"

definition log_moves :: "'s pipe_world \<Rightarrow> 's \<times> log_event list \<Rightarrow> 's pipe_world \<times> pipe_event list" where
  "log_moves w r = (case r of (s', es) \<Rightarrow> (w\<lparr>p_log := s', coll := coll_return es (coll w)\<rparr>, map PLog es))"

fun collector_step ::
  "('a, 's) log_ops \<Rightarrow> 'a pipe_action \<Rightarrow> 's pipe_world \<Rightarrow> ('s pipe_world \<times> pipe_event list) option" where
  "collector_step ops CollCall w =
     (if coll w = CollReady
      then map_option (\<lambda>r. log_moves (w\<lparr>coll := CollInCall\<rparr>) r) (ops_step ops (ops_drain1 ops) (p_log w))
      else None)"
| "collector_step ops CollAdd w =
     (case coll w of
        CollHolding (tx # txs) \<Rightarrow> Some (w\<lparr>pool := mempool_Add tx (pool w), coll := CollHolding txs\<rparr>, [])
      | CollHolding [] \<Rightarrow> Some (w\<lparr>coll := CollReady\<rparr>, [])
      | _ \<Rightarrow> None)"
| "collector_step ops _ w = None"

definition batchSize :: int where "batchSize = 1000"

text \<open>
  \<open>BatTry\<close> is one round of \<open>mempool.DrainWait\<close> under its lock, \<open>BatTick\<close> and \<open>BatCtxDone\<close> the
  two branches of its \<open>select\<close>.  Only a leader, or a local log, publishes.
\<close>

fun batch_step ::
  "reveal_config \<Rightarrow> 'a pipe_action \<Rightarrow> 's pipe_world \<Rightarrow> ('s pipe_world \<times> pipe_event list) option" where
  "batch_step cfg BatStart w =
     (if bat w = BatSelect then Some (w\<lparr>bat := (if p_cancelled w then BatExited else BatRound)\<rparr>, []) else None)"
| "batch_step cfg BatTry w =
     (if bat w = BatRound then
        (case mempool_try_drain batchSize (pool w) of
           Some (m', out) \<Rightarrow> Some (w\<lparr>pool := m', bat := (if length out = 0 then BatSelect else BatHave out)\<rparr>, [])
         | None \<Rightarrow> Some (w\<lparr>bat := BatWaiting\<rparr>, []))
      else None)"
| "batch_step cfg BatTick w = (if bat w = BatWaiting then Some (w\<lparr>bat := BatRound\<rparr>, []) else None)"
| "batch_step cfg BatCtxDone w =
     (if bat w = BatWaiting \<and> p_cancelled w then Some (w\<lparr>bat := BatSelect\<rparr>, []) else None)"
| "batch_step cfg (BatProcess isLeader hw sched) w =
     (case bat w of
        BatHave batch \<Rightarrow>
          Some (w\<lparr>bat := BatSelect\<rparr>,
            [PBatch batch (GenerateBatchCommitment batch) (\<not> rc_is_raft cfg \<or> isLeader)
               (reveal_batch cfg hw sched batch)])
      | _ \<Rightarrow> None)"
| "batch_step cfg _ w = None"

fun pipe_step ::
  "('a, 's) log_ops \<Rightarrow> reveal_config \<Rightarrow> 'a pipe_action \<Rightarrow> 's pipe_world \<Rightarrow>
   ('s pipe_world \<times> pipe_event list) option" where
  "pipe_step ops cfg (LogAct a) w =
     (if ops_calls ops a then None else map_option (log_moves w) (ops_step ops a (p_log w)))"
| "pipe_step ops cfg MainCancel w =
     (if p_cancelled w then None
      else map_option (log_moves (w\<lparr>p_cancelled := True\<rparr>)) (ops_step ops (ops_cancel ops) (p_log w)))"
| "pipe_step ops cfg CollCall w = collector_step ops CollCall w"
| "pipe_step ops cfg CollAdd w = collector_step ops CollAdd w"
| "pipe_step ops cfg a w = batch_step cfg a w"

section \<open>Reading a run\<close>

fun log_part :: "pipe_event list \<Rightarrow> log_event list" where
  "log_part [] = []"
| "log_part (PLog e # es) = e # log_part es"
| "log_part (_ # es) = log_part es"

fun processed :: "pipe_event list \<Rightarrow> EncryptedTransaction list list" where
  "processed [] = []"
| "processed (PBatch b c p r # es) = b # processed es"
| "processed (_ # es) = processed es"

fun commitments :: "pipe_event list \<Rightarrow> string list" where
  "commitments [] = []"
| "commitments (PBatch b c p r # es) = c # commitments es"
| "commitments (_ # es) = commitments es"

fun log_actions :: "('a, 's) log_ops \<Rightarrow> 'a pipe_action list \<Rightarrow> 'a list" where
  "log_actions ops [] = []"
| "log_actions ops (LogAct a # as) = a # log_actions ops as"
| "log_actions ops (CollCall # as) = ops_drain1 ops # log_actions ops as"
| "log_actions ops (MainCancel # as) = ops_cancel ops # log_actions ops as"
| "log_actions ops (_ # as) = log_actions ops as"

fun coll_hand :: "coll_pc \<Rightarrow> EncryptedTransaction list" where
  "coll_hand (CollHolding txs) = txs"
| "coll_hand _ = []"

fun bat_hand :: "bat_pc \<Rightarrow> EncryptedTransaction list" where
  "bat_hand (BatHave b) = b"
| "bat_hand _ = []"

lemma log_part_append [simp]: "log_part (xs @ ys) = log_part xs @ log_part ys"
  by (induction xs rule: log_part.induct) auto

lemma log_part_PLog [simp]: "log_part (map PLog es) = es"
  by (induction es) auto

lemma processed_append [simp]: "processed (xs @ ys) = processed xs @ processed ys"
  by (induction xs rule: processed.induct) auto

lemma processed_PLog [simp]: "processed (map PLog es) = []"
  by (induction es) auto

lemma log_actions_append [simp]: "log_actions ops (xs @ ys) = log_actions ops xs @ log_actions ops ys"
  by (induction ops xs rule: log_actions.induct) auto

lemma only_consumer: "(\<And>c. c \<noteq> k \<Longrightarrow> delivered_to c es = []) \<Longrightarrow> delivered es = delivered_to k es"
proof (induction es rule: delivered.induct)
  case (2 d tx es)
  have "d = k" using "2.prems" [of d] by (cases "d = k") simp_all
  moreover have "delivered_to c es = []" if "c \<noteq> k" for c using "2.prems" [OF that] by (simp split: if_splits)
  ultimately show ?case using "2.IH" by simp
qed auto

section \<open>Conservation\<close>

context drained_log
begin

definition ops :: "('a, 's) log_ops" where
  "ops = \<lparr>ops_step = step, ops_calls = calls, ops_drain1 = drain1, ops_cancel = cancel0\<rparr>"

text \<open>The collector is in a call of size 1 exactly when it waits, and nobody else calls.\<close>

definition calls_ok :: "'s pipe_world \<Rightarrow> bool" where
  "calls_ok w \<longleftrightarrow> call_size (p_log w) 0 = (if coll w = CollInCall then Some 1 else None) \<and>
     (\<forall>c. c \<noteq> 0 \<longrightarrow> call_size (p_log w) c = None)"

definition flow_ok :: "'s pipe_world \<Rightarrow> pipe_event list \<Rightarrow> bool" where
  "flow_ok w evs \<longleftrightarrow>
     concat (processed evs) @ bat_hand (bat w) @ items (pool w) @ coll_hand (coll w) = batches 0 (log_part evs) \<and>
     delivered (log_part evs) = delivered_to 0 (log_part evs) \<and>
     list_all (\<lambda>b. length b = 1000) (processed evs) \<and> (\<forall>b. bat w = BatHave b \<longrightarrow> length b = 1000)"

lemma log_moves_ok:
  assumes "step a (p_log w) = Some (s', es)" and "\<not> calls a" and "calls_ok w" and "flow_ok w evs"
  shows "calls_ok (w\<lparr>p_log := s', coll := coll_return es (coll w)\<rparr>) \<and>
    flow_ok (w\<lparr>p_log := s', coll := coll_return es (coll w)\<rparr>) (evs @ map PLog es)"
proof -
  have other: "call_size s' c = None \<and> delivered_to c es = [] \<and> returns c es = []" if "c \<noteq> 0" for c
    using idle_step [OF assms(1,2)] assms(3) that by (simp add: calls_ok_def)
  then have del: "delivered es = delivered_to 0 es" by (blast intro: only_consumer)
  show ?thesis
  proof (cases "coll w = CollInCall")
    case False
    then have "call_size s' 0 = None \<and> returns 0 es = []"
      using idle_step [OF assms(1,2)] assms(3) by (simp add: calls_ok_def)
    with False other assms(4) del show ?thesis
      by (auto simp: calls_ok_def flow_ok_def coll_return_def batches_returns split: coll_pc.splits)
  next
    case True
    then have "call_size (p_log w) 0 = Some 1" using assms(3) by (simp add: calls_ok_def)
    from busy_step [OF assms(1,2) this] True other assms(4) del show ?thesis
      by (auto simp: calls_ok_def flow_ok_def coll_return_def batches_returns split: option.splits if_splits)
  qed
qed

lemma pipe_inv_step:
  assumes "pipe_step ops cfg a w = Some (w', es)" and "calls_ok w" and "flow_ok w evs"
  shows "calls_ok w' \<and> flow_ok w' (evs @ es)"
proof (cases a)
  case (LogAct b)
  with assms log_moves_ok [OF _ _ assms(2,3)] show ?thesis
    by (auto simp: ops_def log_moves_def split: if_splits)
next
  case MainCancel
  have "calls_ok (w\<lparr>p_cancelled := True\<rparr>)" "flow_ok (w\<lparr>p_cancelled := True\<rparr>) evs"
    using assms(2,3) by (simp_all add: calls_ok_def flow_ok_def)
  with MainCancel assms(1) cancel_calls_not log_moves_ok [of cancel0 "w\<lparr>p_cancelled := True\<rparr>"] show ?thesis
    by (auto simp: ops_def log_moves_def split: if_splits)
next
  case CollCall
  with assms show ?thesis
    by (auto simp: ops_def log_moves_def coll_return_def calls_ok_def flow_ok_def
        dest!: call_drain1 split: if_splits)
next
  case CollAdd
  with assms show ?thesis
    by (auto simp: calls_ok_def flow_ok_def mempool_Add_def split: coll_pc.splits list.splits)
next
  case BatTry
  with assms show ?thesis
    by (auto simp: calls_ok_def flow_ok_def batchSize_def dest!: mempool_try_drain_Some
        split: if_splits option.splits) (metis append_assoc)
next
  case (BatProcess l hw sched)
  with assms show ?thesis
    by (auto simp: calls_ok_def flow_ok_def split: bat_pc.splits)
qed (use assms in \<open>auto simp: calls_ok_def flow_ok_def split: if_splits\<close>)

lemma pipe_log_run:
  assumes "run (pipe_step ops cfg) as (pipe_init init) = Some (w, evs)"
  shows "run step (log_actions ops as) init = Some (p_log w, log_part evs)"
proof (rule run_invariant [OF assms, where
      P = "\<lambda>as w evs. run step (log_actions ops as) init = Some (p_log w, log_part evs)"])
  fix as evs a es and w w' :: "'s pipe_world"
  assume "run step (log_actions ops as) init = Some (p_log w, log_part evs)"
    and "pipe_step ops cfg a w = Some (w', es)"
  then show "run step (log_actions ops (as @ [a])) init = Some (p_log w', log_part (evs @ es))"
    by (cases a) (auto simp: run_append ops_def log_moves_def split: if_splits coll_pc.splits list.splits
        option.splits bat_pc.splits)
qed (simp add: pipe_init_def)

lemma calls_flow_run:
  assumes "run (pipe_step ops cfg) as (pipe_init init) = Some (w, evs)"
  shows "calls_ok w \<and> flow_ok w evs"
  by (rule run_invariant [OF assms, where P = "\<lambda>_ w evs. calls_ok w \<and> flow_ok w evs"])
    (auto simp: pipe_init_def calls_ok_def flow_ok_def no_call_init NewEncryptedMempool_def
      dest: pipe_inv_step)

text \<open>Everything committed is, in commit order, in a processed batch or somewhere on its way.\<close>

lemma pipeline_exact_run:
  assumes "run (pipe_step ops cfg) as (pipe_init init) = Some (w, evs)"
  shows "concat (processed evs) @ bat_hand (bat w) @ items (pool w) @ coll_hand (coll w) @
      in_hand (p_log w) 0 @ pending (p_log w) = committed (log_part evs) \<and>
    list_all (\<lambda>b. length b = 1000) (processed evs)"
proof -
  from calls_flow_run [OF assms] have flow: "concat (processed evs) @ bat_hand (bat w) @ items (pool w) @ coll_hand (coll w) =
      batches 0 (log_part evs)" "delivered (log_part evs) = delivered_to 0 (log_part evs)"
    "list_all (\<lambda>b. length b = 1000) (processed evs)" by (simp_all add: flow_ok_def)
  note log_run = pipe_log_run [OF assms]
  have "committed (log_part evs) = (batches 0 (log_part evs) @ in_hand (p_log w) 0) @ pending (p_log w)"
    using fifo_run [OF log_run] batches_run [OF log_run, of 0] flow(2) by simp
  with flow show ?thesis by (metis append_assoc)
qed

end

end
