(* ===== verification/Pipeline_Properties.thy ===== *)
theory Pipeline_Properties
  imports Sequencer_Pipeline
begin

text \<open>
  What the pipeline as a whole guarantees: exact and ordered batches on either backend, equal
  commitments on all replicas, accurate reveal reports, and what a shutdown leaves behind.
\<close>

section \<open>Both backends\<close>

lemma queue_ops_eq: "queue_ops = queue_consumers.ops"
  by (simp add: queue_ops_def queue_consumers.ops_def)

lemma raft_ops_eq: "raft_ops = raft_consumers.ops"
  by (simp add: raft_ops_def raft_consumers.ops_def)

lemma raft_pipeline_exact_run:
  assumes "run (pipe_step raft_ops cfg) as (pipe_init (raft_init buf dl)) = Some (w, evs)"
  shows "concat (processed evs) @ bat_hand (bat w) @ items (pool w) @ coll_hand (coll w) @
      raft_in_hand (p_log w) 0 @ committed_ch (p_log w) = committed (log_part evs) \<and>
    list_all (\<lambda>b. length b = 1000) (processed evs)"
  using assms unfolding raft_ops_eq by (rule raft_consumers.pipeline_exact_run)

lemma queue_pipeline_exact_run:
  assumes "run (pipe_step queue_ops cfg) as (pipe_init (queue_init cap)) = Some (w, evs)"
  shows "concat (processed evs) @ bat_hand (bat w) @ items (pool w) @ coll_hand (coll w) @
      in_hand (p_log w) 0 @ ch (p_log w) = committed (log_part evs) \<and>
    list_all (\<lambda>b. length b = 1000) (processed evs)"
  using assms unfolding queue_ops_eq by (rule queue_consumers.pipeline_exact_run)

section \<open>Witness runs\<close>

text \<open>
  One transaction is submitted, accepted, collected and stored in the mempool; then the program
  is told to stop, and both goroutines end.
\<close>

definition stranded_actions :: "queue_action pipe_action list" where
  "stranded_actions =
     [LogAct (Submitter (CallSubmit 5 1 [7])), LogAct (Submitter (SendRequest 5)), LogAct (Admission LoopTake),
      LogAct (Admission (LoopStamp 100)), LogAct (Admission LoopCommit), LogAct (Submitter (TakeResponse 5)),
      CollCall, LogAct (Consumer (DrainRecv 0)), LogAct (Consumer (DrainFull 0)), CollAdd, CollAdd, CollCall,
      BatStart, BatTry, MainCancel, BatCtxDone, BatStart, LogAct (Consumer (DrainCancelled 0))]"

definition glass_config :: "bool \<Rightarrow> reveal_config" where
  "glass_config r = \<lparr>rc_sodium = glass_sodium, rc_pubKey = replicate 32 1, rc_secKey = replicate 32 2, rc_is_raft = r\<rparr>"

definition stranded_log :: queue_world where
  "stranded_log = (queue_init 100)\<lparr>nextID := 1, submits := [5 \<mapsto> SubReturned], ctx_err := [0 \<mapsto> Canceled]\<rparr>"

definition stranded_world :: "queue_world pipe_world" where
  "stranded_world = \<lparr>p_log = stranded_log, coll = CollStopped, pool = \<lparr>items = [one_tx]\<rparr>, bat = BatExited,
     p_cancelled = True\<rparr>"

definition stranded_events :: "pipe_event list" where
  "stranded_events = map PLog
     [SubmitCalled 5 [7], Committed 5 one_tx, SubmitReturned 5 (Inr one_tx), Delivered 0 one_tx,
      DrainReturned 0 [one_tx] None, DrainReturned 0 [] (Some (ErrCtx Canceled))]"

lemma stranded_run:
  "run (pipe_step queue_ops (glass_config False)) stranded_actions (pipe_init (queue_init 100)) =
     Some (stranded_world, stranded_events)"
  by (simp add: stranded_actions_def stranded_world_def stranded_log_def stranded_events_def pipe_init_def
      queue_ops_def log_moves_def coll_return_def NewEncryptedMempool_def mempool_Add_def batchSize_def
      mempool_try_drain_def queue_eval fun_upd_idem)

section \<open>Conservation\<close>

text \<open>
  C1: the pipeline loses, duplicates and reorders nothing.  In every interleaving of submitters,
  the local queue, the collector, the batch processor, cancellation and \<open>Close\<close>, the batches
  processed so far, each of exactly 1000 transactions, followed by what is on its way (the batch
  in hand, the mempool, the collector, the channel), are the committed transactions in commit
  order.
\<close>

theorem pipeline_exact:
  assumes "run (pipe_step queue_ops cfg) as (pipe_init (queue_init cap)) = Some (w, evs)"
  shows "concat (processed evs) @ bat_hand (bat w) @ items (pool w) @ coll_hand (coll w) @
      in_hand (p_log w) 0 @ ch (p_log w) = committed (log_part evs) \<and>
    list_all (\<lambda>b. length b = 1000) (processed evs)"
  using assms by (rule queue_pipeline_exact_run)

theorem pipeline_exact_witness:
  "items (pool stranded_world) = committed (log_part stranded_events)"
  using pipeline_exact [OF stranded_run]
  by (simp add: stranded_world_def stranded_events_def stranded_log_def queue_init_def in_hand_def)

text \<open>Once both goroutines have ended, the mempool is never touched again.\<close>

lemma ended_frozen:
  assumes "pipe_step ops cfg a w = Some (w', es)" and "coll w = CollStopped" and "bat w = BatExited"
  shows "pool w' = pool w \<and> coll w' = CollStopped \<and> bat w' = BatExited \<and> processed es = []"
  using assms by (cases a) (auto simp: log_moves_def coll_return_def split: if_splits)

text \<open>
  A shutdown strands accepted transactions.  A submitter has its receipt, the transaction is
  committed and collected, and the program stops cleanly; the transaction stays in the mempool,
  in no batch, and no continuation of the run ever processes it.
\<close>

lemma shutdown_strands_accepted:
  "\<exists>as w evs tx. run (pipe_step queue_ops cfg) as (pipe_init (queue_init 100)) = Some (w, evs) \<and>
     PLog (SubmitReturned 5 (Inr tx)) \<in> set evs \<and> processed evs = [] \<and> items (pool w) = [tx] \<and>
     coll w = CollStopped \<and> bat w = BatExited \<and>
     (\<forall>bs w' evs'. run (pipe_step queue_ops cfg) bs w = Some (w', evs') \<longrightarrow> processed evs' = [])"
proof -
  have run: "run (pipe_step queue_ops cfg) stranded_actions (pipe_init (queue_init 100)) =
      Some (stranded_world, stranded_events)"
    by (simp add: stranded_actions_def stranded_world_def stranded_log_def stranded_events_def pipe_init_def
        queue_ops_def log_moves_def coll_return_def NewEncryptedMempool_def mempool_Add_def batchSize_def
        mempool_try_drain_def queue_eval fun_upd_idem)
  have "coll w' = CollStopped \<and> bat w' = BatExited \<and> processed evs' = []"
    if "run (pipe_step queue_ops cfg) bs stranded_world = Some (w', evs')" for bs w' evs'
    by (rule run_invariant [OF that, where
          P = "\<lambda>_ w evs. coll w = CollStopped \<and> bat w = BatExited \<and> processed evs = []"])
      (auto simp: stranded_world_def dest: ended_frozen)
  with run show ?thesis
    by (intro exI [of _ stranded_actions] exI [of _ stranded_world] exI [of _ stranded_events] exI [of _ one_tx])
      (auto simp: stranded_world_def stranded_events_def)
qed

section \<open>Replicas\<close>

lemma commitments_append [simp]: "commitments (xs @ ys) = commitments xs @ commitments ys"
  by (induction xs rule: commitments.induct) auto

lemma commitments_PLog [simp]: "commitments (map PLog es) = []"
  by (induction es) auto

lemma commitments_processed:
  assumes "run (pipe_step ops cfg) as (pipe_init l) = Some (w, evs)"
  shows "commitments evs = map GenerateBatchCommitment (processed evs)"
proof (rule run_invariant [OF assms, where
      P = "\<lambda>_ _ evs. commitments evs = map GenerateBatchCommitment (processed evs)"])
  fix as evs a es and w w' :: "'a pipe_world"
  assume "commitments evs = map GenerateBatchCommitment (processed evs)" and "pipe_step ops cfg a w = Some (w', es)"
  then show "commitments (evs @ es) = map GenerateBatchCommitment (processed (evs @ es))"
    by (cases a) (auto simp: log_moves_def split: if_splits coll_pc.splits list.splits option.splits
        bat_pc.splits)
qed simp

text \<open>Batches of equal size cut from comparable sequences are comparable.\<close>

lemma batches_comparable:
  assumes "list_all (\<lambda>b. length b = n) xss" and "list_all (\<lambda>b. length b = n) yss" and "0 < n"
    and "concat xss @ r = s" and "concat yss @ r' = s'" and "prefix s s'"
  shows "prefix xss yss \<or> prefix yss xss"
proof -
  from assms(6) obtain t where t: "s' = s @ t" by (auto simp: prefix_def)
  have sizes: "\<forall>x \<in> set xss. length x = n" "\<forall>y \<in> set yss. length y = n"
    using assms(1,2) by (simp_all add: list_all_iff)
  show ?thesis
  proof (cases "length xss \<le> length yss")
    case True
    then have "xss = take (length xss) yss"
      using concat_prefix_lengths_unique [OF sizes assms(3)] assms(4,5) t by blast
    then show ?thesis by (metis take_is_prefix)
  next
    case False
    have "concat xss @ (r @ t) = s' @ []" using assms(4) t by auto
    then have "yss = take (length yss) xss"
      using concat_prefix_lengths_unique [OF sizes(2,1) assms(3) _ assms(5)] False by (metis nat_le_linear)
    then show ?thesis by (metis take_is_prefix)
  qed
qed

text \<open>
  C8: all replicas commit to the same batches.  If the entries applied on one Raft node are a
  prefix of those applied on another and neither log is closed, then of the two sequences of
  batch commitments computed so far one is a prefix of the other: whoever leads when the
  \<open>k\<close>-th batch is processed publishes the same root.
\<close>

theorem replicas_same_commitments:
  assumes "run (pipe_step raft_ops cfg) as (pipe_init (raft_init buf dl)) = Some (w, evs)"
    and "run (pipe_step raft_ops cfg') as' (pipe_init (raft_init buf' dl')) = Some (w', evs')"
    and "\<not> r_done (p_log w)" and "\<not> r_done (p_log w')"
    and "prefix (entries (log_actions raft_ops as)) (entries (log_actions raft_ops as'))"
  shows "prefix (commitments evs) (commitments evs') \<or> prefix (commitments evs') (commitments evs)"
proof -
  have runs: "raft_run (log_actions raft_ops as) (raft_init buf dl) = Some (p_log w, log_part evs)"
    "raft_run (log_actions raft_ops as') (raft_init buf' dl') = Some (p_log w', log_part evs')"
    using raft_consumers.pipe_log_run assms(1,2) unfolding raft_ops_eq by blast+
  note ex = raft_pipeline_exact_run [OF assms(1)] and ex' = raft_pipeline_exact_run [OF assms(2)]
  have "prefix (committed (log_part evs)) (committed (log_part evs')) \<or>
      prefix (committed (log_part evs')) (committed (log_part evs))"
    by (rule committed_comparable [OF runs(1) assms(3) runs(2) assms(4,5)])
  then have "prefix (processed evs) (processed evs') \<or> prefix (processed evs') (processed evs)"
  proof
    assume "prefix (committed (log_part evs)) (committed (log_part evs'))"
    then show ?thesis
      using batches_comparable [OF conjunct2 [OF ex] conjunct2 [OF ex'] _ conjunct1 [OF ex] conjunct1 [OF ex']] by simp
  next
    assume "prefix (committed (log_part evs')) (committed (log_part evs))"
    then show ?thesis
      using batches_comparable [OF conjunct2 [OF ex'] conjunct2 [OF ex] _ conjunct1 [OF ex'] conjunct1 [OF ex]] by auto
  qed
  then show ?thesis
    using commitments_processed [OF assms(1)] commitments_processed [OF assms(2)] map_mono_prefix by metis
qed

section \<open>Reveal\<close>

lemma DecryptSingle_fails:
  assumes "length pub = PublicKeyBytes" and "length sec = SecretKeyBytes" and "length ct < SealBytes + 2 ^ 31"
  shows "(case DecryptSingle lib ct pub sec of Inl _ \<Rightarrow> True | Inr _ \<Rightarrow> False) \<longleftrightarrow>
      length ct \<le> SealBytes \<or> \<not> opens lib pub sec ct" and "DecryptSingle lib ct pub sec \<noteq> Inl GoBytesPanic"
  using assms
  by (auto simp: DecryptSingle_def decrypt_single_tx_def opens_def Let_def GoBytes_fits split: option.splits)

lemma reveal_exact:
  assumes "length (rc_pubKey cfg) = PublicKeyBytes" and "length (rc_secKey cfg) = SecretKeyBytes"
    and "sealed_boxes (rc_sodium cfg) (rc_pubKey cfg) (rc_secKey cfg)"
    and "list_all (\<lambda>tx. length (Ciphertext tx) < SealBytes + 2 ^ 31) batch"
  shows "reveal_batch cfg hw sched batch =
    (if list_all (\<lambda>tx. SealBytes \<le> length (Ciphertext tx) \<and>
          opens (rc_sodium cfg) (rc_pubKey cfg) (rc_secKey cfg) (Ciphertext tx)) batch
     then BatchDecrypted (length batch)
     else ItemsFailed (map ID (filter (\<lambda>tx. length (Ciphertext tx) \<le> SealBytes \<or>
          \<not> opens (rc_sodium cfg) (rc_pubKey cfg) (rc_secKey cfg) (Ciphertext tx)) batch)))"
proof -
  let ?cts = "map Ciphertext batch" and ?single = "\<lambda>tx. DecryptSingle (rc_sodium cfg) (Ciphertext tx) (rc_pubKey cfg) (rc_secKey cfg)"
  let ?dec = "DecryptBatch (rc_sodium cfg) hw sched ?cts (rc_pubKey cfg) (rc_secKey cfg)"
  have fits: "list_all (\<lambda>ct. length ct < SealBytes + 2 ^ 31) ?cts" using assms(4) by (simp add: list_all_iff)
  have "((\<exists>out. fst ?dec = Inr out) \<longleftrightarrow> list_all (\<lambda>tx. SealBytes \<le> length (Ciphertext tx) \<and>
      opens (rc_sodium cfg) (rc_pubKey cfg) (rc_secKey cfg) (Ciphertext tx)) batch) \<and> fst ?dec \<noteq> Inl GoBytesPanic"
  proof (cases "list_all (\<lambda>ct. SealBytes \<le> length ct) ?cts")
    case True
    from DecryptBatch_items [OF assms(1,2) True assms(3) fits, of hw sched] True show ?thesis
      by (auto simp: list_all_iff)
  next
    case False
    then have "batch \<noteq> []" by auto
    from False have "alloc_loop 0 ?cts \<noteq> None" by (auto simp: alloc_loop_None list_all_iff)
    then have "\<exists>i. fst ?dec = Inl (ItemTooShort i)" using assms(1,2) \<open>batch \<noteq> []\<close> by (auto simp: DecryptBatch_def)
    with False show ?thesis by (auto simp: list_all_iff)
  qed
  moreover have "filter (\<lambda>tx. (case ?single tx of Inl _ \<Rightarrow> True | Inr _ \<Rightarrow> False)) batch =
      filter (\<lambda>tx. length (Ciphertext tx) \<le> SealBytes \<or>
        \<not> opens (rc_sodium cfg) (rc_pubKey cfg) (rc_secKey cfg) (Ciphertext tx)) batch"
    using assms(4) by (intro filter_cong refl DecryptSingle_fails(1) [OF assms(1,2)]) (simp add: list_all_iff)
  moreover have "\<not> list_ex (\<lambda>tx. ?single tx = Inl GoBytesPanic) batch"
    using assms(4) DecryptSingle_fails(2) [OF assms(1,2)] by (auto simp: list_all_iff list_ex_iff)
  ultimately show ?thesis by (auto simp: reveal_batch_def Let_def split: sum.split)
qed

text \<open>Ciphertexts of at most two gigabytes never make the processor panic.\<close>

lemma reveal_no_panic:
  assumes "length (rc_pubKey cfg) = PublicKeyBytes" and "length (rc_secKey cfg) = SecretKeyBytes"
    and "sealed_boxes (rc_sodium cfg) (rc_pubKey cfg) (rc_secKey cfg)"
    and "list_all (\<lambda>tx. length (Ciphertext tx) < SealBytes + 2 ^ 31) batch"
  shows "reveal_batch cfg hw sched batch \<noteq> RevealPanicked"
  by (simp add: reveal_exact [OF assms])

section \<open>A run that fills a batch\<close>

text \<open>
  Client \<open>k\<close> submits a sealed byte, which is admitted, collected and stored: one cycle.  After
  1000 cycles the processor takes and processes the batch.
\<close>

definition glass_tx :: "nat \<Rightarrow> EncryptedTransaction" where
  "glass_tx k = \<lparr>ID = of_nat (Suc k), Ciphertext = replicate 48 0 @ [7], ArrivedAt = 100\<rparr>"

definition cycle :: "nat \<Rightarrow> queue_action pipe_action list" where
  "cycle k =
     [LogAct (Submitter (CallSubmit k 1 (replicate 48 0 @ [7]))), LogAct (Submitter (SendRequest k)),
      LogAct (Admission LoopTake), LogAct (Admission (LoopStamp 100)), LogAct (Admission LoopCommit),
      LogAct (Submitter (TakeResponse k)),
      CollCall, LogAct (Consumer (DrainRecv 0)), LogAct (Consumer (DrainFull 0)), CollAdd, CollAdd]"

definition cycle_events :: "nat \<Rightarrow> pipe_event list" where
  "cycle_events k = map PLog
     [SubmitCalled k (replicate 48 0 @ [7]), Committed k (glass_tx k), SubmitReturned k (Inr (glass_tx k)),
      Delivered 0 (glass_tx k), DrainReturned 0 [glass_tx k] None]"

definition cycled_world :: "nat \<Rightarrow> queue_world pipe_world" where
  "cycled_world k =
     \<lparr>p_log = (queue_init 100)\<lparr>nextID := of_nat k, submits := (\<lambda>r. if r < k then Some SubReturned else None)\<rparr>,
      coll = CollReady, pool = \<lparr>items = map glass_tx [0..<k]\<rparr>, bat = BatSelect, p_cancelled = False\<rparr>"

lemma cycle_run:
  "run (pipe_step queue_ops cfg) (cycle k) (cycled_world k) = Some (cycled_world (Suc k), cycle_events k)"
proof -
  have "(\<lambda>r. if r < k then Some SubReturned else None)(k \<mapsto> SubReturned) =
      (\<lambda>r. if r < Suc k then Some SubReturned else None)"
    by (auto simp: less_Suc_eq)
  then show ?thesis
    by (simp add: cycle_def cycled_world_def cycle_events_def glass_tx_def queue_ops_def log_moves_def
        coll_return_def mempool_Add_def queue_init_def step_simps fun_upd_idem add.commute)
qed

lemma cycles_run:
  "run (pipe_step queue_ops cfg) (concat (map cycle [0..<k])) (pipe_init (queue_init 100)) =
     Some (cycled_world k, concat (map cycle_events [0..<k]))"
proof (induction k)
  case 0
  then show ?case
    by (simp add: pipe_init_def cycled_world_def queue_init_def NewEncryptedMempool_def)
next
  case (Suc k)
  then show ?case by (simp add: run_append cycle_run)
qed

definition full_actions :: "queue_action pipe_action list" where
  "full_actions = concat (map cycle [0..<1000]) @ [BatStart, BatTry, BatProcess False 4 [0, 1]]"

definition full_batch :: "EncryptedTransaction list" where
  "full_batch = map glass_tx [0..<1000]"

definition full_world :: "queue_world pipe_world" where
  "full_world = (cycled_world 1000)\<lparr>pool := \<lparr>items = []\<rparr>\<rparr>"

lemma length_full_batch: "length full_batch = 1000"
  by (simp add: full_batch_def del: upt_rec_numeral)

lemma full_run:
  "run (pipe_step queue_ops cfg) full_actions (pipe_init (queue_init 100)) =
     Some (full_world, concat (map cycle_events [0..<1000]) @
       PBatch full_batch (GenerateBatchCommitment full_batch) (\<not> rc_is_raft cfg) (reveal_batch cfg 4 [0, 1] full_batch) # [])"
proof -
  have "mempool_try_drain batchSize (pool (cycled_world 1000)) = Some (\<lparr>items = []\<rparr>, full_batch)"
    by (simp add: mempool_try_drain_def batchSize_def cycled_world_def full_batch_def del: upt_conv_Cons upt_rec_numeral)
  moreover have "full_batch \<noteq> []" using length_full_batch by auto
  moreover have "bat (cycled_world 1000) = BatSelect" "\<not> p_cancelled (cycled_world 1000)"
    by (simp_all add: cycled_world_def del: upt_rec_numeral)
  ultimately show ?thesis
    by (simp add: full_actions_def run_append cycles_run full_world_def del: upt_rec_numeral)
qed

lemma full_event:
  "PBatch full_batch (GenerateBatchCommitment full_batch) (\<not> rc_is_raft cfg) (reveal_batch cfg 4 [0, 1] full_batch) \<in>
     set (concat (map cycle_events [0..<1000]) @ PBatch full_batch (GenerateBatchCommitment full_batch)
       (\<not> rc_is_raft cfg) (reveal_batch cfg 4 [0, 1] full_batch) # [])"
  by (metis in_set_conv_decomp)

section \<open>Two replicas\<close>

text \<open>
  Two Raft nodes apply the same 1000 entries.  On the one the collector calls \<open>DrainWait\<close> when an entry
  has been forwarded; on the other it is waiting for it already.  The one leads when it processes
  the batch, the other does not.
\<close>

definition glass_entry :: string where
  "glass_entry = marshal_proposal \<lparr>SubmittedAtUnixNano = 100, ProposalCiphertext = replicate 48 0 @ [7]\<rparr>"

definition raft_cycle :: "bool \<Rightarrow> nat \<Rightarrow> raft_action pipe_action list" where
  "raft_cycle waits k =
     (if waits then [CollCall] else []) @
     [LogAct (RaftFSM (FsmApply (of_nat (Suc k)) k glass_entry)), LogAct (RaftFSM FsmSend)] @
     (if waits then [] else [CollCall]) @
     [LogAct (RaftConsumer (RaftDrainRecv 0)), LogAct (RaftConsumer (RaftDrainFull 0)), CollAdd, CollAdd]"

definition raft_cycled :: "int \<Rightarrow> nat \<Rightarrow> raft_world pipe_world" where
  "raft_cycled buf k =
     \<lparr>p_log = (raft_init buf (\<lambda>_. None))\<lparr>applied := (\<lambda>r. r < k), lib_index := of_nat k, fsm_index := of_nat k\<rparr>,
      coll = CollReady, pool = \<lparr>items = map glass_tx [0..<k]\<rparr>, bat = BatSelect, p_cancelled = False\<rparr>"

lemma raft_cycle_run:
  assumes "0 < buf"
  shows "run (pipe_step raft_ops cfg) (raft_cycle waits k) (raft_cycled buf k) = Some (raft_cycled buf (Suc k),
    map PLog [Committed k (glass_tx k), Delivered 0 (glass_tx k), DrainReturned 0 [glass_tx k] None])"
proof -
  have "fsm_tx (of_nat (Suc k)) glass_entry = Some (glass_tx k)" by (simp add: glass_entry_def glass_tx_def time_Unix0_def)
  moreover have "(\<lambda>r. r < k)(k := True) = (\<lambda>r. r < Suc k)" by (auto simp: less_Suc_eq)
  ultimately show ?thesis using assms
    by (cases waits) (simp_all add: raft_cycle_def raft_cycled_def raft_ops_def log_moves_def coll_return_def mempool_Add_def
        raft_init_def effective_commit_buffer_def raft_step_defs fun_upd_idem add.commute)
qed

lemma raft_cycles_run:
  assumes "0 < buf"
  shows "\<exists>evs. run (pipe_step raft_ops cfg) (concat (map (raft_cycle waits) [0..<k])) (pipe_init (raft_init buf (\<lambda>_. None))) =
      Some (raft_cycled buf k, evs) \<and> commitments evs = []"
proof (induction k)
  case 0
  then show ?case by (simp add: pipe_init_def raft_cycled_def raft_init_def NewEncryptedMempool_def)
next
  case (Suc k)
  from Suc show ?case by (auto simp: run_append raft_cycle_run [OF assms])
qed

definition raft_full :: "bool \<Rightarrow> raft_action pipe_action list" where
  "raft_full waits = concat (map (raft_cycle waits) [0..<1000]) @ [BatStart, BatTry, BatProcess (\<not> waits) 4 [0, 1]]"

lemma raft_full_run:
  assumes "0 < buf"
  shows "\<exists>w evs. run (pipe_step raft_ops cfg) (raft_full waits) (pipe_init (raft_init buf (\<lambda>_. None))) = Some (w, evs) \<and>
      \<not> r_done (p_log w) \<and> commitments evs = [GenerateBatchCommitment full_batch]"
proof -
  obtain evs where "run (pipe_step raft_ops cfg) (concat (map (raft_cycle waits) [0..<1000])) (pipe_init (raft_init buf (\<lambda>_. None))) =
      Some (raft_cycled buf 1000, evs)" "commitments evs = []" using raft_cycles_run [OF assms] by blast
  moreover have "mempool_try_drain batchSize (pool (raft_cycled buf 1000)) = Some (\<lparr>items = []\<rparr>, full_batch)"
    by (simp add: mempool_try_drain_def batchSize_def raft_cycled_def full_batch_def del: upt_conv_Cons upt_rec_numeral)
  moreover have "full_batch \<noteq> []" using length_full_batch by auto
  moreover have "bat (raft_cycled buf 1000) = BatSelect" "\<not> p_cancelled (raft_cycled buf 1000)" "\<not> r_done (p_log (raft_cycled buf 1000))"
    by (simp_all add: raft_cycled_def raft_init_def del: upt_rec_numeral)
  ultimately show ?thesis
    by (simp add: raft_full_def run_append del: upt_rec_numeral)
qed

lemma raft_full_entries: "entries (log_actions raft_ops (raft_full waits)) = map (\<lambda>k. (of_nat (Suc k), glass_entry)) [0..<1000]"
proof -
  have "entries (log_actions raft_ops (concat (map (raft_cycle waits) ks) @ as)) =
      map (\<lambda>k. (of_nat (Suc k), glass_entry)) ks @ entries (log_actions raft_ops as)" for ks as
    by (induction ks) (simp_all add: raft_cycle_def raft_ops_def)
  then show ?thesis by (simp add: raft_full_def del: upt_rec_numeral)
qed

theorem replicas_same_commitments_witness:
  "\<exists>w evs w' evs'.
     run (pipe_step raft_ops (glass_config True)) (raft_full False) (pipe_init (raft_init 4 (\<lambda>_. None))) = Some (w, evs) \<and>
     run (pipe_step raft_ops (glass_config True)) (raft_full True) (pipe_init (raft_init 64 (\<lambda>_. None))) = Some (w', evs') \<and>
     commitments evs = [GenerateBatchCommitment full_batch] \<and> commitments evs' = commitments evs"
proof -
  obtain w evs where l: "run (pipe_step raft_ops (glass_config True)) (raft_full False) (pipe_init (raft_init 4 (\<lambda>_. None))) = Some (w, evs)"
    "\<not> r_done (p_log w)" "commitments evs = [GenerateBatchCommitment full_batch]" using raft_full_run [of 4 "glass_config True" False] by auto
  obtain w' evs' where f: "run (pipe_step raft_ops (glass_config True)) (raft_full True) (pipe_init (raft_init 64 (\<lambda>_. None))) = Some (w', evs')"
    "\<not> r_done (p_log w')" "length (commitments evs') = 1" using raft_full_run [of 64 "glass_config True" True] by auto
  have "prefix (commitments evs) (commitments evs') \<or> prefix (commitments evs') (commitments evs)"
    by (rule replicas_same_commitments [OF l(1) f(1) l(2) f(2)]) (simp add: raft_full_entries)
  with l f show ?thesis by (auto simp: prefix_def length_Suc_conv)
qed

end
