(* ===== verification/Reception_Store.thy ===== *)
theory Reception_Store
  imports Commitments
begin

text \<open>\<open>pkg/sequencing/reception_store.go\<close>; every method runs under the store's lock.\<close>

record ReceptionStore =
  proofs :: "ReceptionProof list"

definition NewReceptionStore :: ReceptionStore where
  "NewReceptionStore = \<lparr>proofs = []\<rparr>"

definition store_Add :: "ReceptionProof \<Rightarrow> ReceptionStore \<Rightarrow> ReceptionStore" where
  "store_Add p s = s\<lparr>proofs := proofs s @ [p]\<rparr>"

definition store_Count :: "ReceptionStore \<Rightarrow> nat" where
  "store_Count s = length (proofs s)"

definition zero_proof :: ReceptionProof where
  "zero_proof = \<lparr>SequenceID = 0, ArrivedUnix = 0, Commitment = ''''\<rparr>"

definition store_Last :: "ReceptionStore \<Rightarrow> ReceptionProof \<times> bool" where
  "store_Last s =
     (if length (proofs s) = 0 then (zero_proof, False) else (proofs s ! (length (proofs s) - 1), True))"

text \<open>The proof the server records for a transaction.\<close>

definition reception_proof :: "EncryptedTransaction \<Rightarrow> ReceptionProof" where
  "reception_proof tx = \<lparr>SequenceID = ID tx, ArrivedUnix = UnixNano (ArrivedAt tx),
     Commitment = GenerateReceptionCommitment tx\<rparr>"

lemma store_Last_Add [simp]: "store_Last (store_Add p s) = (p, True)"
  by (simp add: store_Last_def store_Add_def)

lemma store_Count_Add [simp]: "store_Count (store_Add p s) = Suc (store_Count s)"
  by (simp add: store_Count_def store_Add_def)

lemma proofs_Add [simp]: "proofs (store_Add p s) = proofs s @ [p]"
  by (simp add: store_Add_def)

end
