(* ===== verification/Settlement.thy ===== *)
theory Settlement
  imports Commitments Go_Strings
begin

text \<open>
  \<open>internal/settlement\<close>: choosing a publisher from the environment (\<open>factory.go\<close>), the no-op
  publisher (\<open>publisher.go\<close>), the EVM publisher (\<open>evm_publisher.go\<close>) and its stub for builds
  without the \<open>evm\<close> tag (\<open>evm_publisher_stub.go\<close>), and the contract they write to
  (\<open>contracts/OrderVerifier.sol\<close>).  The go-ethereum packages are the record \<open>eth_lib\<close>.
\<close>

section \<open>The contract\<close>

record OrderVerifier =
  validCommitments :: "bytes \<Rightarrow> bool"

record OrderData =
  orderId :: string
  user :: string
  token :: string
  amountStr :: string
  priceStr :: string
  timestampStr :: string
  nonce :: string

definition commitOrder :: "bytes \<Rightarrow> OrderVerifier \<Rightarrow> OrderVerifier" where
  "commitOrder commitment v = v\<lparr>validCommitments := (validCommitments v)(commitment := True)\<rparr>"

definition verifyOrder :: "OrderData \<Rightarrow> OrderVerifier \<Rightarrow> OrderVerifier \<times> bool" where
  "verifyOrder order v =
     (let p1 = orderId order @ ''|'' @ user order @ ''|'' @ token order @ ''|'' @ amountStr order;
          p2 = ''|'' @ priceStr order @ ''|'' @ timestampStr order @ ''|'' @ nonce order;
          generatedCommitment = sha256 (bytes_of_string (p1 @ p2))
      in if \<not> validCommitments v generatedCommitment then (v, False)
         else (v\<lparr>validCommitments := (validCommitments v)(generatedCommitment := False)\<rparr>, True))"

section \<open>Publishers\<close>

datatype settle_error =
    CommitmentLength nat
  | DecodeCommitment hex_error
  | SubmitCommitOrder string
  | WaitMinedError string
  | CommitOrderReverted
  | PublisherDisabled
  | MissingArguments | MissingChainID
  | DialRpc string | ParseAbi string
  | InvalidKeyHex hex_error | ParseKey string
  | CreateTransactor string
  | InvalidChainID num_error

text \<open>
  go-ethereum, with handles of type \<open>'h\<close> and a chain state \<open>'s\<close>.  \<open>Transact\<close> submits a call of
  a method of the bound contract with a 32-byte argument; \<open>WaitMined\<close> gives the receipt status.
\<close>

record ('h, 's) eth_lib =
  Dial :: "string \<Rightarrow> string + 'h"
  abi_JSON :: "string \<Rightarrow> string + 'h"
  HexToAddress :: "string \<Rightarrow> 'h"
  HexToECDSA :: "string \<Rightarrow> string + 'h"
  NewKeyedTransactorWithChainID :: "'h \<Rightarrow> int \<Rightarrow> string + 'h"
  Transact :: "'h \<times> 'h \<times> 'h \<Rightarrow> 'h \<Rightarrow> string \<Rightarrow> bytes \<Rightarrow> 's \<Rightarrow> string + ('h \<times> 's)"
  WaitMined :: "'h \<Rightarrow> 'h \<Rightarrow> 's \<Rightarrow> string + (nat \<times> 's)"

text \<open>\<open>bind.NewBoundContract(addr, abi, client, ...)\<close> is the triple of its arguments.\<close>

record 'h EVMPublisher =
  client :: 'h
  contract :: "'h \<times> 'h \<times> 'h"
  authBase :: 'h

fun join_lines :: "string list \<Rightarrow> string" where
  "join_lines [] = []"
| "join_lines [l] = l"
| "join_lines (l # ls) = l @ CHR 0x0A # join_lines ls"

definition orderVerifierABI :: string where
  "orderVerifierABI = join_lines
     [''['',
      ''  {'',
      ''    \"inputs\": ['',
      ''      {'',
      ''        \"internalType\": \"bytes32\",'',
      ''        \"name\": \"commitment\",'',
      ''        \"type\": \"bytes32\"'',
      ''      }'',
      ''    ],'',
      ''    \"name\": \"commitOrder\",'',
      ''    \"outputs\": [],'',
      ''    \"stateMutability\": \"nonpayable\",'',
      ''    \"type\": \"function\"'',
      ''  }'',
      '']'']"

definition parsePrivateKey :: "('h, 's) eth_lib \<Rightarrow> string \<Rightarrow> settle_error + 'h" where
  "parsePrivateKey lib privateKeyHex =
     (let key = TrimPrefix privateKeyHex ''0x'' in
      case hex_DecodeString key of
        Inl e \<Rightarrow> Inl (InvalidKeyHex e)
      | Inr _ \<Rightarrow> (case HexToECDSA lib key of Inl e \<Rightarrow> Inl (ParseKey e) | Inr pk \<Rightarrow> Inr pk))"

definition NewEVMPublisher ::
  "('h, 's) eth_lib \<Rightarrow> string \<Rightarrow> string \<Rightarrow> string \<Rightarrow> int option \<Rightarrow> settle_error + 'h EVMPublisher" where
  "NewEVMPublisher lib rpcURL contractAddress privateKeyHex chainID =
     (if rpcURL = [] \<or> contractAddress = [] \<or> privateKeyHex = [] then Inl MissingArguments
      else (case chainID of
        None \<Rightarrow> Inl MissingChainID
      | Some cid \<Rightarrow> (case Dial lib rpcURL of
        Inl e \<Rightarrow> Inl (DialRpc e)
      | Inr cl \<Rightarrow> (case abi_JSON lib orderVerifierABI of
        Inl e \<Rightarrow> Inl (ParseAbi e)
      | Inr parsedABI \<Rightarrow>
         (let addr = HexToAddress lib contractAddress; bound = (addr, parsedABI, cl) in
          case parsePrivateKey lib privateKeyHex of
            Inl e \<Rightarrow> Inl e
          | Inr pk \<Rightarrow> (case NewKeyedTransactorWithChainID lib pk cid of
              Inl e \<Rightarrow> Inl (CreateTransactor e)
            | Inr auth \<Rightarrow> Inr \<lparr>client = cl, contract = bound, authBase = auth\<rparr>))))))"

definition parseCommitment32 :: "string \<Rightarrow> settle_error + bytes" where
  "parseCommitment32 commitmentHex =
     (let raw = TrimPrefix commitmentHex ''0x'' in
      if length raw \<noteq> 64 then Inl (CommitmentLength (length raw))
      else (case hex_DecodeString raw of
              Inl e \<Rightarrow> Inl (DecodeCommitment e)
            | Inr b \<Rightarrow> Inr (take 32 (b @ replicate 32 0))))"

text \<open>\<open>(*EVMPublisher).PublishCommitment\<close>; the mutex makes a call one step on the chain.\<close>

definition evm_PublishCommitment ::
  "('h, 's) eth_lib \<Rightarrow> 'h EVMPublisher \<Rightarrow> string \<Rightarrow> 's \<Rightarrow> settle_error option \<times> 's" where
  "evm_PublishCommitment lib p commitmentHex s =
     (case parseCommitment32 commitmentHex of
        Inl e \<Rightarrow> (Some e, s)
      | Inr commitment \<Rightarrow>
         (case Transact lib (contract p) (authBase p) ''commitOrder'' commitment s of
            Inl e \<Rightarrow> (Some (SubmitCommitOrder e), s)
          | Inr (tx, s1) \<Rightarrow>
             (case WaitMined lib (client p) tx s1 of
                Inl e \<Rightarrow> (Some (WaitMinedError e), s1)
              | Inr (status, s2) \<Rightarrow>
                 (if status \<noteq> 1 then (Some CommitOrderReverted, s2) else (None, s2)))))"

datatype 'h publisher = NoopPublisher | LiveEVM "'h EVMPublisher"

fun PublishCommitment ::
  "('h, 's) eth_lib \<Rightarrow> 'h publisher \<Rightarrow> string \<Rightarrow> 's \<Rightarrow> settle_error option \<times> 's" where
  "PublishCommitment lib NoopPublisher commitmentHex s = (None, s)"
| "PublishCommitment lib (LiveEVM p) commitmentHex s = evm_PublishCommitment lib p commitmentHex s"

text \<open>The stub compiled without the \<open>evm\<close> tag.\<close>

definition stub_NewEVMPublisher ::
  "string \<Rightarrow> string \<Rightarrow> string \<Rightarrow> int option \<Rightarrow> settle_error + 'h EVMPublisher" where
  "stub_NewEVMPublisher rpcURL contractAddress privateKeyHex chainID = Inl PublisherDisabled"

definition stub_PublishCommitment :: "string \<Rightarrow> settle_error option" where
  "stub_PublishCommitment commitmentHex = Some PublisherDisabled"

text \<open>\<open>NewPublisherFromEnv\<close>; an unset variable reads as the empty string.\<close>

definition NewPublisherFromEnv ::
  "(string \<Rightarrow> string \<Rightarrow> string \<Rightarrow> int option \<Rightarrow> settle_error + 'h EVMPublisher) \<Rightarrow> (string \<Rightarrow> string) \<Rightarrow>
   settle_error + 'h publisher" where
  "NewPublisherFromEnv mk env =
     (let rpcURL = env ''ORDER_VERIFIER_RPC_URL''; contract = env ''ORDER_VERIFIER_CONTRACT'';
          pk = env ''ORDER_VERIFIER_PRIVATE_KEY''; chainIDRaw = env ''ORDER_VERIFIER_CHAIN_ID''
      in if rpcURL = [] \<or> contract = [] \<or> pk = [] \<or> chainIDRaw = [] then Inr NoopPublisher
         else (case ParseInt64 chainIDRaw of
                 Inl e \<Rightarrow> Inl (InvalidChainID e)
               | Inr chainIDInt \<Rightarrow>
                  (case mk rpcURL contract pk (Some chainIDInt) of
                     Inl e \<Rightarrow> Inl e
                   | Inr pub \<Rightarrow> Inr (LiveEVM pub))))"

section \<open>Commitments reach the contract unchanged\<close>

lemma hex_second_not_x: "1 < length (hex_EncodeToString bs) \<Longrightarrow> hex_EncodeToString bs ! 1 \<noteq> CHR ''x''"
proof (cases bs)
  case (Cons b bs')
  have "hex_digits ! (unat b mod 16) \<in> set hex_digits" by (rule nth_mem) (simp add: hex_digits_def)
  then have "hex_digits ! (unat b mod 16) \<noteq> CHR ''x''" by (auto simp: hex_digits_def)
  then show ?thesis by (simp add: Cons hex_EncodeToString_def hex_pair_def)
qed (simp add: hex_EncodeToString_def)

lemma TrimPrefix_hex: "TrimPrefix (hex_EncodeToString bs) ''0x'' = hex_EncodeToString bs"
proof -
  have "take 2 (hex_EncodeToString bs) \<noteq> ''0x''"
  proof
    assume *: "take 2 (hex_EncodeToString bs) = ''0x''"
    then have "1 < length (hex_EncodeToString bs)"
      by (metis One_nat_def length_Cons length_take less_add_one list.size(3) min_less_iff_conj plus_1_eq_Suc)
    moreover from * this have "hex_EncodeToString bs ! 1 = CHR ''x''"
      by (metis nth_take lessI numeral_2_eq_2 One_nat_def nth_Cons_0 nth_Cons_Suc)
    ultimately show False using hex_second_not_x by blast
  qed
  then show ?thesis by (simp add: TrimPrefix_def numeral_2_eq_2)
qed

lemma parseCommitment32_hex:
  "length d = 32 \<Longrightarrow> parseCommitment32 (hex_EncodeToString d) = Inr d"
  by (simp add: parseCommitment32_def TrimPrefix_hex)

lemma parseCommitment32_iff:
  "parseCommitment32 s = Inr c \<longleftrightarrow> hex_DecodeString (TrimPrefix s ''0x'') = Inr c \<and> length c = 32"
  using hex_DecodeString_length [of "TrimPrefix s ''0x''"]
  by (auto simp: parseCommitment32_def Let_def split: sum.splits)

text \<open>
  What go-ethereum promises about a mined call: if the receipt of a submitted \<open>commitOrder\<close>
  has status 1, the contract has executed it, in whatever state it was.
\<close>

definition chain_executes ::
  "('h, 's) eth_lib \<Rightarrow> 'h EVMPublisher \<Rightarrow> ('s \<Rightarrow> OrderVerifier) \<Rightarrow> bool" where
  "chain_executes lib p view \<longleftrightarrow>
     (\<forall>c s tx s1 s2. Transact lib (contract p) (authBase p) ''commitOrder'' c s = Inr (tx, s1) \<longrightarrow>
        WaitMined lib (client p) tx s1 = Inr (1, s2) \<longrightarrow> (\<exists>v. view s2 = commitOrder c v))"

lemma published_commitOrder:
  assumes "chain_executes lib p view" and "evm_PublishCommitment lib p commitmentHex s = (None, s2)"
    and "parseCommitment32 commitmentHex = Inr c"
  shows "\<exists>v. view s2 = commitOrder c v"
  using assms
  by (auto simp: evm_PublishCommitment_def chain_executes_def split: sum.splits prod.splits if_splits)

definition order_strings :: "OrderMetadata \<Rightarrow> OrderData" where
  "order_strings o' = \<lparr>orderId = OrderID o', user = User o', token = Token o',
     amountStr = format_f 6 (Amount o'), priceStr = format_f 6 (Price o'),
     timestampStr = show_int (sint (Timestamp o')), nonce = Nonce o'\<rparr>"

lemma verifyOrder_order_strings:
  "verifyOrder (order_strings o') v =
     (let c = sha256 (bytes_of_string (order_data o')) in
      if \<not> validCommitments v c then (v, False)
      else (v\<lparr>validCommitments := (validCommitments v)(c := False)\<rparr>, True))"
  by (simp add: verifyOrder_def order_strings_def order_data_def Let_def del: bytes_of_string_append)

text \<open>A chain that runs the contract at once, to exhibit the hypotheses.\<close>

definition demo_lib :: "(nat, OrderVerifier) eth_lib" where
  "demo_lib = \<lparr>Dial = (\<lambda>_. Inr 1), abi_JSON = (\<lambda>_. Inr 2), HexToAddress = (\<lambda>_. 3), HexToECDSA = (\<lambda>_. Inr 4),
     NewKeyedTransactorWithChainID = (\<lambda>_ _. Inr 5),
     Transact = (\<lambda>_ _ method c s. if method = ''commitOrder'' then Inr (6, commitOrder c s) else Inl ''no method''),
     WaitMined = (\<lambda>_ _ s. Inr (1, s))\<rparr>"

definition demo_publisher :: "nat EVMPublisher" where
  "demo_publisher = \<lparr>client = 1, contract = (3, 2, 1), authBase = 5\<rparr>"

definition empty_verifier :: OrderVerifier where
  "empty_verifier = \<lparr>validCommitments = (\<lambda>_. False)\<rparr>"

lemma demo_executes: "chain_executes demo_lib demo_publisher (\<lambda>s. s)"
  by (auto simp: chain_executes_def demo_lib_def)

lemma demo_publish:
  "length d = 32 \<Longrightarrow>
     evm_PublishCommitment demo_lib demo_publisher (hex_EncodeToString d) empty_verifier =
       (None, commitOrder d empty_verifier)"
  by (simp add: evm_PublishCommitment_def parseCommitment32_hex demo_lib_def)

section \<open>Properties\<close>

text \<open>
  C28: an order commitment produced by the Go layer and published with success is accepted by
  the contract for exactly that order, rendered as Go renders it, and only once: the hash, the
  hexadecimal round trip and the contract's own formatting agree.
\<close>

theorem published_order_verified_once:
  assumes "chain_executes lib p view"
    and "evm_PublishCommitment lib p (GenerateCommitment o') s = (None, s2)"
  shows "snd (verifyOrder (order_strings o') (view s2)) \<and>
    \<not> snd (verifyOrder (order_strings o') (fst (verifyOrder (order_strings o') (view s2))))"
proof -
  have "parseCommitment32 (GenerateCommitment o') = Inr (sha256 (bytes_of_string (order_data o')))"
    by (simp add: GenerateCommitment_def parseCommitment32_hex)
  from published_commitOrder [OF assms this] show ?thesis
    by (auto simp: verifyOrder_order_strings Let_def commitOrder_def)
qed

theorem published_order_verified_once_witness:
  "snd (verifyOrder (order_strings order_sample)
     (snd (evm_PublishCommitment demo_lib demo_publisher (GenerateCommitment order_sample) empty_verifier)))"
proof -
  have "evm_PublishCommitment demo_lib demo_publisher (GenerateCommitment order_sample) empty_verifier =
    (None, commitOrder (sha256 (bytes_of_string (order_data order_sample))) empty_verifier)"
    by (simp add: GenerateCommitment_def demo_publish)
  from published_order_verified_once [OF demo_executes this] this show ?thesis by simp
qed

text \<open>
  When \<open>PublishCommitment\<close> of the EVM publisher returns nil for a batch commitment, the
  contract holds exactly the SHA-256 root of the batch.
\<close>

lemma published_batch_recorded:
  assumes "chain_executes lib p view"
    and "evm_PublishCommitment lib p (GenerateBatchCommitment batch) s = (None, s2)"
  shows "validCommitments (view s2) (sha256 (batch_encoding batch))"
proof -
  have "parseCommitment32 (GenerateBatchCommitment batch) = Inr (sha256 (batch_encoding batch))"
    by (simp add: GenerateBatchCommitment_encoding parseCommitment32_hex)
  from published_commitOrder [OF assms this] show ?thesis by (auto simp: commitOrder_def)
qed

text \<open>
  \<open>parseCommitment32\<close> accepts exactly the hexadecimal strings of 32 bytes, with or without
  \<open>0x\<close>, and yields those bytes; on anything else the publisher reports an error and sends
  nothing to the chain.
\<close>

lemma malformed_commitment_not_sent:
  "(parseCommitment32 h = Inr c \<longleftrightarrow> hex_DecodeString (TrimPrefix h ''0x'') = Inr c \<and> length c = 32) \<and>
   (case parseCommitment32 h of
      Inl e \<Rightarrow> evm_PublishCommitment lib p h s = (Some e, s)
    | Inr d \<Rightarrow> length d = 32)"
  using parseCommitment32_iff [of h]
  by (auto simp: evm_PublishCommitment_def split: sum.splits)

text \<open>
  The publisher chosen at start-up.  With one of the four variables missing it is the no-op
  publisher and no error; otherwise a chain ID that is not a decimal \<open>int64\<close>, or a failing
  \<open>NewEVMPublisher\<close>, is an error; otherwise it is the EVM publisher for exactly these values.
  In a build without the \<open>evm\<close> tag the last case is an error too.
\<close>

lemma publisher_from_env:
  "NewPublisherFromEnv mk env =
     (if \<exists>v \<in> {''ORDER_VERIFIER_RPC_URL'', ''ORDER_VERIFIER_CONTRACT'', ''ORDER_VERIFIER_PRIVATE_KEY'',
               ''ORDER_VERIFIER_CHAIN_ID''}. env v = []
      then Inr NoopPublisher
      else (case ParseInt64 (env ''ORDER_VERIFIER_CHAIN_ID'') of
              Inl e \<Rightarrow> Inl (InvalidChainID e)
            | Inr i \<Rightarrow> map_sum id LiveEVM
                (mk (env ''ORDER_VERIFIER_RPC_URL'') (env ''ORDER_VERIFIER_CONTRACT'')
                   (env ''ORDER_VERIFIER_PRIVATE_KEY'') (Some i)))) \<and>
   NewPublisherFromEnv stub_NewEVMPublisher env \<noteq> Inr (LiveEVM p)"
  by (auto simp: NewPublisherFromEnv_def stub_NewEVMPublisher_def Let_def split: sum.splits)

end
