(* ===== verification/Rpc_Server.thy ===== *)
theory Rpc_Server
  imports Reception_Store Tx_Queue_Liveness Settlement
begin

text \<open>
  \<open>internal/rpc/server.go\<close>.  The handlers as functions of what the log, the leader and the gRPC
  library answer; the interleaving of concurrent \<open>SubmitTx\<close> handlers with the ordering backend;
  and the cache of proxy connections with its double-checked locking.
\<close>

section \<open>Handlers\<close>

text \<open>What the server sees of its backend: a local queue, or a Raft node and its leadership.\<close>

datatype backend_view = LocalBackend | RaftBackend (is_leader: bool) (leader_address: string)

datatype route = HandleHere | NoLeader | ForwardTo string

text \<open>\<open>172.31.40.29:7000\<close> becomes \<open>172.31.40.29:12345\<close>; an address without a port is the host.\<close>

definition leader_grpc_addr :: "string \<Rightarrow> string" where
  "leader_grpc_addr leaderRaftAddr =
     (let host = (case SplitHostPort leaderRaftAddr of Inr (h, _) \<Rightarrow> h | Inl _ \<Rightarrow> leaderRaftAddr)
      in JoinHostPort host ''12345'')"

fun route_of :: "backend_view \<Rightarrow> route" where
  "route_of LocalBackend = HandleHere"
| "route_of (RaftBackend leader addr) =
     (if leader then HandleHere else if addr = [] then NoLeader else ForwardTo (leader_grpc_addr addr))"

record SubmitAck = Accepted :: bool

record JoinRequest =
  NodeId :: string
  RaftAddress :: string

record JoinResponse =
  Success :: bool
  ErrorMessage :: string

text \<open>
  \<open>SubmitTx\<close>: \<open>dial\<close> is \<open>getProxyClient\<close>, \<open>forward\<close> the RPC to the leader, \<open>submit\<close> the backend's
  \<open>SubmitWithReceipt\<close>.  A handler returns an acknowledgement (or nil) and an error (or nil).
\<close>

definition SubmitTx ::
  "backend_view \<Rightarrow> (string \<Rightarrow> string + 'c) \<Rightarrow> ('c \<Rightarrow> bytes \<Rightarrow> SubmitAck option \<times> string option) \<Rightarrow>
   (bytes \<Rightarrow> string + EncryptedTransaction) \<Rightarrow> bytes \<Rightarrow> ReceptionStore \<Rightarrow>
   (SubmitAck option \<times> string option) \<times> ReceptionStore" where
  "SubmitTx view dial forward submit ciphertext store =
     (case route_of view of
        NoLeader \<Rightarrow> ((None, Some ''no leader available in cluster''), store)
      | ForwardTo addr \<Rightarrow>
         (case dial addr of
            Inl e \<Rightarrow> ((None, Some (''failed to connect to leader '' @ addr @ '' for proxying: '' @ e)), store)
          | Inr c \<Rightarrow> (forward c ciphertext, store))
      | HandleHere \<Rightarrow>
         (case submit ciphertext of
            Inl e \<Rightarrow> ((Some \<lparr>Accepted = False\<rparr>, Some (''failed to submit transaction: '' @ e)), store)
          | Inr tx \<Rightarrow> ((Some \<lparr>Accepted = True\<rparr>, None), store_Add (reception_proof tx) store)))"

definition JoinCluster ::
  "backend_view \<Rightarrow> (string \<Rightarrow> string + 'c) \<Rightarrow> ('c \<Rightarrow> JoinRequest \<Rightarrow> JoinResponse option \<times> string option) \<Rightarrow>
   (string \<Rightarrow> string \<Rightarrow> string option) \<Rightarrow> JoinRequest \<Rightarrow> JoinResponse option \<times> string option" where
  "JoinCluster view dial forward addVoter req =
     (case view of
        LocalBackend \<Rightarrow>
          (Some \<lparr>Success = False, ErrorMessage = ''ordering backend does not support dynamic joins''\<rparr>, None)
      | RaftBackend _ _ \<Rightarrow>
         (case route_of view of
            NoLeader \<Rightarrow> (Some \<lparr>Success = False, ErrorMessage = ''no leader available in cluster''\<rparr>, None)
          | ForwardTo addr \<Rightarrow>
             (case dial addr of
                Inl e \<Rightarrow> (None, Some (''failed to connect to leader '' @ addr @ '' for proxying join: '' @ e))
              | Inr c \<Rightarrow> forward c req)
          | HandleHere \<Rightarrow>
             (case addVoter (NodeId req) (RaftAddress req) of
                Some e \<Rightarrow> (Some \<lparr>Success = False, ErrorMessage = ''failed to add voter: '' @ e\<rparr>, None)
              | None \<Rightarrow> (Some \<lparr>Success = True, ErrorMessage = ''''\<rparr>, None))))"

text \<open>\<open>NewServer\<close>: a publisher that cannot be built is replaced by the no-op publisher.\<close>

definition server_publisher :: "settle_error + 'h publisher \<Rightarrow> 'h publisher" where
  "server_publisher r = (case r of Inl _ \<Rightarrow> NoopPublisher | Inr p \<Rightarrow> p)"

definition server_PublishCommitment ::
  "('h, 's) eth_lib \<Rightarrow> settle_error + 'h publisher \<Rightarrow> string \<Rightarrow> 's \<Rightarrow> settle_error option \<times> 's" where
  "server_PublishCommitment lib r commitment s = PublishCommitment lib (server_publisher r) commitment s"

text \<open>\<open>Start\<close>: \<open>listen\<close> and \<open>serve\<close> are the operating system's and the gRPC library's.\<close>

datatype start_error = FailedToListen string | FailedToServe string

definition server_Start :: "(string \<Rightarrow> string option) \<Rightarrow> (string \<Rightarrow> string option) \<Rightarrow> string \<Rightarrow> start_error option" where
  "server_Start listen serve address =
     (case listen address of
        Some e \<Rightarrow> Some (FailedToListen e)
      | None \<Rightarrow> map_option FailedToServe (serve address))"

section \<open>Concurrent submissions\<close>

text \<open>
  A \<open>SubmitTx\<close> handler that runs here makes one more step after the backend has answered it:
  \<open>proofs.Add\<close>, atomic under the store's mutex, together with the reply, which touches nothing shared.
  Between the backend's answer and that step other handlers may run.
  \<open>pending_proof\<close> holds the receipts whose proof has not been added yet.
\<close>

record 's rpc_world =
  backend :: 's
  pending_proof :: "nat \<Rightarrow> EncryptedTransaction option"
  store :: ReceptionStore

datatype 'a rpc_action = Backend 'a | AddProof nat

datatype rpc_event =
    LogEvent log_event
  | ProofAdded nat EncryptedTransaction
  | Replied nat bool

fun receive_answers ::
  "log_event list \<Rightarrow> (nat \<Rightarrow> EncryptedTransaction option) \<Rightarrow> (nat \<Rightarrow> EncryptedTransaction option)" where
  "receive_answers [] m = m"
| "receive_answers (SubmitReturned r (Inr tx) # es) m = receive_answers es (m(r \<mapsto> tx))"
| "receive_answers (_ # es) m = receive_answers es m"

fun failure_replies :: "log_event list \<Rightarrow> rpc_event list" where
  "failure_replies [] = []"
| "failure_replies (SubmitReturned r (Inl e) # es) = Replied r False # failure_replies es"
| "failure_replies (_ # es) = failure_replies es"

fun rpc_step ::
  "('a, 's, log_event) stepper \<Rightarrow> 'a rpc_action \<Rightarrow> 's rpc_world \<Rightarrow> ('s rpc_world \<times> rpc_event list) option" where
  "rpc_step step (Backend a) w =
     (case step a (backend w) of
        None \<Rightarrow> None
      | Some (s', es) \<Rightarrow>
          Some (w\<lparr>backend := s', pending_proof := receive_answers es (pending_proof w)\<rparr>,
                map LogEvent es @ failure_replies es))"
| "rpc_step step (AddProof r) w =
     (case pending_proof w r of
        None \<Rightarrow> None
      | Some tx \<Rightarrow>
          Some (w\<lparr>pending_proof := (pending_proof w)(r := None),
                  store := store_Add (reception_proof tx) (store w)\<rparr>,
                [ProofAdded r tx, Replied r True]))"

definition rpc_init :: "'s \<Rightarrow> 's rpc_world" where
  "rpc_init s = \<lparr>backend = s, pending_proof = (\<lambda>_. None), store = NewReceptionStore\<rparr>"

definition ProofCount :: "'s rpc_world \<Rightarrow> nat" where
  "ProofCount w = store_Count (store w)"

section \<open>The proxy cache\<close>

datatype proxy_pc = ProxyMissed string | ProxyDialing string

record proxy_world =
  proxyCache :: "string \<Rightarrow> nat option"
  conns :: "(string \<times> nat) list"
  writer :: "nat option"
  proxy_calls :: "nat \<Rightarrow> proxy_pc option"
  server_closed :: bool
  closing :: bool
  closed_conns :: "nat list"

datatype proxy_action =
    GetProxyClient nat string
  | ProxyLock nat
  | DialOk nat nat
  | DialFails nat string
  | ServerClose
  | CloseConns

datatype proxy_event =
    ProxyReturned nat "string + nat"
  | Dialed string nat
  | ProxyPanic string

text \<open>
  \<open>getProxyClient\<close>: the read-locked lookup (possible while no writer holds the lock), the
  write-locked second lookup, and the dial, during which the write lock is held.  \<open>Close\<close>
  closes \<open>s.done\<close> (a second call panics) and then, under the lock, every connection.
\<close>

fun getProxyClient_step :: "proxy_action \<Rightarrow> proxy_world \<Rightarrow> (proxy_world \<times> proxy_event list) option" where
  "getProxyClient_step (GetProxyClient k addr) w =
     (if writer w \<noteq> None \<or> proxy_calls w k \<noteq> None then None
      else (case proxyCache w addr of
              Some c \<Rightarrow> Some (w, [ProxyReturned k (Inr c)])
            | None \<Rightarrow> Some (w\<lparr>proxy_calls := (proxy_calls w)(k \<mapsto> ProxyMissed addr)\<rparr>, [])))"
| "getProxyClient_step (ProxyLock k) w =
     (case (writer w, proxy_calls w k) of
        (None, Some (ProxyMissed addr)) \<Rightarrow>
          (case proxyCache w addr of
             Some c \<Rightarrow> Some (w\<lparr>proxy_calls := (proxy_calls w)(k := None)\<rparr>, [ProxyReturned k (Inr c)])
           | None \<Rightarrow> Some (w\<lparr>writer := Some k, proxy_calls := (proxy_calls w)(k \<mapsto> ProxyDialing addr)\<rparr>, []))
      | _ \<Rightarrow> None)"
| "getProxyClient_step (DialOk k c) w =
     (case proxy_calls w k of
        Some (ProxyDialing addr) \<Rightarrow>
          Some (w\<lparr>proxyCache := (proxyCache w)(addr \<mapsto> c), conns := (addr, c) # filter (\<lambda>x. fst x \<noteq> addr) (conns w), writer := None,
                  proxy_calls := (proxy_calls w)(k := None)\<rparr>,
                [Dialed addr c, ProxyReturned k (Inr c)])
      | _ \<Rightarrow> None)"
| "getProxyClient_step (DialFails k e) w =
     (case proxy_calls w k of
        Some (ProxyDialing addr) \<Rightarrow>
          Some (w\<lparr>writer := None, proxy_calls := (proxy_calls w)(k := None)\<rparr>, [ProxyReturned k (Inl e)])
      | _ \<Rightarrow> None)"
| "getProxyClient_step ServerClose w =
     (if server_closed w then Some (w, [ProxyPanic ''close of closed channel''])
      else Some (w\<lparr>server_closed := True, closing := True\<rparr>, []))"
| "getProxyClient_step CloseConns w =
     (if closing w \<and> writer w = None
      then Some (w\<lparr>closing := False, closed_conns := closed_conns w @ map snd (conns w)\<rparr>, [])
      else None)"

definition proxy_init :: proxy_world where
  "proxy_init = \<lparr>proxyCache = (\<lambda>_. None), conns = [], writer = None, proxy_calls = (\<lambda>_. None),
     server_closed = False, closing = False, closed_conns = []\<rparr>"


section \<open>Reception proofs\<close>

fun log_events :: "rpc_event list \<Rightarrow> log_event list" where
  "log_events [] = []"
| "log_events (LogEvent e # es) = e # log_events es"
| "log_events (_ # es) = log_events es"

fun added :: "rpc_event list \<Rightarrow> (nat \<times> EncryptedTransaction) list" where
  "added [] = []"
| "added (ProofAdded r tx # es) = (r, tx) # added es"
| "added (_ # es) = added es"

fun accepted :: "rpc_event list \<Rightarrow> nat list" where
  "accepted [] = []"
| "accepted (Replied r True # es) = r # accepted es"
| "accepted (_ # es) = accepted es"

fun backend_actions :: "'a rpc_action list \<Rightarrow> 'a list" where
  "backend_actions [] = []"
| "backend_actions (Backend a # as) = a # backend_actions as"
| "backend_actions (AddProof r # as) = backend_actions as"

lemma log_events_append [simp]: "log_events (xs @ ys) = log_events xs @ log_events ys"
  by (induction xs rule: log_events.induct) auto

lemma added_append [simp]: "added (xs @ ys) = added xs @ added ys"
  by (induction xs rule: added.induct) auto

lemma accepted_append [simp]: "accepted (xs @ ys) = accepted xs @ accepted ys"
  by (induction xs rule: accepted.induct) auto

lemma backend_actions_append [simp]: "backend_actions (xs @ ys) = backend_actions xs @ backend_actions ys"
  by (induction xs rule: backend_actions.induct) auto

lemma log_events_map [simp]: "log_events (map LogEvent es) = es" "added (map LogEvent es) = []"
  "accepted (map LogEvent es) = []"
  by (induction es) auto

lemma failure_replies_other [simp]: "log_events (failure_replies es) = []" "added (failure_replies es) = []"
  "accepted (failure_replies es) = []"
  by (induction es rule: failure_replies.induct) auto

text \<open>The answers of a backend, and the calls answered.\<close>

fun answers :: "log_event list \<Rightarrow> (nat \<times> EncryptedTransaction) list" where
  "answers [] = []"
| "answers (SubmitReturned r (Inr tx) # es) = (r, tx) # answers es"
| "answers (_ # es) = answers es"

lemma answers_append [simp]: "answers (xs @ ys) = answers xs @ answers ys"
  by (induction xs rule: answers.induct) auto

lemma answers_single: "answers [SubmitReturned r x] = (case x of Inl _ \<Rightarrow> [] | Inr tx \<Rightarrow> [(r, tx)])"
  by (cases x) simp_all

lemma answers_iff: "(r, tx) \<in> set (answers es) \<longleftrightarrow> SubmitReturned r (Inr tx) \<in> set es"
  by (induction es rule: answers.induct) auto

lemma receive_answers_Some:
  "receive_answers es m r = Some tx \<Longrightarrow> (r, tx) \<in> set (answers es) \<or> (m r = Some tx \<and> r \<notin> fst ` set (answers es))"
  by (induction es m rule: receive_answers.induct) (auto split: if_splits)

text \<open>Committed transactions with increasing IDs: the ID identifies the call.\<close>

lemma commit_id_unique:
  assumes "sorted_wrt (<) (map tx_id (committed es))" and "Committed r tx \<in> set es" and "Committed q ty \<in> set es"
    and "ID tx = ID ty"
  shows "r = q \<and> tx = ty"
proof -
  have "distinct (map (tx_id \<circ> snd) (commits es))"
    using assms(1) by (simp add: strict_sorted_iff flip: commits_committed(1) map_map)
  then have "inj_on (tx_id \<circ> snd) (set (commits es))" by (simp add: distinct_map)
  from inj_onD [OF this, of "(r, tx)" "(q, ty)"] assms(2-4) show ?thesis
    by (simp add: commits_committed(2))
qed

text \<open>
  What the server needs of its backend to count its proofs: no call is answered twice.
\<close>

locale answering_log =
  fixes init :: "'s" and step :: "('a, 's, log_event) stepper"
  assumes answers_once: "run step as init = Some (s, evs) \<Longrightarrow> distinct (map fst (answers evs))"
begin

lemma backend_run:
  assumes "run (rpc_step step) as (rpc_init init) = Some (w, evs)"
  shows "run step (backend_actions as) init = Some (backend w, log_events evs)"
  by (rule run_invariant [OF assms, where
        P = "\<lambda>as w evs. run step (backend_actions as) init = Some (backend w, log_events evs)"])
    (auto simp: rpc_init_def run_append split: rpc_action.splits option.splits elim!: rpc_step.elims)

text \<open>Each answered call waits for its proof or has exactly one.\<close>

lemma proofs_account:
  assumes "run (rpc_step step) as (rpc_init init) = Some (w, evs)"
  shows "proofs (store w) = map (reception_proof \<circ> snd) (added evs) \<and> accepted evs = map fst (added evs) \<and>
    distinct (map fst (added evs)) \<and> set (added evs) \<subseteq> set (answers (log_events evs)) \<and>
    (\<forall>r tx. pending_proof w r = Some tx \<longrightarrow>
       (r, tx) \<in> set (answers (log_events evs)) \<and> r \<notin> fst ` set (added evs))"
    (is "?P w evs")
proof -
  have "run step (backend_actions as) init = Some (backend w, log_events evs) \<and> ?P w evs"
  proof (rule run_invariant [OF assms, where
        P = "\<lambda>as w evs. run step (backend_actions as) init = Some (backend w, log_events evs) \<and> ?P w evs"])
    show "run step (backend_actions []) init = Some (backend (rpc_init init), log_events []) \<and>
        ?P (rpc_init init) []"
      by (simp add: rpc_init_def NewReceptionStore_def)
  next
    fix as evs a es and w w' :: "'s rpc_world"
    assume IH: "run step (backend_actions as) init = Some (backend w, log_events evs) \<and> ?P w evs"
      and st: "rpc_step step a w = Some (w', es)"
    show "run step (backend_actions (as @ [a])) init = Some (backend w', log_events (evs @ es)) \<and>
        ?P w' (evs @ es)"
    proof (cases a)
      case (AddProof r)
      with st obtain tx where tx: "pending_proof w r = Some tx"
        and w': "w' = w\<lparr>pending_proof := (pending_proof w)(r := None),
          store := store_Add (reception_proof tx) (store w)\<rparr>"
        and es: "es = [ProofAdded r tx, Replied r True]" by (auto split: option.splits)
      from IH tx have "(r, tx) \<in> set (answers (log_events evs))" "r \<notin> fst ` set (added evs)" by blast+
      with IH AddProof w' es show ?thesis by (simp add: image_iff)
    next
      case (Backend b)
      with st obtain s' es' where b: "step b (backend w) = Some (s', es')"
        and w': "w' = w\<lparr>backend := s', pending_proof := receive_answers es' (pending_proof w)\<rparr>"
        and es: "es = map LogEvent es' @ failure_replies es'" by (auto split: option.splits)
      have run': "run step (backend_actions as @ [b]) init = Some (s', log_events evs @ es')"
        using IH b by (simp add: run_append)
      have "distinct (map fst (answers (log_events evs @ es')))" by (rule answers_once [OF run'])
      then have new: "r \<notin> fst ` set (answers (log_events evs))" if "r \<in> fst ` set (answers es')" for r
        using that by auto
      have "(r, tx) \<in> set (answers (log_events evs @ es')) \<and> r \<notin> fst ` set (added evs)"
        if "receive_answers es' (pending_proof w) r = Some tx" for r tx
        using receive_answers_Some [OF that]
      proof
        assume *: "(r, tx) \<in> set (answers es')"
        then have "r \<in> fst ` set (answers es')" by (metis fst_conv image_eqI)
        from new [OF this] IH have "r \<notin> fst ` set (added evs)" by (meson image_mono subsetD)
        with * show ?thesis by simp
      next
        assume "pending_proof w r = Some tx \<and> r \<notin> fst ` set (answers es')"
        with IH show ?thesis by simp
      qed
      moreover have "set (added evs) \<subseteq> set (answers (log_events evs @ es'))" using IH by auto
      ultimately show ?thesis using run' IH Backend w' es by simp
    qed
  qed
  then show ?thesis ..
qed

text \<open>If all answers are committed and IDs increase, the proofs are sound and complete.\<close>

lemma proofs_sound:
  assumes "run (rpc_step step) as (rpc_init init) = Some (w, evs)"
    and "\<And>r tx. (r, tx) \<in> set (answers (log_events evs)) \<Longrightarrow> Committed r tx \<in> set (log_events evs)"
    and "sorted_wrt (<) (map tx_id (committed (log_events evs)))"
  shows "ProofCount w = length (accepted evs) \<and> distinct (accepted evs) \<and>
    (\<forall>p \<in> set (proofs (store w)). \<exists>r tx. r \<in> set (accepted evs) \<and> Committed r tx \<in> set (log_events evs) \<and>
       p = reception_proof tx) \<and>
    distinct (map SequenceID (proofs (store w)))"
proof -
  note acc = proofs_account [OF assms(1)]
  have com: "Committed (fst x) (snd x) \<in> set (log_events evs)" if "x \<in> set (added evs)" for x
    using acc that assms(2) [of "fst x" "snd x"] by auto
  have "inj_on (\<lambda>x. ID (snd x)) (set (added evs))"
    by (rule inj_onI) (metis com commit_id_unique [OF assms(3)] prod.expand)
  moreover have "distinct (added evs)" using acc distinct_map by blast
  ultimately have "distinct (map (\<lambda>x. ID (snd x)) (added evs))" by (simp add: distinct_map)
  moreover have "map SequenceID (proofs (store w)) = map (\<lambda>x. ID (snd x)) (added evs)"
    using acc by (simp add: reception_proof_def)
  moreover have "ProofCount w = length (accepted evs)"
    using acc by (simp add: ProofCount_def store_Count_def)
  moreover have "\<exists>r tx. r \<in> set (accepted evs) \<and> Committed r tx \<in> set (log_events evs) \<and> p = reception_proof tx"
    if "p \<in> set (proofs (store w))" for p
  proof -
    from that acc obtain x where x: "x \<in> set (added evs)" "p = reception_proof (snd x)" by auto
    with acc have "fst x \<in> set (accepted evs)" by simp
    with com [OF x(1)] x(2) show ?thesis by blast
  qed
  moreover have "distinct (accepted evs)" using acc by simp
  ultimately show ?thesis by simp
qed

end

text \<open>A backend whose answers are always committed transactions.\<close>

locale receipt_log = answering_log +
  assumes answers_committed: "run step as init = Some (s, evs) \<Longrightarrow> (r, tx) \<in> set (answers evs) \<Longrightarrow>
      Committed r tx \<in> set evs"
begin

lemma committed_proofs_sound:
  assumes "run (rpc_step step) as (rpc_init init) = Some (w, evs)"
    and "sorted_wrt (<) (map tx_id (committed (log_events evs)))"
  shows "ProofCount w = length (accepted evs) \<and> distinct (accepted evs) \<and>
    (\<forall>p \<in> set (proofs (store w)). \<exists>r tx. r \<in> set (accepted evs) \<and> Committed r tx \<in> set (log_events evs) \<and>
       p = reception_proof tx) \<and>
    distinct (map SequenceID (proofs (store w)))"
  by (rule proofs_sound [OF assms(1) answers_committed [OF backend_run [OF assms(1)]] assms(2)])

end

text \<open>The queue answers each call at most once.\<close>

lemma answers_queue_submit:
  "SubmitWithReceipt_step b w = Some (w', es) \<Longrightarrow>
     (\<forall>r. submits w r = Some SubReturned \<longrightarrow> submits w' r = Some SubReturned) \<and>
     (answers es = [] \<or> (\<exists>r tx. answers es = [(r, tx)] \<and> submits w r \<noteq> Some SubReturned \<and>
        submits w' r = Some SubReturned))"
  by (cases b) (auto simp: step_simps answers_single split: queue_splits sum.splits)

lemma answers_queue_other:
  "runAdmissionLoop_step b w = Some (w', es) \<Longrightarrow>
     answers es = [] \<and> (\<forall>r. submits w r = Some SubReturned \<longrightarrow> submits w' r = Some SubReturned)"
  "Drain_step c w = Some (w', es) \<Longrightarrow> answers es = [] \<and> submits w' = submits w"
  by (cases b; auto simp: step_simps split: queue_splits)
    (cases c; auto simp: step_simps split: queue_splits)

lemma queue_answers_once:
  assumes "queue_run as (queue_init cap) = Some (w, evs)"
  shows "distinct (map fst (answers evs)) \<and> (\<forall>r \<in> fst ` set (answers evs). submits w r = Some SubReturned)"
proof (rule run_invariant [OF assms, where P = "\<lambda>_ w evs. distinct (map fst (answers evs)) \<and>
      (\<forall>r \<in> fst ` set (answers evs). submits w r = Some SubReturned)"])
  fix as :: "queue_action list" and evs a es and w w' :: queue_world
  assume P: "distinct (map fst (answers evs)) \<and> (\<forall>r \<in> fst ` set (answers evs). submits w r = Some SubReturned)"
  assume "queue_step a w = Some (w', es)"
  then show "distinct (map fst (answers (evs @ es))) \<and>
      (\<forall>r \<in> fst ` set (answers (evs @ es)). submits w' r = Some SubReturned)"
  proof (cases rule: queue_step_cases)
    case (submit b)
    from answers_queue_submit [OF submit(2)] P show ?thesis by force
  next
    case (loop b)
    from answers_queue_other(1) [OF loop(2)] P show ?thesis by auto
  next
    case (drain b)
    from answers_queue_other(2) [OF drain(2)] P show ?thesis by auto
  qed (use P in \<open>auto simp: queue_Close_def\<close>)
qed simp

lemma queue_answers_committed:
  "queue_run as (queue_init cap) = Some (w, evs) \<Longrightarrow> (r, tx) \<in> set (answers evs) \<Longrightarrow> Committed r tx \<in> set evs"
  using history_ok_run by (auto simp: answers_iff history_ok_def receipts_ok_def)

interpretation queue_receipts: receipt_log "queue_init cap" queue_step for cap :: nat
proof unfold_locales
  show "distinct (map fst (answers evs))" if "queue_run as (queue_init cap) = Some (s, evs)" for as s evs
    using queue_answers_once [OF that] by simp
qed (rule queue_answers_committed)

section \<open>Properties\<close>

text \<open>
  C14: however concurrent \<open>SubmitTx\<close> handlers interleave with the local queue, the store holds
  exactly one proof per accepted reply; every proof is that of a transaction committed for that
  call; and (in runs of fewer than \<open>2 ^ 64\<close> steps) no two proofs have the same sequence ID.
\<close>

theorem rpc_proofs_sound:
  assumes "run (rpc_step queue_step) as (rpc_init (queue_init cap)) = Some (w, evs)" and "length as < 2 ^ 64"
  shows "ProofCount w = length (accepted evs) \<and> distinct (accepted evs) \<and>
    (\<forall>p \<in> set (proofs (store w)). \<exists>r tx. r \<in> set (accepted evs) \<and> Committed r tx \<in> set (log_events evs) \<and>
       p = reception_proof tx) \<and>
    distinct (map SequenceID (proofs (store w)))"
proof -
  note run = queue_receipts.backend_run [OF assms(1)]
  have "length (backend_actions as) \<le> length as"
    by (induction as rule: backend_actions.induct) auto
  then have "sorted_wrt (<) (map tx_id (committed (log_events evs)))"
    using queue_log.ids_run [OF run queue_init_avoids [OF run]] assms(2) by simp
  with assms(1) show ?thesis by (rule queue_receipts.committed_proofs_sound)
qed

text \<open>One submission through the server, and two whose proofs are added in the other order.\<close>

definition rpc_sample_actions :: "queue_action rpc_action list" where
  "rpc_sample_actions = map Backend one_tx_actions @ [AddProof 5]"

definition rpc_sample_world :: "queue_world rpc_world" where
  "rpc_sample_world = (rpc_init one_tx_world)\<lparr>store := store_Add (reception_proof one_tx) NewReceptionStore\<rparr>"

definition rpc_sample_events :: "rpc_event list" where
  "rpc_sample_events = map LogEvent one_tx_events @ [ProofAdded 5 one_tx, Replied 5 True]"

lemma rpc_sample_run:
  "run (rpc_step queue_step) rpc_sample_actions (rpc_init (queue_init 2)) =
     Some (rpc_sample_world, rpc_sample_events)"
  by (simp add: rpc_sample_actions_def rpc_sample_world_def rpc_sample_events_def rpc_init_def queue_eval
      fun_upd_idem)

theorem rpc_proofs_sound_witness:
  "ProofCount rpc_sample_world = length (accepted rpc_sample_events) \<and>
    distinct (map SequenceID (proofs (store rpc_sample_world)))"
  using rpc_proofs_sound [OF rpc_sample_run]
  by (simp add: rpc_sample_actions_def one_tx_actions_def)

text \<open>
  The store is not ordered by sequence ID, although its documentation calls that natural:
  two handlers may add their proofs in the opposite order of their commits.
\<close>

lemma rpc_proofs_out_of_order:
  "map_option (\<lambda>(w, _). map SequenceID (proofs (store w)))
     (run (rpc_step queue_step)
        [Backend (Submitter (CallSubmit 1 0 [7])), Backend (Submitter (SendRequest 1)),
         Backend (Submitter (CallSubmit 2 0 [8])), Backend (Submitter (SendRequest 2)),
         Backend (Admission LoopTake), Backend (Admission (LoopStamp 100)), Backend (Admission LoopCommit),
         Backend (Admission LoopTake), Backend (Admission (LoopStamp 101)), Backend (Admission LoopCommit),
         Backend (Submitter (TakeResponse 1)), Backend (Submitter (TakeResponse 2)), AddProof 2, AddProof 1]
        (rpc_init (queue_init 2))) = Some [2, 1]"
  by (simp add: rpc_init_def queue_init_def step_simps reception_proof_def NewReceptionStore_def)

text \<open>
  A follower forwards a submission, unchanged, to port 12345 of the leader's host (IPv6
  hosts in brackets), records nothing itself, and answers with what the leader answered.
\<close>

lemma follower_forwards:
  assumes "set host \<inter> {CHR ''['', CHR '']''} = {}"
    and "set port \<inter> {CHR '':'', CHR ''['', CHR '']''} = {}"
  shows "SubmitTx (RaftBackend False (JoinHostPort host port)) dial forward submit ciphertext st =
    (case dial (JoinHostPort host ''12345'') of
       Inl e \<Rightarrow> ((None, Some (''failed to connect to leader '' @ JoinHostPort host ''12345'' @
                  '' for proxying: '' @ e)), st)
     | Inr c \<Rightarrow> (forward c ciphertext, st)) \<and>
    SplitHostPort (JoinHostPort host ''12345'') = Inr (host, ''12345'')"
proof -
  have "JoinHostPort host port \<noteq> []" by (simp add: JoinHostPort_def)
  moreover have "leader_grpc_addr (JoinHostPort host port) = JoinHostPort host ''12345''"
    by (simp add: leader_grpc_addr_def SplitHostPort_JoinHostPort [OF assms])
  moreover have "SplitHostPort (JoinHostPort host ''12345'') = Inr (host, ''12345'')"
    by (rule SplitHostPort_JoinHostPort [OF assms(1)]) simp
  ultimately show ?thesis by (simp add: SubmitTx_def)
qed

section \<open>Connections\<close>

fun dialed :: "proxy_event list \<Rightarrow> (string \<times> nat) list" where
  "dialed [] = []"
| "dialed (Dialed a c # es) = (a, c) # dialed es"
| "dialed (_ # es) = dialed es"

lemma dialed_append [simp]: "dialed (xs @ ys) = dialed xs @ dialed ys"
  by (induction xs rule: dialed.induct) auto

lemma map_of_rev_range: "map_of (rev xs) a = Some c \<Longrightarrow> c \<in> snd ` set xs"
  by (auto dest!: map_of_SomeD intro: rev_image_eqI)

definition proxy_ok :: "proxy_world \<Rightarrow> proxy_event list \<Rightarrow> bool" where
  "proxy_ok w evs \<longleftrightarrow>
     conns w = rev (dialed evs) \<and> distinct (map fst (dialed evs)) \<and> proxyCache w = map_of (conns w) \<and>
     (\<forall>k addr. proxy_calls w k = Some (ProxyDialing addr) \<longrightarrow> writer w = Some k \<and> proxyCache w addr = None) \<and>
     (\<forall>k c. ProxyReturned k (Inr c) \<in> set evs \<longrightarrow> c \<in> snd ` set (dialed evs))"

lemma proxy_ok_one_dialer:
  assumes "proxy_ok w evs" and "proxy_calls w j = Some (ProxyDialing a)"
    and "proxy_calls w k = Some (ProxyDialing b)"
  shows "j = k"
proof -
  have "writer w = Some j" "writer w = Some k" using assms unfolding proxy_ok_def by blast+
  then show ?thesis by simp
qed

lemma proxy_ok_dial:
  assumes "proxy_ok w evs" and "getProxyClient_step (DialOk k c) w = Some (w', es)"
  shows "proxy_ok w' (evs @ es)"
proof -
  obtain addr where addr: "proxy_calls w k = Some (ProxyDialing addr)"
    and w': "w' = w\<lparr>proxyCache := (proxyCache w)(addr \<mapsto> c),
        conns := (addr, c) # filter (\<lambda>x. fst x \<noteq> addr) (conns w), writer := None,
        proxy_calls := (proxy_calls w)(k := None)\<rparr>"
    and es: "es = [Dialed addr c, ProxyReturned k (Inr c)]"
    using assms(2) by (auto split: option.splits proxy_pc.splits)
  from assms(1) have ok: "conns w = rev (dialed evs)" "distinct (map fst (dialed evs))"
    "proxyCache w = map_of (conns w)"
    and dialing: "\<And>j a. proxy_calls w j = Some (ProxyDialing a) \<Longrightarrow> writer w = Some j \<and> proxyCache w a = None"
    and ret: "\<And>j d. ProxyReturned j (Inr d) \<in> set evs \<Longrightarrow> d \<in> snd ` set (dialed evs)"
    unfolding proxy_ok_def by blast+
  have fresh: "addr \<notin> set (map fst (dialed evs))"
    using dialing [OF addr] ok by (simp add: map_of_eq_None_iff)
  have "x \<in> set (conns w) \<Longrightarrow> fst x \<noteq> addr" for x using fresh ok(1) by auto
  then have same: "filter (\<lambda>x. fst x \<noteq> addr) (conns w) = conns w" by simp
  have none: "proxy_calls w' j \<noteq> Some (ProxyDialing a)" for j a
    using proxy_ok_one_dialer [OF assms(1) _ addr, of j a] w' by auto
  show ?thesis
    unfolding proxy_ok_def
    using ok fresh same none ret w' es by (auto simp: image_iff)
qed

lemma proxy_ok_step:
  assumes "proxy_ok w evs" and "getProxyClient_step a w = Some (w', es)"
  shows "proxy_ok w' (evs @ es)"
proof (cases a)
  case (DialOk k c)
  with proxy_ok_dial assms show ?thesis by simp
next
  case (GetProxyClient k addr)
  with assms show ?thesis
    by (auto simp: proxy_ok_def split: if_splits option.splits dest: map_of_rev_range)
next
  case (ProxyLock k)
  with assms show ?thesis
    by (auto simp: proxy_ok_def split: if_splits option.splits proxy_pc.splits
        dest: map_of_rev_range)
next
  case (DialFails k e)
  with assms(2) obtain addr where addr: "proxy_calls w k = Some (ProxyDialing addr)"
    and w': "w' = w\<lparr>writer := None, proxy_calls := (proxy_calls w)(k := None)\<rparr>"
    and es: "es = [ProxyReturned k (Inl e)]" by (auto split: option.splits proxy_pc.splits)
  have "proxy_calls w' j \<noteq> Some (ProxyDialing a)" for j a
    using proxy_ok_one_dialer [OF assms(1) _ addr, of j a] w' by auto
  with assms(1) w' es show ?thesis by (simp add: proxy_ok_def)
qed (use assms in \<open>auto simp: proxy_ok_def split: if_splits\<close>)

text \<open>
  C32: the double-checked locking works: whatever the interleaving of callers, each address is
  dialled with success at most once, every client handed out is one of those connections, and
  all of them are known to \<open>Close\<close>.
\<close>

theorem proxy_dials_once:
  assumes "run getProxyClient_step as proxy_init = Some (w, evs)"
  shows "distinct (map fst (dialed evs)) \<and> set (conns w) = set (dialed evs) \<and>
    (\<forall>k c. ProxyReturned k (Inr c) \<in> set evs \<longrightarrow> c \<in> snd ` set (dialed evs))"
proof -
  have "proxy_ok w evs"
    by (rule run_invariant [OF assms, where P = "\<lambda>_. proxy_ok"])
      (simp add: proxy_ok_def proxy_init_def, rule proxy_ok_step)
  then show ?thesis by (simp add: proxy_ok_def)
qed

theorem proxy_dials_once_witness:
  "distinct (map fst (dialed [Dialed ''h:1'' 4, ProxyReturned 1 (Inr 4), ProxyReturned 2 (Inr 4)]))"
proof -
  have "run getProxyClient_step
      [GetProxyClient 1 ''h:1'', GetProxyClient 2 ''h:1'', ProxyLock 1, DialOk 1 4, ProxyLock 2] proxy_init =
    Some (proxy_init\<lparr>proxyCache := [''h:1'' \<mapsto> 4], conns := [(''h:1'', 4)]\<rparr>,
      [Dialed ''h:1'' 4, ProxyReturned 1 (Inr 4), ProxyReturned 2 (Inr 4)])"
    by (simp add: proxy_init_def fun_upd_idem fun_eq_iff)
  from proxy_dials_once [OF this] show ?thesis by simp
qed

end
