(* ===== verification/Sequencer_Program.thy ===== *)
theory Sequencer_Program
  imports Pipeline_Properties Rpc_Server
begin

text \<open>
  \<open>cmd/sequencer/main.go\<close>, the running program: the pipeline, the goroutines that publish batch
  commitments, and \<open>main\<close> itself, which waits for a signal and then cancels the context, closes
  the server, waits for the RPCs in flight, closes the log and returns, ending every goroutine.
\<close>

section \<open>State\<close>

text \<open>
  Where \<open>main\<close> is: waiting for the signal, after \<open>cancel()\<close>, after \<open>rpcServer.Close()\<close>, inside
  \<open>GracefulStop\<close> (the listener is closed, no new RPC begins), after it, returned.
\<close>

datatype main_pc = MainServing | MainCancelled | MainRpcClosed | MainStopping | MainStopped | MainExited

text \<open>
  \<open>in_flight\<close> are the submissions whose handlers have not returned.  \<open>settling\<close> lists the
  publication goroutines in the order they were started, with the commitment while they have
  not finished.
\<close>

record ('s, 'c) program =
  pipe :: "'s pipe_world"
  main_at :: main_pc
  in_flight :: "nat list"
  settling :: "string option list"
  chain :: 'c

datatype ('a, 'c) program_action =
    Pipe "'a pipe_action"
  | Settle nat
  | ChainMoves 'c
  | SignalCancel | CloseRpcServer | GracefulStop | AllRpcsDone | CloseLog

datatype program_event = PipeEvent pipe_event | Settled nat string "settle_error option"

record ('h, 'c) settle_config =
  sc_eth :: "('h, 'c) eth_lib"
  sc_publisher :: "settle_error + 'h publisher"

definition program_init :: "'s \<Rightarrow> 'c \<Rightarrow> ('s, 'c) program" where
  "program_init l c = \<lparr>pipe = pipe_init l, main_at = MainServing, in_flight = [], settling = [], chain = c\<rparr>"

section \<open>Steps\<close>

fun rpcs_after :: "pipe_event list \<Rightarrow> nat list \<Rightarrow> nat list" where
  "rpcs_after [] rs = rs"
| "rpcs_after (PLog (SubmitCalled r b) # es) rs = rpcs_after es (rs @ [r])"
| "rpcs_after (PLog (SubmitReturned r x) # es) rs = rpcs_after es (removeAll r rs)"
| "rpcs_after (_ # es) rs = rpcs_after es rs"

fun rpc_begins :: "pipe_event list \<Rightarrow> bool" where
  "rpc_begins [] \<longleftrightarrow> False"
| "rpc_begins (PLog (SubmitCalled r b) # es) \<longleftrightarrow> True"
| "rpc_begins (_ # es) \<longleftrightarrow> rpc_begins es"

text \<open>\<open>go func(commitment string)\<close>, for the batches this node publishes.\<close>

fun settlements_started :: "pipe_event list \<Rightarrow> string list" where
  "settlements_started [] = []"
| "settlements_started (PBatch b c True r # es) = c # settlements_started es"
| "settlements_started (_ # es) = settlements_started es"

definition pipe_moves :: "('s, 'c) program \<Rightarrow> 's pipe_world \<times> pipe_event list \<Rightarrow> ('s, 'c) program \<times> program_event list" where
  "pipe_moves w r = (case r of (p', es) \<Rightarrow>
     (w\<lparr>pipe := p', in_flight := rpcs_after es (in_flight w),
        settling := settling w @ map Some (settlements_started es)\<rparr>, map PipeEvent es))"

text \<open>\<open>main\<close> alone cancels the context and closes the log.\<close>

definition main_only :: "'a \<Rightarrow> 'a pipe_action \<Rightarrow> bool" where
  "main_only close_act a \<longleftrightarrow> (case a of MainCancel \<Rightarrow> True | LogAct b \<Rightarrow> b = close_act | _ \<Rightarrow> False)"

fun program_step ::
  "('a, 's) log_ops \<Rightarrow> 'a \<Rightarrow> reveal_config \<Rightarrow> ('h, 'c) settle_config \<Rightarrow>
   ('a, 'c) program_action \<Rightarrow> ('s, 'c) program \<Rightarrow> (('s, 'c) program \<times> program_event list) option" where
  "program_step ops cls cfg sc (Pipe a) w =
     (if main_at w = MainExited \<or> main_only cls a then None
      else (case pipe_step ops cfg a (pipe w) of
              None \<Rightarrow> None
            | Some (p', es) \<Rightarrow>
               (if rpc_begins es \<and> (main_at w = MainStopping \<or> main_at w = MainStopped) then None
                else Some (pipe_moves w (p', es)))))"
| "program_step ops cls cfg sc (Settle k) w =
     (if main_at w = MainExited \<or> \<not> k < length (settling w) then None
      else (case settling w ! k of
              None \<Rightarrow> None
            | Some commitment \<Rightarrow>
               (let (err, c') = server_PublishCommitment (sc_eth sc) (sc_publisher sc) commitment (chain w)
                in Some (w\<lparr>settling := (settling w)[k := None], chain := c'\<rparr>, [Settled k commitment err]))))"
| "program_step ops cls cfg sc (ChainMoves c') w = Some (w\<lparr>chain := c'\<rparr>, [])"
| "program_step ops cls cfg sc SignalCancel w =
     (if main_at w = MainServing
      then map_option (\<lambda>r. pipe_moves (w\<lparr>main_at := MainCancelled\<rparr>) r) (pipe_step ops cfg MainCancel (pipe w))
      else None)"
| "program_step ops cls cfg sc CloseRpcServer w =
     (if main_at w = MainCancelled then Some (w\<lparr>main_at := MainRpcClosed\<rparr>, []) else None)"
| "program_step ops cls cfg sc GracefulStop w =
     (if main_at w = MainRpcClosed then Some (w\<lparr>main_at := MainStopping\<rparr>, []) else None)"
| "program_step ops cls cfg sc AllRpcsDone w =
     (if main_at w = MainStopping \<and> in_flight w = [] then Some (w\<lparr>main_at := MainStopped\<rparr>, []) else None)"
| "program_step ops cls cfg sc CloseLog w =
     (if main_at w = MainStopped
      then map_option (\<lambda>r. pipe_moves (w\<lparr>main_at := MainExited\<rparr>) r) (pipe_step ops cfg (LogAct cls) (pipe w))
      else None)"

section \<open>The pipeline inside the program\<close>

fun pipe_part :: "program_event list \<Rightarrow> pipe_event list" where
  "pipe_part [] = []"
| "pipe_part (PipeEvent e # es) = e # pipe_part es"
| "pipe_part (_ # es) = pipe_part es"

fun pipe_actions :: "'a \<Rightarrow> ('a, 'c) program_action list \<Rightarrow> 'a pipe_action list" where
  "pipe_actions cls [] = []"
| "pipe_actions cls (Pipe a # as) = a # pipe_actions cls as"
| "pipe_actions cls (SignalCancel # as) = MainCancel # pipe_actions cls as"
| "pipe_actions cls (CloseLog # as) = LogAct cls # pipe_actions cls as"
| "pipe_actions cls (_ # as) = pipe_actions cls as"

lemma pipe_part_append [simp]: "pipe_part (xs @ ys) = pipe_part xs @ pipe_part ys"
  by (induction xs rule: pipe_part.induct) auto

lemma pipe_part_PipeEvent [simp]: "pipe_part (map PipeEvent es) = es"
  by (induction es) auto

lemma set_pipe_part [simp]: "e \<in> set (pipe_part evs) \<longleftrightarrow> PipeEvent e \<in> set evs"
  by (induction evs rule: pipe_part.induct) auto

lemma set_log_part [simp]: "e \<in> set (log_part es) \<longleftrightarrow> PLog e \<in> set es"
  by (induction es rule: log_part.induct) auto

lemma pipe_actions_append [simp]: "pipe_actions cls (xs @ ys) = pipe_actions cls xs @ pipe_actions cls ys"
  by (induction cls xs rule: pipe_actions.induct) auto

lemma settlements_started_append [simp]:
  "settlements_started (xs @ ys) = settlements_started xs @ settlements_started ys"
  by (induction xs rule: settlements_started.induct) auto

lemma settlements_started_PLog [simp]: "settlements_started (map PLog es) = []"
  by (induction es) auto

text \<open>A step of the program is one of the pipeline or leaves the pipeline alone.\<close>

lemma program_step_pipe:
  assumes "program_step ops cls cfg sc a w = Some (w', es)"
  shows "run (pipe_step ops cfg) (pipe_actions cls [a]) (pipe w) = Some (pipe w', pipe_part es)"
  using assms
  by (cases a) (auto simp: pipe_moves_def Let_def split: if_splits option.splits prod.splits)

lemma program_pipe_run:
  assumes "run (program_step ops cls cfg sc) as (program_init l c) = Some (w, evs)"
  shows "run (pipe_step ops cfg) (pipe_actions cls as) (pipe_init l) = Some (pipe w, pipe_part evs)"
  by (rule run_invariant [OF assms, where
        P = "\<lambda>as w evs. run (pipe_step ops cfg) (pipe_actions cls as) (pipe_init l) = Some (pipe w, pipe_part evs)"])
    (auto simp: program_init_def run_append dest!: program_step_pipe)

text \<open>Any run of the pipeline alone is one of the program while it serves.\<close>

lemma rpcs_after_append: "rpcs_after (xs @ ys) rs = rpcs_after ys (rpcs_after xs rs)"
  by (induction xs rs rule: rpcs_after.induct) auto

lemma pipe_run_in_program:
  assumes "run (pipe_step ops cfg) as p = Some (p', es)" and "list_all (\<lambda>a. \<not> main_only cls a) as"
    and "pipe w = p" and "main_at w = MainServing"
  shows "run (program_step ops cls cfg sc) (map Pipe as) w = Some (pipe_moves w (p', es))"
  using assms
proof (induction as arbitrary: p es w)
  case (Cons a as)
  from Cons.prems(1) obtain p1 e1 e2 where step: "pipe_step ops cfg a p = Some (p1, e1)"
    and rest: "run (pipe_step ops cfg) as p1 = Some (p', e2)" and es: "es = e1 @ e2" by (blast elim: run_ConsE)
  obtain w1 where w1: "pipe_moves w (p1, e1) = (w1, map PipeEvent e1)" "pipe w1 = p1" "main_at w1 = MainServing"
    using Cons.prems(4) by (simp add: pipe_moves_def)
  from Cons.IH [OF rest _ w1(2,3)] Cons.prems step w1(1) es show ?case
    by (auto simp: pipe_moves_def rpcs_after_append)
qed (simp add: pipe_moves_def)

section \<open>Publication goroutines\<close>

fun settled :: "program_event list \<Rightarrow> (nat \<times> string) list" where
  "settled [] = []"
| "settled (Settled k c e # es) = (k, c) # settled es"
| "settled (_ # es) = settled es"

lemma settled_append [simp]: "settled (xs @ ys) = settled xs @ settled ys"
  by (induction xs rule: settled.induct) auto

lemma settled_PipeEvent [simp]: "settled (map PipeEvent es) = []"
  by (induction es) auto

text \<open>What \<open>settling\<close> holds: each goroutine's commitment until it has settled.\<close>

definition settling_ok :: "('s, 'c) program \<Rightarrow> program_event list \<Rightarrow> bool" where
  "settling_ok w evs \<longleftrightarrow>
     (let started = settlements_started (pipe_part evs); finished = map fst (settled evs) in
      distinct finished \<and> (\<forall>(k, c) \<in> set (settled evs). k < length started \<and> c = started ! k) \<and>
      length (settling w) = length started \<and>
      (\<forall>k < length started. settling w ! k = (if k \<in> set finished then None else Some (started ! k))))"

lemma settling_ok_pipe_moves:
  assumes "settling_ok w evs" and "es' = map PipeEvent es"
    and "settling w' = settling w @ map Some (settlements_started es)"
  shows "settling_ok w' (evs @ es')"
proof -
  have "k \<notin> fst ` set (settled evs)" if "length (settling w) \<le> k" for k
    using assms(1) that by (fastforce simp: settling_ok_def Let_def)
  with assms show ?thesis
    by (auto simp: settling_ok_def Let_def nth_append)
qed

lemma program_step_frame:
  assumes "program_step ops cls cfg sc a w = Some (w', es)" and "\<forall>k. a \<noteq> Settle k"
  shows "es = map PipeEvent (pipe_part es) \<and>
    settling w' = settling w @ map Some (settlements_started (pipe_part es))"
  using assms by (cases a) (auto simp: pipe_moves_def split: if_splits option.splits)

lemma settling_ok_step:
  assumes "settling_ok w evs" and "program_step ops cls cfg sc a w = Some (w', es)"
  shows "settling_ok w' (evs @ es)"
proof (cases "\<exists>k. a = Settle k")
  case True
  then obtain k where "a = Settle k" ..
  with assms(2) obtain c err c' where k: "k < length (settling w)" "settling w ! k = Some c"
    and w': "w' = w\<lparr>settling := (settling w)[k := None], chain := c'\<rparr>" and es: "es = [Settled k c err]"
    by (auto split: if_splits option.splits prod.splits)
  with assms(1) have "k \<notin> set (map fst (settled evs))" "c = settlements_started (pipe_part evs) ! k"
    by (auto simp: settling_ok_def Let_def split: if_splits)
  with assms(1) k w' es show ?thesis
    by (auto simp: settling_ok_def Let_def nth_list_update)
next
  case False
  with program_step_frame [OF assms(2)] assms(1) show ?thesis by (blast intro: settling_ok_pipe_moves)
qed

lemma settling_ok_run:
  assumes "run (program_step ops cls cfg sc) as (program_init l c) = Some (w, evs)"
  shows "settling_ok w evs"
  by (rule run_invariant [OF assms, where P = "\<lambda>_. settling_ok"])
    (simp add: settling_ok_def program_init_def, rule settling_ok_step)

text \<open>The batches processed with the decision to publish, and that theirs are the commitments published.\<close>

fun published_batches :: "pipe_event list \<Rightarrow> EncryptedTransaction list list" where
  "published_batches [] = []"
| "published_batches (PBatch b c True r # es) = b # published_batches es"
| "published_batches (_ # es) = published_batches es"

lemma published_batches_append [simp]:
  "published_batches (xs @ ys) = published_batches xs @ published_batches ys"
  by (induction xs rule: published_batches.induct) auto

lemma published_batches_PLog [simp]: "published_batches (map PLog es) = []"
  by (induction es) auto

lemma started_published:
  assumes "run (pipe_step ops cfg) as (pipe_init l) = Some (w, evs)"
  shows "settlements_started evs = map GenerateBatchCommitment (published_batches evs)"
proof (rule run_invariant [OF assms, where
      P = "\<lambda>_ _ evs. settlements_started evs = map GenerateBatchCommitment (published_batches evs)"])
  fix as evs a es and w w' :: "'a pipe_world"
  assume "settlements_started evs = map GenerateBatchCommitment (published_batches evs)"
    and "pipe_step ops cfg a w = Some (w', es)"
  moreover have "settlements_started [PBatch b (GenerateBatchCommitment b) p r] =
      map GenerateBatchCommitment (published_batches [PBatch b (GenerateBatchCommitment b) p r])" for b p r
    by (cases p) simp_all
  ultimately show "settlements_started (evs @ es) = map GenerateBatchCommitment (published_batches (evs @ es))"
    by (cases a) (auto simp: log_moves_def simp del: settlements_started.simps(2,3) published_batches.simps(2,3)
        split: if_splits coll_pc.splits list.splits option.splits bat_pc.splits)
qed simp

text \<open>On a local log every batch is published.\<close>

lemma local_settlements:
  assumes "run (pipe_step ops cfg) as (pipe_init l) = Some (w, evs)" and "\<not> rc_is_raft cfg"
  shows "settlements_started evs = map GenerateBatchCommitment (processed evs)"
proof (rule run_invariant [OF assms(1), where
      P = "\<lambda>_ _ evs. settlements_started evs = map GenerateBatchCommitment (processed evs)"])
  fix as evs a es and w w' :: "'a pipe_world"
  assume "settlements_started evs = map GenerateBatchCommitment (processed evs)"
    and "pipe_step ops cfg a w = Some (w', es)"
  with assms(2) show "settlements_started (evs @ es) = map GenerateBatchCommitment (processed (evs @ es))"
    by (cases a) (auto simp: log_moves_def split: if_splits coll_pc.splits list.splits option.splits
        bat_pc.splits)
qed simp

section \<open>Submissions in flight\<close>

lemma rpcs_after_tracks:
  "r \<in> set rs \<or> PLog (SubmitCalled r b) \<in> set es \<Longrightarrow>
     r \<in> set (rpcs_after es rs) \<or> (\<exists>x. PLog (SubmitReturned r x) \<in> set es)"
  by (induction es rs rule: rpcs_after.induct) auto

lemma no_rpcs_after: "\<not> rpc_begins es \<Longrightarrow> rpcs_after es [] = []"
  by (induction es rule: rpc_begins.induct) (auto elim: rpcs_after.elims)

lemma calls_tracked:
  assumes "run (program_step ops cls cfg sc) as (program_init l c) = Some (w, evs)"
    and "PipeEvent (PLog (SubmitCalled r b)) \<in> set evs"
  shows "r \<in> set (in_flight w) \<or> (\<exists>x. PipeEvent (PLog (SubmitReturned r x)) \<in> set evs)"
proof -
  have "PipeEvent (PLog (SubmitCalled r b)) \<in> set evs \<longrightarrow>
      r \<in> set (in_flight w) \<or> (\<exists>x. PipeEvent (PLog (SubmitReturned r x)) \<in> set evs)"
  proof (rule run_invariant [OF assms(1), where P = "\<lambda>_ w evs. PipeEvent (PLog (SubmitCalled r b)) \<in> set evs \<longrightarrow>
      r \<in> set (in_flight w) \<or> (\<exists>x. PipeEvent (PLog (SubmitReturned r x)) \<in> set evs)"])
    fix as evs a es and w w' :: "('a, 'b) program"
    assume "PipeEvent (PLog (SubmitCalled r b)) \<in> set evs \<longrightarrow>
      r \<in> set (in_flight w) \<or> (\<exists>x. PipeEvent (PLog (SubmitReturned r x)) \<in> set evs)"
    moreover assume "program_step ops cls cfg sc a w = Some (w', es)"
    then have "in_flight w' = rpcs_after (pipe_part es) (in_flight w)"
      by (cases a) (auto simp: pipe_moves_def split: if_splits option.splits prod.splits)
    ultimately show "PipeEvent (PLog (SubmitCalled r b)) \<in> set (evs @ es) \<longrightarrow>
        r \<in> set (in_flight w') \<or> (\<exists>x. PipeEvent (PLog (SubmitReturned r x)) \<in> set (evs @ es))"
      using rpcs_after_tracks [of r "in_flight w" b "pipe_part es"] by auto
  qed simp
  with assms(2) show ?thesis by blast
qed

section \<open>Closing the log last\<close>

text \<open>
  What the order of \<open>main\<close>'s last steps relies on: a log becomes closed only by its own
  \<open>Close\<close>, and turns nobody away before.
\<close>

fun turned_away :: "log_event \<Rightarrow> bool" where
  "turned_away (SubmitReturned r x) \<longleftrightarrow> x = Inl ErrQueueClosed"
| "turned_away (DrainReturned c txs e) \<longleftrightarrow> e = Some ErrQueueClosed"
| "turned_away _ \<longleftrightarrow> False"

locale closing_log =
  fixes ops :: "('a, 's) log_ops" and cls :: 'a and is_open :: "'s \<Rightarrow> bool"
  assumes open_step: "ops_step ops a s = Some (s', es) \<Longrightarrow> is_open s \<Longrightarrow> a \<noteq> cls \<Longrightarrow>
      is_open s' \<and> list_all (\<lambda>e. \<not> turned_away e) es"
    and close_step: "ops_step ops cls s = Some (s', es) \<Longrightarrow> es = []"
    and collector_not_close: "ops_drain1 ops \<noteq> cls" and cancel_not_close: "ops_cancel ops \<noteq> cls"
begin

definition before_close :: "'a list \<Rightarrow> ('s, 'c) program \<Rightarrow> program_event list \<Rightarrow> 's \<Rightarrow> bool" where
  "before_close as w evs l \<longleftrightarrow>
     (\<exists>bs s. (as = bs \<or> as = bs @ [cls]) \<and> run (ops_step ops) bs l = Some (s, log_part (pipe_part evs)) \<and>
        list_all (\<lambda>e. \<not> turned_away e) (log_part (pipe_part evs)) \<and> is_open s \<and>
        (main_at w \<noteq> MainExited \<longrightarrow> as = bs \<and> p_log (pipe w) = s))"

text \<open>Steps of the pipeline that move the log, and those that do not.\<close>

lemma pipe_step_log:
  assumes "pipe_step ops cfg a p = Some (p', es)"
  shows "run (ops_step ops) (log_actions ops [a]) (p_log p) = Some (p_log p', log_part es)"
  using assms
  by (cases a) (auto simp: log_moves_def split: if_splits coll_pc.splits list.splits option.splits bat_pc.splits)

lemma open_pipe_step:
  assumes "pipe_step ops cfg a p = Some (p', es)" and "is_open (p_log p)" and "a \<noteq> LogAct cls"
  shows "is_open (p_log p') \<and> list_all (\<lambda>e. \<not> turned_away e) (log_part es)"
  using pipe_step_log [OF assms(1)] assms(2,3) open_step collector_not_close cancel_not_close
  by (cases a) (auto split: option.splits)

lemma before_close_step:
  assumes "before_close as w evs l" and "program_step ops cls cfg sc a w = Some (w', es)"
  shows "before_close (as @ log_actions ops (pipe_actions cls [a])) w' (evs @ es) l"
proof -
  from assms(1) obtain bs s where bs: "as = bs \<or> as = bs @ [cls]"
    "run (ops_step ops) bs l = Some (s, log_part (pipe_part evs))"
    "list_all (\<lambda>e. \<not> turned_away e) (log_part (pipe_part evs))" "is_open s"
    "main_at w \<noteq> MainExited \<longrightarrow> as = bs \<and> p_log (pipe w) = s" by (auto simp: before_close_def)
  have moved: ?thesis if "pipe_step ops cfg pa (pipe w) = Some (pipe w', pipe_part es)" "pa \<noteq> LogAct cls"
    "pipe_actions cls [a] = [pa]" "main_at w \<noteq> MainExited" for pa
    using bs that pipe_step_log [OF that(1)] open_pipe_step [OF that(1)]
    unfolding before_close_def
    by (intro exI [of _ "bs @ log_actions ops [pa]"] exI [of _ "p_log (pipe w')"]) (simp add: run_append)
  have still: ?thesis if "pipe_actions cls [a] = []" "pipe w' = pipe w" "pipe_part es = []"
    "main_at w = MainExited \<longrightarrow> main_at w' = MainExited"
    using bs that unfolding before_close_def by (intro exI [of _ bs] exI [of _ s]) auto
  show ?thesis
  proof (cases a)
    case (Pipe pa)
    with assms(2) show ?thesis
      by (intro moved [of pa]) (auto simp: pipe_moves_def main_only_def split: if_splits option.splits)
  next
    case SignalCancel
    with assms(2) show ?thesis
      by (intro moved [of MainCancel]) (auto simp: pipe_moves_def split: if_splits)
  next
    case CloseLog
    with assms(2) obtain pes where "main_at w = MainStopped" "main_at w' = MainExited"
      "pipe_step ops cfg (LogAct cls) (pipe w) = Some (pipe w', pes)" "es = map PipeEvent pes"
      by (auto simp: pipe_moves_def split: if_splits)
    moreover from this pipe_step_log [of cfg "LogAct cls" "pipe w"] have "log_part pes = []"
      by (auto dest: close_step split: option.splits)
    ultimately show ?thesis using bs CloseLog unfolding before_close_def
      by (intro exI [of _ bs] exI [of _ s]) auto
  qed ((rule still; insert assms(2); auto split: if_splits option.splits prod.splits)+)
qed

lemma before_close_run:
  assumes "run (program_step ops cls cfg sc) as (program_init l c) = Some (w, evs)" and "is_open l"
  shows "before_close (log_actions ops (pipe_actions cls as)) w evs l"
proof (rule run_invariant [OF assms(1), where
      P = "\<lambda>as w evs. before_close (log_actions ops (pipe_actions cls as)) w evs l"])
  show "before_close (log_actions ops (pipe_actions cls [])) (program_init l c) [] l"
    using assms(2) by (simp add: before_close_def program_init_def pipe_init_def)
qed (use before_close_step in simp)

text \<open>Nobody is turned away, and the events of the program are those of a log never closed.\<close>

lemma none_turned_away:
  assumes "run (program_step ops cls cfg sc) as (program_init l c) = Some (w, evs)" and "is_open l"
    and "PipeEvent (PLog e) \<in> set evs"
  shows "\<not> turned_away e"
  using before_close_run [OF assms(1,2)] assms(3) by (auto simp: before_close_def list_all_iff)

text \<open>Once \<open>GracefulStop\<close> has returned no submission is in flight any more.\<close>

lemma stopped_idle_step:
  assumes "program_step ops cls cfg sc a w = Some (w', es)"
    and "main_at w \<in> {MainStopped, MainExited} \<longrightarrow> in_flight w = []"
    and "main_at w' \<in> {MainStopped, MainExited}"
  shows "in_flight w' = []"
proof (cases a)
  case (Pipe pa)
  with assms show ?thesis
    by (auto simp: pipe_moves_def no_rpcs_after split: if_splits option.splits)
next
  case CloseLog
  with assms(1) obtain p' pes where "pipe_step ops cfg (LogAct cls) (pipe w) = Some (p', pes)"
    "in_flight w' = rpcs_after pes (in_flight w)" "main_at w = MainStopped"
    by (auto simp: pipe_moves_def split: if_splits)
  moreover from this(1) have "pes = []"
    by (auto simp: log_moves_def dest: close_step split: if_splits)
  ultimately show ?thesis using assms(2) by simp
qed (use assms in \<open>auto simp: pipe_moves_def split: if_splits option.splits prod.splits\<close>)

lemma exit_answers_all:
  assumes "run (program_step ops cls cfg sc) as (program_init l c) = Some (w, evs)"
    and "main_at w = MainExited" and "PipeEvent (PLog (SubmitCalled r b)) \<in> set evs"
  shows "\<exists>x. PipeEvent (PLog (SubmitReturned r x)) \<in> set evs"
proof -
  have "main_at w \<in> {MainStopped, MainExited} \<longrightarrow> in_flight w = []"
    by (rule run_invariant [OF assms(1), where
          P = "\<lambda>_ w _. main_at w \<in> {MainStopped, MainExited} \<longrightarrow> in_flight w = []"])
      (simp add: program_init_def, use stopped_idle_step in blast)
  with assms(2) have "in_flight w = []" by simp
  then show ?thesis using calls_tracked [OF assms(1,3)] by simp
qed

end

end
