(* ===== verification/Program_Properties.thy ===== *)
theory Program_Properties
  imports Sequencer_Program
begin

text \<open>
  What the running sequencer guarantees from the signal to its end: both backends close only after
  every submission has been answered, and what may nevertheless go wrong in a shutdown.
\<close>

section \<open>Both logs close last\<close>

text \<open>A queue that has not been closed, and has told nobody so.\<close>

definition queue_open :: "queue_world \<Rightarrow> bool" where
  "queue_open w \<longleftrightarrow> \<not> done_closed w \<and> \<not> ch_closed w \<and> loop w \<noteq> LoopReject \<and>
     (\<forall>r. resps w r \<noteq> Some (Inl ErrQueueClosed))"

lemma queue_open_step:
  assumes "queue_step a w = Some (w', es)" and "queue_open w" and "a \<noteq> CallClose"
  shows "queue_open w' \<and> list_all (\<lambda>e. \<not> turned_away e) es"
  using assms(1)
proof (cases rule: queue_step_cases)
  case (submit b)
  with assms(2) show ?thesis
    by (cases b) (auto simp: queue_open_def step_simps split: queue_splits)
next
  case (loop b)
  with assms(2) show ?thesis
    by (cases b) (auto simp: queue_open_def step_simps split: queue_splits)
next
  case (drain b)
  with assms(2) show ?thesis
    by (cases b) (auto simp: queue_open_def step_simps split: queue_splits)
qed (use assms in \<open>auto simp: queue_open_def\<close>)

interpretation queue_program: closing_log queue_ops CallClose queue_open
  by unfold_locales (auto simp: queue_ops_def dest: queue_open_step)

lemma raft_open_step:
  assumes "raft_step a w = Some (w', es)" and "\<not> r_done w" and "a \<noteq> RaftCallClose"
  shows "\<not> r_done w' \<and> list_all (\<lambda>e. \<not> turned_away e) es"
  using assms(1)
proof (cases rule: raft_step_cases)
  case (submit b)
  with assms(2) show ?thesis
    by (cases b) (auto simp: raft_step_defs split: raft_splits)
next
  case (fsm b)
  with assms(2) show ?thesis
    by (cases b) (auto simp: raft_step_defs split: raft_splits)
next
  case (drain b)
  with assms(2) show ?thesis
    by (cases b) (auto simp: raft_step_defs split: raft_splits)
qed (use assms in auto)

interpretation raft_program: closing_log raft_ops RaftCallClose "\<lambda>w. \<not> r_done w"
  by unfold_locales (auto simp: raft_ops_def dest: raft_open_step)


section \<open>A graceful shutdown\<close>

text \<open>
  One submission is under way when the signal comes; the server waits for it, and then the log is
  closed and the program ends.
\<close>

definition orderly_actions :: "(queue_action, OrderVerifier) program_action list" where
  "orderly_actions =
     [Pipe (LogAct (Submitter (CallSubmit 5 1 [7]))), Pipe CollCall, SignalCancel, CloseRpcServer, GracefulStop,
      Pipe (LogAct (Submitter (SendRequest 5))), Pipe (LogAct (Admission LoopTake)),
      Pipe (LogAct (Admission (LoopStamp 100))), Pipe (LogAct (Admission LoopCommit)),
      Pipe (LogAct (Submitter (TakeResponse 5))), AllRpcsDone, CloseLog]"

definition orderly_events :: "program_event list" where
  "orderly_events = map (PipeEvent \<circ> PLog)
     [SubmitCalled 5 [7], Committed 5 one_tx, SubmitReturned 5 (Inr one_tx)]"

definition no_publisher :: "(nat, OrderVerifier) settle_config" where
  "no_publisher = \<lparr>sc_eth = demo_lib, sc_publisher = Inr NoopPublisher\<rparr>"

lemma orderly_run:
  "\<exists>w. run (program_step queue_ops CallClose (glass_config False) no_publisher) orderly_actions
       (program_init (queue_init 100) empty_verifier) = Some (w, orderly_events) \<and> main_at w = MainExited"
  by (simp add: orderly_actions_def orderly_events_def program_init_def pipe_init_def pipe_moves_def main_only_def
      queue_ops_def log_moves_def coll_return_def queue_eval)

text \<open>
  C17: a shutdown turns nobody away.  \<open>main\<close> closes the local queue only after \<open>GracefulStop\<close> has
  returned: in every interleaving no submission is ever answered with \<open>ErrQueueClosed\<close>, and when
  the program ends every submission that began has been answered.
\<close>

theorem shutdown_graceful:
  assumes "run (program_step queue_ops CallClose cfg sc) as (program_init (queue_init cap) c) = Some (w, evs)"
  shows "PipeEvent (PLog (SubmitReturned r (Inl ErrQueueClosed))) \<notin> set evs \<and>
    (main_at w = MainExited \<longrightarrow> PipeEvent (PLog (SubmitCalled r b)) \<in> set evs \<longrightarrow>
       (\<exists>x. PipeEvent (PLog (SubmitReturned r x)) \<in> set evs))"
proof -
  have "queue_open (queue_init cap)" by (simp add: queue_open_def queue_init_def)
  from queue_program.none_turned_away [OF assms this] queue_program.exit_answers_all [OF assms]
  show ?thesis by fastforce
qed

theorem shutdown_graceful_witness:
  "\<exists>x. PipeEvent (PLog (SubmitReturned 5 x)) \<in> set orderly_events"
  using orderly_run shutdown_graceful [where r = 5 and b = "[7]"]
  by (metis (no_types, lifting) comp_apply list.set_intros(1) list.simps(9) orderly_events_def)

text \<open>
  C11: on Raft the proviso of a closed log disappears.  Provided the Raft library keeps its contract
  (entries at increasing indices, each once, with the bytes proposed) and no call of the run is caught
  between its deadline and its context's timer, every receipt a client of this node gets is for a
  transaction that this node has forwarded to its pipeline, also in a shutdown, since \<open>main\<close> closes the
  log last.
\<close>

theorem program_raft_receipts:
  assumes "run (program_step raft_ops RaftCallClose cfg sc) as (program_init (raft_init buf dl) c) = Some (w, evs)"
    and "raft_contract (log_actions raft_ops (pipe_actions RaftCallClose as)) (raft_init buf dl)"
    and "run_avoids raft_step deadline_race (log_actions raft_ops (pipe_actions RaftCallClose as)) (raft_init buf dl)"
    and "PipeEvent (PLog (SubmitReturned r (Inr tx))) \<in> set evs"
  shows "PipeEvent (PLog (SubmitCalled r (Ciphertext tx))) \<in> set evs \<and> PipeEvent (PLog (Committed r tx)) \<in> set evs"
proof -
  let ?acts = "log_actions raft_ops (pipe_actions RaftCallClose as)"
  have raft_ops_step: "ops_step raft_ops = raft_step" by (simp add: raft_ops_def)
  have "\<not> r_done (raft_init buf dl)" by (simp add: raft_init_def)
  from raft_program.before_close_run [OF assms(1) this] obtain bs s where
    bs: "?acts = bs \<or> ?acts = bs @ [RaftCallClose]" "\<not> r_done s"
      "raft_run bs (raft_init buf dl) = Some (s, log_part (pipe_part evs))"
    unfolding raft_program.before_close_def by (auto simp: raft_ops_step)
  have "raft_contract bs (raft_init buf dl)" "run_avoids raft_step deadline_race bs (raft_init buf dl)"
    using bs(1) assms(2,3) run_avoids_prefix unfolding raft_contract_def by metis+
  from raft_receipts_run [OF bs(3) this] bs(2) assms(4) show ?thesis
    by (auto simp: raft_receipts_ok_def)
qed

definition raft_life :: "(raft_action, OrderVerifier) program_action list" where
  "raft_life = map (Pipe \<circ> LogAct) (take 6 leader_actions) @
     [SignalCancel, CloseRpcServer, GracefulStop, AllRpcsDone, CloseLog]"

lemma raft_life_run:
  "\<exists>w. run (program_step raft_ops RaftCallClose (glass_config True) no_publisher) raft_life
       (program_init (raft_init 4 (\<lambda>_. None)) empty_verifier) =
     Some (w, map (PipeEvent \<circ> PLog) (take 3 leader_events)) \<and> main_at w = MainExited"
  by (simp add: raft_life_def program_init_def pipe_init_def pipe_moves_def main_only_def raft_ops_def log_moves_def
      coll_return_def raft_eval)

theorem program_raft_receipts_witness:
  "PipeEvent (PLog (Committed 5 leader_tx)) \<in> set (map (PipeEvent \<circ> PLog) (take 3 leader_events))"
proof -
  have acts: "log_actions raft_ops (pipe_actions RaftCallClose raft_life) =
      take 6 leader_actions @ [RaftCtxCancel 0 Canceled, RaftCallClose]"
    by (simp add: raft_life_def leader_actions_def raft_ops_def)
  have "raft_contract (take 6 leader_actions @ [RaftCtxCancel 0 Canceled, RaftCallClose]) (raft_init 4 (\<lambda>_. None))"
    "run_avoids raft_step deadline_race (take 6 leader_actions @ [RaftCtxCancel 0 Canceled, RaftCallClose])
       (raft_init 4 (\<lambda>_. None))"
    by (simp_all add: raft_contract_def raft_eval)
  with raft_life_run program_raft_receipts [where r = 5 and tx = leader_tx] show ?thesis
    unfolding acts [symmetric] by (fastforce simp: leader_events_def)
qed

section \<open>A shutdown that does not end\<close>

text \<open>
  The queue's channel is full, nobody receives from it, and the admission goroutine is blocked on
  it with the request of call \<open>r\<close>, whose context \<open>x\<close> is not done.
\<close>

definition jammed_queue :: "nat \<Rightarrow> nat \<Rightarrow> queue_world \<Rightarrow> bool" where
  "jammed_queue r x q \<longleftrightarrow>
     (\<exists>req tx. loop q = LoopStamped req tx \<and> req_id req = r \<and> req_ctx req = x \<and> submits q r = Some (SubWaiting req)) \<and>
     resps q r = None \<and> ctx_err q x = None \<and> 0 < capacity q \<and> capacity q \<le> length (ch q) \<and>
     \<not> ch_closed q \<and> \<not> done_closed q \<and> drains q = (\<lambda>_. None)"

lemma jammed_queue_step:
  assumes "queue_step a q = Some (q', es)" and "jammed_queue r x q" and "a \<noteq> CallClose" and "\<not> queue_calls a"
    and "\<forall>e. a \<noteq> CtxCancel x e"
  shows "jammed_queue r x q' \<and> (\<forall>y. SubmitReturned r y \<notin> set es)"
  using assms(1)
proof (cases rule: queue_step_cases)
  case (submit b)
  with assms(2) show ?thesis
    by (cases b) (auto simp: jammed_queue_def step_simps split: queue_splits)
next
  case (loop b)
  with assms(2) show ?thesis
    by (cases b) (auto simp: jammed_queue_def step_simps split: queue_splits)
next
  case (drain b)
  with assms(2,4) show ?thesis
    by (cases b) (auto simp: jammed_queue_def step_simps split: queue_splits)
qed (use assms in \<open>auto simp: jammed_queue_def\<close>)

text \<open>\<open>main\<close> waits in \<open>GracefulStop\<close> for that call, and the collector has stopped.\<close>

definition jammed :: "nat \<Rightarrow> nat \<Rightarrow> (queue_world, 'c) program \<Rightarrow> bool" where
  "jammed r x w \<longleftrightarrow> main_at w = MainStopping \<and> r \<in> set (in_flight w) \<and> coll (pipe w) = CollStopped \<and>
     p_cancelled (pipe w) \<and> jammed_queue r x (p_log (pipe w))"

lemma in_flight_stays:
  "r \<in> set rs \<Longrightarrow> \<forall>y. PLog (SubmitReturned r y) \<notin> set es \<Longrightarrow> r \<in> set (rpcs_after es rs)"
  by (induction es rs rule: rpcs_after.induct) auto

lemma jammed_pipe_step:
  assumes "pipe_step queue_ops cfg a p = Some (p', es)" and "jammed_queue r x (p_log p)" and "coll p = CollStopped"
    and "p_cancelled p" and "\<not> main_only CallClose a" and "\<forall>e. a \<noteq> LogAct (CtxCancel x e)"
  shows "jammed_queue r x (p_log p') \<and> coll p' = CollStopped \<and> p_cancelled p' \<and>
    (\<forall>y. PLog (SubmitReturned r y) \<notin> set es)"
proof (cases a)
  case (LogAct b)
  with assms have "queue_step b (p_log p) = Some (p_log p', log_part es)" "coll p' = coll p" "p_cancelled p' = p_cancelled p"
    "b \<noteq> CallClose" "\<not> queue_calls b" "\<forall>e. b \<noteq> CtxCancel x e"
    by (auto simp: queue_ops_def log_moves_def main_only_def coll_return_def split: if_splits)
  with jammed_queue_step [of b "p_log p" "p_log p'" "log_part es" r x] assms(2-4) show ?thesis by simp
qed (use assms in \<open>auto simp: main_only_def split: if_splits option.splits bat_pc.splits\<close>)

lemma jammed_step:
  assumes "program_step queue_ops CallClose cfg sc a w = Some (w', es)" and "jammed r x w"
    and "\<forall>e. a \<noteq> Pipe (LogAct (CtxCancel x e))"
  shows "jammed r x w'"
proof (cases a)
  case (Pipe b)
  with assms(1) obtain p' pes where "pipe_step queue_ops cfg b (pipe w) = Some (p', pes)" "\<not> main_only CallClose b"
    "w' = fst (pipe_moves w (p', pes))" by (auto split: if_splits option.splits)
  with jammed_pipe_step [of cfg b "pipe w" p' pes r x] assms(2,3) Pipe in_flight_stays show ?thesis
    by (simp add: jammed_def pipe_moves_def)
qed (use assms in \<open>auto simp: jammed_def split: if_splits option.splits prod.splits\<close>)

lemma jammed_forever:
  assumes "run (program_step queue_ops CallClose cfg sc) as w = Some (w', evs)" and "jammed r x w"
    and "\<forall>e. Pipe (LogAct (CtxCancel x e)) \<notin> set as"
  shows "jammed r x w'"
  using assms
proof (induction as arbitrary: w evs)
  case (Cons a as)
  from Cons.prems(1) obtain w1 es es' where
    "program_step queue_ops CallClose cfg sc a w = Some (w1, es)"
    "run (program_step queue_ops CallClose cfg sc) as w1 = Some (w', es')" by (blast elim: run_ConsE)
  with Cons.IH Cons.prems(2,3) jammed_step show ?case by (metis list.set_intros)
qed simp

text \<open>How a queue of 100 gets there: the collector stops at the signal, 100 clients fill the channel.\<close>

definition stop_collector :: "(queue_action, 'c) program_action list" where
  "stop_collector = [Pipe CollCall, SignalCancel, Pipe (LogAct (Consumer (DrainCancelled 0)))]"

definition fill :: "nat \<Rightarrow> (queue_action, 'c) program_action list" where
  "fill k = map (Pipe \<circ> LogAct)
     [Submitter (CallSubmit k 1 [7]), Submitter (SendRequest k), Admission LoopTake,
      Admission (LoopStamp 100), Admission LoopCommit, Submitter (TakeResponse k)]"

definition filled_queue :: "nat \<Rightarrow> queue_world" where
  "filled_queue k = (queue_init 100)\<lparr>nextID := of_nat k, submits := (\<lambda>r. if r < k then Some SubReturned else None),
     ch := map (\<lambda>i. \<lparr>ID = of_nat (Suc i), Ciphertext = [7], ArrivedAt = 100\<rparr>) [0..<k], ctx_err := [0 \<mapsto> Canceled]\<rparr>"

definition filled :: "nat \<Rightarrow> 'c \<Rightarrow> (queue_world, 'c) program" where
  "filled k c = \<lparr>pipe = (pipe_init (filled_queue k))\<lparr>coll := CollStopped, p_cancelled := True\<rparr>,
     main_at = MainCancelled, in_flight = [], settling = [], chain = c\<rparr>"

lemma stop_collector_run:
  "\<exists>evs. run (program_step queue_ops CallClose cfg sc) stop_collector (program_init (queue_init 100) c) =
     Some (filled 0 c, evs)"
  by (simp add: stop_collector_def program_init_def filled_def filled_queue_def pipe_init_def pipe_moves_def
      main_only_def queue_ops_def log_moves_def coll_return_def queue_init_def step_simps)

lemma fill_run:
  assumes "k < 100"
  shows "\<exists>evs. run (program_step queue_ops CallClose cfg sc) (fill k) (filled k c) = Some (filled (Suc k) c, evs)"
proof -
  have "(\<lambda>r. if r < k then Some SubReturned else None)(k \<mapsto> SubReturned) =
      (\<lambda>r. if r < Suc k then Some SubReturned else None)"
    by (auto simp: less_Suc_eq)
  with assms show ?thesis
    by (simp add: fill_def filled_def filled_queue_def pipe_init_def pipe_moves_def main_only_def
        queue_ops_def log_moves_def coll_return_def queue_init_def step_simps fun_upd_idem add.commute)
qed

lemma fills_run:
  "k \<le> 100 \<Longrightarrow> \<exists>evs. run (program_step queue_ops CallClose cfg sc) (concat (map fill [0..<k])) (filled 0 c) =
     Some (filled k c, evs)"
proof (induction k)
  case (Suc k)
  then obtain e1 where "run (program_step queue_ops CallClose cfg sc) (concat (map fill [0..<k])) (filled 0 c) =
     Some (filled k c, e1)" by auto
  moreover obtain e2 where "run (program_step queue_ops CallClose cfg sc) (fill k) (filled k c) =
     Some (filled (Suc k) c, e2)" using fill_run [of k cfg sc c] Suc.prems by auto
  ultimately show ?case by (simp add: run_append)
qed simp

definition last_request :: "(queue_action, 'c) program_action list" where
  "last_request = map (Pipe \<circ> LogAct)
     [Submitter (CallSubmit 100 1 [7]), Submitter (SendRequest 100), Admission LoopTake, Admission (LoopStamp 100)] @
     [CloseRpcServer, GracefulStop]"

lemma last_request_run:
  "\<exists>w evs. run (program_step queue_ops CallClose cfg sc) last_request (filled 100 c) = Some (w, evs) \<and> jammed 100 1 w"
  by (simp add: last_request_def filled_def filled_queue_def pipe_init_def pipe_moves_def main_only_def jammed_def
      jammed_queue_def queue_ops_def log_moves_def coll_return_def queue_init_def step_simps fun_upd_idem del: upt_rec_numeral)

text \<open>
  C19: a shutdown can hang.  \<open>cancel()\<close> stops the only consumer before \<open>GracefulStop\<close> waits for the
  submissions in flight: with the queue of 100 the program uses there is a run after which, as long
  as the client does not give up by itself, \<open>main\<close> never leaves \<open>GracefulStop\<close>, whatever the
  goroutines do, and \<open>orderedLog.Close()\<close>, which would free the client, is never reached.
\<close>

theorem shutdown_can_hang:
  "\<exists>as w evs. run (program_step queue_ops CallClose cfg sc) as (program_init (queue_init 100) c) = Some (w, evs) \<and>
     main_at w = MainStopping \<and>
     (\<forall>bs w' evs'. run (program_step queue_ops CallClose cfg sc) bs w = Some (w', evs') \<longrightarrow>
        (\<forall>e. Pipe (LogAct (CtxCancel 1 e)) \<notin> set bs) \<longrightarrow> main_at w' = MainStopping)"
proof -
  let ?run = "run (program_step queue_ops CallClose cfg sc)"
  obtain e1 where 1: "?run stop_collector (program_init (queue_init 100) c) = Some (filled 0 c, e1)"
    using stop_collector_run [of cfg sc c] by blast
  obtain e2 where 2: "?run (concat (map fill [0..<100])) (filled 0 c) = Some (filled 100 c, e2)"
    using fills_run [of 100 cfg sc c] by blast
  obtain w e3 where 3: "?run last_request (filled 100 c) = Some (w, e3)" "jammed 100 1 w"
    using last_request_run [of cfg sc c] by blast
  have "?run (stop_collector @ concat (map fill [0..<100]) @ last_request) (program_init (queue_init 100) c) =
      Some (w, e1 @ e2 @ e3)"
    by (simp add: run_append 1 2 3(1) del: upt_rec_numeral)
  moreover have "main_at w = MainStopping" using 3(2) by (simp add: jammed_def)
  moreover have "main_at w' = MainStopping" if "?run bs w = Some (w', evs')"
    "\<forall>e. Pipe (LogAct (CtxCancel 1 e)) \<notin> set bs" for bs w' evs'
    using jammed_forever [OF that(1) 3(2) that(2)] by (simp add: jammed_def)
  ultimately show ?thesis by blast
qed

theorem shutdown_can_hang_witness:
  "\<exists>as w evs. run (program_step queue_ops CallClose (glass_config False) no_publisher) as
     (program_init (queue_init 100) empty_verifier) = Some (w, evs) \<and> main_at w = MainStopping \<and>
     program_step queue_ops CallClose (glass_config False) no_publisher AllRpcsDone w = None"
proof -
  obtain as w evs where w: "run (program_step queue_ops CallClose (glass_config False) no_publisher) as
      (program_init (queue_init 100) empty_verifier) = Some (w, evs)" "main_at w = MainStopping"
    and stays: "\<And>bs w' evs'. run (program_step queue_ops CallClose (glass_config False) no_publisher) bs w = Some (w', evs') \<Longrightarrow>
        \<forall>e. Pipe (LogAct (CtxCancel 1 e)) \<notin> set bs \<Longrightarrow> main_at w' = MainStopping"
    using shutdown_can_hang by metis
  have "in_flight w \<noteq> []" using stays [of "[AllRpcsDone]"] w(2) by auto
  with w show ?thesis by (intro exI [of _ as] exI [of _ w] exI [of _ evs]) simp
qed

end
