(* ===== verification/Pipeline_Liveness.thy ===== *)
theory Pipeline_Liveness
  imports Pipeline_Properties
begin

text \<open>
  The collector and the batch processor are never stuck: from every state they can, by their own
  steps alone, bring every complete thousand of committed transactions into a processed batch.
\<close>

section \<open>A log that serves its collector\<close>

text \<open>
  \<open>recv\<close> and \<open>full\<close> are the steps of the collector's call of \<open>DrainWait(ctx, 1)\<close>: receiving a
  transaction, and returning it.
\<close>

locale serving_log = drained_log init step pending inv last_id wraps in_hand call_size calls drain1 cancel0
  for init :: "'s" and step :: "'a \<Rightarrow> 's \<Rightarrow> ('s \<times> log_event list) option"
    and pending inv last_id wraps in_hand call_size calls drain1 cancel0 +
  fixes recv full :: 'a
  assumes own_steps: "\<not> calls recv" "\<not> calls full"
    and idle_hand: "call_size s 0 = None \<Longrightarrow> in_hand s 0 = []"
    and hand_bound: "inv s \<Longrightarrow> call_size s 0 = Some 1 \<Longrightarrow> length (in_hand s 0) \<le> 1"
    and call_enabled: "call_size s 0 = None \<Longrightarrow> \<exists>s'. step drain1 s = Some (s', []) \<and> pending s' = pending s"
    and recv_enabled: "call_size s 0 = Some 1 \<Longrightarrow> in_hand s 0 = [] \<Longrightarrow> pending s = tx # rest \<Longrightarrow>
      \<exists>s'. step recv s = Some (s', [Delivered 0 tx]) \<and> pending s' = rest"
    and full_enabled: "call_size s 0 = Some 1 \<Longrightarrow> in_hand s 0 = [tx] \<Longrightarrow>
      \<exists>s'. step full s = Some (s', [DrainReturned 0 [tx] None]) \<and> pending s' = pending s"
begin

text \<open>\<open>quiet w w'\<close>: the two goroutines alone bring the pipeline from \<open>w\<close> to \<open>w'\<close>.\<close>

definition quiet :: "reveal_config \<Rightarrow> 's pipe_world \<Rightarrow> 's pipe_world \<Rightarrow> bool" where
  "quiet cfg w w' \<longleftrightarrow> (\<exists>bs evs. run (pipe_step ops cfg) bs w = Some (w', evs) \<and>
     set (log_actions ops bs) \<subseteq> {drain1, recv, full} \<and> MainCancel \<notin> set bs \<and> committed (log_part evs) = [])"

lemma quiet_refl [simp]: "quiet cfg w w"
  unfolding quiet_def by (intro exI [of _ "[]"]) simp

lemma quiet_trans [trans]: "quiet cfg u v \<Longrightarrow> quiet cfg v w \<Longrightarrow> quiet cfg u w"
  unfolding quiet_def
proof (elim exE conjE)
  fix as es bs fs
  assume "run (pipe_step ops cfg) as u = Some (v, es)" "run (pipe_step ops cfg) bs v = Some (w, fs)"
    and "set (log_actions ops as) \<subseteq> {drain1, recv, full}" "set (log_actions ops bs) \<subseteq> {drain1, recv, full}"
    and "MainCancel \<notin> set as" "MainCancel \<notin> set bs" "committed (log_part es) = []" "committed (log_part fs) = []"
  then show "\<exists>bs evs. run (pipe_step ops cfg) bs u = Some (w, evs) \<and> set (log_actions ops bs) \<subseteq> {drain1, recv, full} \<and>
      MainCancel \<notin> set bs \<and> committed (log_part evs) = []"
    by (intro exI [of _ "as @ bs"] exI [of _ "es @ fs"]) (simp add: run_append)
qed

lemma quiet_step:
  assumes "pipe_step ops cfg a w = Some (w', es)" and "set (log_actions ops [a]) \<subseteq> {drain1, recv, full}"
    and "a \<noteq> MainCancel" and "committed (log_part es) = []"
  shows "quiet cfg w w'"
  unfolding quiet_def using assms by (intro exI [of _ "[a]"] exI [of _ es]) simp

text \<open>What the collector needs to go on.\<close>

definition serving :: "'s pipe_world \<Rightarrow> bool" where
  "serving w \<longleftrightarrow> inv (p_log w) \<and> calls_ok w \<and> coll w \<noteq> CollStopped \<and> bat w \<noteq> BatExited \<and> \<not> p_cancelled w"

subsection \<open>The collector\<close>

lemma collector_calls:
  assumes "serving w" and "coll w = CollReady"
  shows "\<exists>w'. quiet cfg w w' \<and> serving w' \<and> coll w' = CollInCall \<and> in_hand (p_log w') 0 = [] \<and>
    pending (p_log w') = pending (p_log w)"
proof -
  from assms have idle: "call_size (p_log w) 0 = None" by (simp add: serving_def calls_ok_def)
  from call_enabled [OF this] obtain s' where s': "step drain1 (p_log w) = Some (s', [])"
    "pending s' = pending (p_log w)" by blast
  let ?w' = "w\<lparr>p_log := s', coll := CollInCall\<rparr>"
  have st: "pipe_step ops cfg CollCall w = Some (?w', [])"
    using assms(2) s'(1) by (simp add: ops_def log_moves_def coll_return_def)
  have "in_hand s' 0 = []" using in_hand_step [OF s'(1), of 0] idle_hand [OF idle] by simp
  moreover have "serving ?w'"
    using assms call_drain1 [OF s'(1)] inv_step [OF _ s'(1)] by (simp add: serving_def calls_ok_def)
  ultimately show ?thesis
    using quiet_step [OF st] s'(2) by (intro exI [of _ ?w']) (simp add: ops_def)
qed

lemma collector_receives:
  assumes "serving w" and "coll w = CollInCall" and "in_hand (p_log w) 0 = []" and "pending (p_log w) = tx # rest"
  shows "\<exists>w'. quiet cfg w w' \<and> serving w' \<and> coll w' = CollInCall \<and> in_hand (p_log w') 0 = [tx] \<and>
    pending (p_log w') = rest"
proof -
  from assms have busy: "call_size (p_log w) 0 = Some 1" by (simp add: serving_def calls_ok_def)
  from recv_enabled [OF this assms(3,4)] obtain s' where s': "step recv (p_log w) = Some (s', [Delivered 0 tx])"
    "pending s' = rest" by blast
  let ?w' = "w\<lparr>p_log := s'\<rparr>"
  have st: "pipe_step ops cfg (LogAct recv) w = Some (?w', [PLog (Delivered 0 tx)])"
    using assms(2) s'(1) own_steps by (simp add: ops_def log_moves_def coll_return_def)
  have "in_hand s' 0 = [tx]" using in_hand_step [OF s'(1), of 0] assms(3) by simp
  moreover have "call_size s' c = call_size (p_log w) c" for c
    using busy_step [OF s'(1) own_steps(1)] idle_step [OF s'(1) own_steps(1)] by (cases "call_size (p_log w) c") auto
  then have "serving ?w'" using assms inv_step [OF _ s'(1)] by (simp add: serving_def calls_ok_def)
  ultimately show ?thesis
    using quiet_step [OF st] s'(2) assms(2) by (intro exI [of _ ?w']) (simp add: ops_def)
qed

lemma collector_returns:
  assumes "serving w" and "coll w = CollInCall" and "in_hand (p_log w) 0 = [tx]"
  shows "\<exists>w'. quiet cfg w w' \<and> serving w' \<and> coll w' = CollHolding [tx] \<and> pending (p_log w') = pending (p_log w)"
proof -
  from assms have busy: "call_size (p_log w) 0 = Some 1" by (simp add: serving_def calls_ok_def)
  from full_enabled [OF this assms(3)] obtain s' where s': "step full (p_log w) = Some (s', [DrainReturned 0 [tx] None])"
    "pending s' = pending (p_log w)" by blast
  let ?w' = "w\<lparr>p_log := s', coll := CollHolding [tx]\<rparr>"
  have st: "pipe_step ops cfg (LogAct full) w = Some (?w', [PLog (DrainReturned 0 [tx] None)])"
    using assms(2) s'(1) own_steps by (simp add: ops_def log_moves_def coll_return_def)
  have "call_size s' c = (if c = 0 then None else call_size (p_log w) c)" for c
    using busy_step [OF s'(1) own_steps(2)] idle_step [OF s'(1) own_steps(2)] busy
    by (cases "call_size (p_log w) c") fastforce+
  then have "serving ?w'" using assms inv_step [OF _ s'(1)] by (simp add: serving_def calls_ok_def)
  then show ?thesis using quiet_step [OF st] s'(2) by (intro exI [of _ ?w']) (simp add: ops_def)
qed

lemma collector_adds:
  assumes "serving w" and "coll w = CollHolding txs"
  shows "\<exists>w'. quiet cfg w w' \<and> serving w' \<and> coll w' = CollReady \<and> pending (p_log w') = pending (p_log w)"
  using assms
proof (induction txs arbitrary: w)
  case Nil
  let ?w' = "w\<lparr>coll := CollReady\<rparr>"
  have "pipe_step ops cfg CollAdd w = Some (?w', [])" using Nil by simp
  from quiet_step [OF this] Nil show ?case
    by (intro exI [of _ ?w']) (simp add: serving_def calls_ok_def)
next
  case (Cons tx txs)
  let ?w' = "w\<lparr>pool := mempool_Add tx (pool w), coll := CollHolding txs\<rparr>"
  have "pipe_step ops cfg CollAdd w = Some (?w', [])" using Cons.prems by simp
  from quiet_step [OF this] have "quiet cfg w ?w'" by simp
  moreover have "serving ?w'" using Cons.prems by (simp add: serving_def calls_ok_def)
  ultimately show ?case using Cons.IH [of ?w'] quiet_trans by fastforce
qed

lemma collector_settles:
  assumes "serving w"
  shows "\<exists>w'. quiet cfg w w' \<and> serving w' \<and> coll w' = CollInCall \<and> in_hand (p_log w') 0 = [] \<and>
    pending (p_log w') = pending (p_log w)"
proof -
  have held: ?thesis if "quiet cfg w v" "serving v" "coll v = CollHolding txs" "pending (p_log v) = pending (p_log w)" for v txs
    using that collector_adds [of v txs cfg] collector_calls [of _ cfg] by (metis quiet_trans)
  show ?thesis
  proof (cases "coll w")
    case CollReady
    with assms show ?thesis by (rule collector_calls)
  next
    case (CollHolding txs)
    with assms show ?thesis by (intro held) auto
  next
    case CollInCall
    with assms hand_bound [of "p_log w"] have "length (in_hand (p_log w) 0) \<le> 1"
      by (simp add: serving_def calls_ok_def)
    then consider "in_hand (p_log w) 0 = []" | tx where "in_hand (p_log w) 0 = [tx]"
      by (cases "in_hand (p_log w) 0") auto
    then show ?thesis
    proof cases
      case 1
      with assms CollInCall show ?thesis by (intro exI [of _ w]) simp
    next
      case (2 tx)
      with collector_returns [OF assms CollInCall] show ?thesis by (metis held)
    qed
  qed (use assms in \<open>simp add: serving_def\<close>)
qed

lemma collector_empties:
  assumes "serving w"
  shows "\<exists>w'. quiet cfg w w' \<and> serving w' \<and> coll w' = CollInCall \<and> in_hand (p_log w') 0 = [] \<and> pending (p_log w') = []"
proof -
  from collector_settles [OF assms] obtain v where v: "quiet cfg w v" "serving v" "coll v = CollInCall"
    "in_hand (p_log v) 0 = []" by blast
  have "\<exists>w'. quiet cfg v w' \<and> serving w' \<and> coll w' = CollInCall \<and> in_hand (p_log w') 0 = [] \<and> pending (p_log w') = []"
    using v(2-4)
  proof (induction "pending (p_log v)" arbitrary: v)
    case (Cons tx rest)
    from collector_receives [OF Cons.prems Cons.hyps(2) [symmetric]] obtain u where
      u: "quiet cfg v u" "serving u" "coll u = CollInCall" "in_hand (p_log u) 0 = [tx]" "pending (p_log u) = rest" by blast
    from collector_settles [OF u(2)] obtain x where x: "quiet cfg u x" "serving x" "coll x = CollInCall"
      "in_hand (p_log x) 0 = []" "pending (p_log x) = rest" using u(5) by auto
    with Cons.hyps(1) [of x] u(1) show ?case using quiet_trans by metis
  qed (metis quiet_refl)
  with v(1) show ?thesis using quiet_trans by metis
qed

subsection \<open>The batch processor\<close>

lemma processor_rounds:
  assumes "serving w"
  shows "\<exists>w'. quiet cfg w w' \<and> serving w' \<and> bat w' = BatRound \<and> p_log w' = p_log w \<and> coll w' = coll w \<and> pool w' = pool w"
proof -
  have start: ?thesis if "quiet cfg w v" "serving v" "bat v = BatSelect" "p_log v = p_log w" "coll v = coll w" "pool v = pool w" for v
  proof -
    have "pipe_step ops cfg BatStart v = Some (v\<lparr>bat := BatRound\<rparr>, [])" using that(2,3) by (simp add: serving_def)
    from quiet_step [OF this] that show ?thesis
      by (intro exI [of _ "v\<lparr>bat := BatRound\<rparr>"]) (auto simp: serving_def calls_ok_def intro: quiet_trans)
  qed
  show ?thesis
  proof (cases "bat w")
    case BatWaiting
    then have "pipe_step ops cfg BatTick w = Some (w\<lparr>bat := BatRound\<rparr>, [])" by simp
    from quiet_step [OF this] assms show ?thesis
      by (intro exI [of _ "w\<lparr>bat := BatRound\<rparr>"]) (simp add: serving_def calls_ok_def)
  next
    case (BatHave b)
    then have "pipe_step ops cfg (BatProcess False 1 []) w = Some (w\<lparr>bat := BatSelect\<rparr>,
        [PBatch b (GenerateBatchCommitment b) (\<not> rc_is_raft cfg) (reveal_batch cfg 1 [] b)])" by simp
    from quiet_step [OF this] assms show ?thesis
      by (intro start [of "w\<lparr>bat := BatSelect\<rparr>"]) (simp_all add: serving_def calls_ok_def)
  next
    case BatSelect
    with assms show ?thesis by (intro start [of w]) simp_all
  next
    case BatRound
    with assms show ?thesis by (intro exI [of _ w]) simp
  qed (use assms in \<open>simp add: serving_def\<close>)
qed

lemma processor_empties:
  assumes "serving w"
  shows "\<exists>w'. quiet cfg w w' \<and> bat w' = BatWaiting \<and> length (items (pool w')) < 1000 \<and> p_log w' = p_log w \<and> coll w' = coll w"
  using assms
proof (induction "length (items (pool w))" arbitrary: w rule: less_induct)
  case less
  from processor_rounds [OF less.prems] obtain v where v: "quiet cfg w v" "serving v" "bat v = BatRound"
    "p_log v = p_log w" "coll v = coll w" "pool v = pool w" by blast
  show ?case
  proof (cases "mempool_try_drain batchSize (pool v)")
    case None
    let ?w' = "v\<lparr>bat := BatWaiting\<rparr>"
    have "pipe_step ops cfg BatTry v = Some (?w', [])" using v(3) None by simp
    from quiet_step [OF this] have "quiet cfg v ?w'" by simp
    with v None show ?thesis
      by (intro exI [of _ ?w']) (auto simp: mempool_try_drain_None batchSize_def intro: quiet_trans)
  next
    case (Some r)
    then obtain m' out where dr: "mempool_try_drain batchSize (pool v) = Some (m', out)" by (cases r) auto
    from mempool_try_drain_Some [OF this] have out: "length out = 1000" "out @ items m' = items (pool v)"
      by (simp_all add: batchSize_def)
    let ?w' = "v\<lparr>pool := m', bat := BatHave out\<rparr>"
    have "pipe_step ops cfg BatTry v = Some (?w', [])" using v(3) dr out(1) by auto
    from quiet_step [OF this] have "quiet cfg v ?w'" by simp
    moreover have "serving ?w'" using v(2) by (simp add: serving_def calls_ok_def)
    moreover have "length (items (pool ?w')) < length (items (pool w))"
    proof -
      have "length out + length (items m') = length (items (pool w))"
        using out(2) v(6) by (metis length_append)
      with out(1) show ?thesis by simp
    qed
    ultimately obtain x where "quiet cfg ?w' x" "bat x = BatWaiting" "length (items (pool x)) < 1000"
      "p_log x = p_log ?w'" "coll x = coll ?w'" using less.hyps [of ?w'] by blast
    moreover from v(1) \<open>quiet cfg v ?w'\<close> this(1) have "quiet cfg w x" by (blast intro: quiet_trans)
    ultimately show ?thesis using v(4,5) by (intro exI [of _ x]) simp
  qed
qed

text \<open>Together: every complete thousand is processed.\<close>

lemma catches_up:
  assumes "run (pipe_step ops cfg) as (pipe_init init) = Some (w, evs)"
    and "coll w \<noteq> CollStopped" and "bat w \<noteq> BatExited" and "\<not> p_cancelled w"
  shows "\<exists>bs w' evs'. run (pipe_step ops cfg) bs w = Some (w', evs') \<and>
    set (log_actions ops bs) \<subseteq> {drain1, recv, full} \<and> MainCancel \<notin> set bs \<and>
    length (processed (evs @ evs')) = length (committed (log_part evs)) div 1000"
proof -
  have "calls_ok w" using calls_flow_run [OF assms(1)] by blast
  moreover have "inv (p_log w)" by (rule inv_run [OF pipe_log_run [OF assms(1)]])
  ultimately have "serving w" using assms(2-4) by (simp add: serving_def)
  from collector_empties [OF this] obtain v where v: "quiet cfg w v" "serving v" "coll v = CollInCall"
    "in_hand (p_log v) 0 = []" "pending (p_log v) = []" by blast
  from processor_empties [OF v(2)] obtain w' where w': "quiet cfg v w'" "bat w' = BatWaiting"
    "length (items (pool w')) < 1000" "p_log w' = p_log v" "coll w' = coll v" by blast
  from v(1) w'(1) have "quiet cfg w w'" by (rule quiet_trans)
  then obtain bs evs' where bs: "run (pipe_step ops cfg) bs w = Some (w', evs')"
    "set (log_actions ops bs) \<subseteq> {drain1, recv, full}" "MainCancel \<notin> set bs" "committed (log_part evs') = []"
    by (auto simp: quiet_def)
  have "run (pipe_step ops cfg) (as @ bs) (pipe_init init) = Some (w', evs @ evs')"
    using assms(1) bs(1) by (simp add: run_append)
  from pipeline_exact_run [OF this] v w' bs(4)
  have all: "concat (processed (evs @ evs')) @ items (pool w') = committed (log_part evs)"
    "list_all (\<lambda>b. length b = 1000) (processed (evs @ evs'))" by auto
  have "length (concat bss) = 1000 * length bss" if "list_all (\<lambda>b. length b = 1000) bss" for bss :: "EncryptedTransaction list list"
    using that by (induction bss) auto
  with all have "1000 * length (processed (evs @ evs')) + length (items (pool w')) = length (committed (log_part evs))"
    by (metis length_append)
  with w'(3) have "length (processed (evs @ evs')) = length (committed (log_part evs)) div 1000" by simp
  with bs show ?thesis by blast
qed

end

section \<open>Both backends serve it\<close>

interpretation queue_serving: serving_log "queue_init cap" queue_step ch queue_inv queue_last_id queue_wraps
    in_hand queue_call_size queue_calls "Consumer (CallDrainWait 0 0 1)" "CtxCancel 0 Canceled"
    "Consumer (DrainRecv 0)" "Consumer (DrainFull 0)"
  for cap :: nat
proof unfold_locales
  show "length (in_hand s 0) \<le> 1" if "queue_inv s" "queue_call_size s 0 = Some 1" for s
    using that by (fastforce simp: in_hand_def queue_call_size_def queue_inv_def drains_ok_def)
qed (auto simp: in_hand_def queue_call_size_def drain_call_def drain_return_def split: option.splits)

interpretation raft_serving: serving_log "raft_init buf dl" raft_step committed_ch raft_inv raft_last_id raft_wraps
    raft_in_hand raft_call_size raft_calls "RaftConsumer (RaftCallDrainWait 0 0 1)" "RaftCtxCancel 0 Canceled"
    "RaftConsumer (RaftDrainRecv 0)" "RaftConsumer (RaftDrainFull 0)"
  for buf dl
proof unfold_locales
  show "length (raft_in_hand s 0) \<le> 1" if "raft_inv s" "raft_call_size s 0 = Some 1" for s
    using that by (fastforce simp: raft_in_hand_def raft_call_size_def raft_inv_def)
qed (auto simp: raft_in_hand_def raft_call_size_def raft_drain_return_def split: option.splits)

section \<open>Properties\<close>

text \<open>
  C6: the pipeline is never stuck before a shutdown.  In every state the pipeline over the local queue can
  reach in which the context has not been cancelled and the collector and the batch goroutine are
  still running, those two can, by their own steps alone, bring every complete thousand of
  transactions committed so far into a processed batch.
\<close>

theorem pipeline_catches_up:
  assumes "run (pipe_step queue_ops cfg) as (pipe_init (queue_init cap)) = Some (w, evs)"
    and "coll w \<noteq> CollStopped" and "bat w \<noteq> BatExited" and "\<not> p_cancelled w"
  shows "\<exists>bs w' evs'. run (pipe_step queue_ops cfg) bs w = Some (w', evs') \<and>
    set (log_actions queue_ops bs) \<subseteq>
      {Consumer (CallDrainWait 0 0 1), Consumer (DrainRecv 0), Consumer (DrainFull 0)} \<and> MainCancel \<notin> set bs \<and>
    length (processed (evs @ evs')) = length (committed (log_part evs)) div 1000"
  using assms unfolding queue_ops_eq by (rule queue_serving.catches_up)

theorem pipeline_catches_up_witness:
  "\<exists>bs w' evs'. run (pipe_step queue_ops (glass_config False)) bs (cycled_world 1000) = Some (w', evs') \<and>
     length (processed evs') = 1"
proof -
  have "length (committed (log_part (concat (map cycle_events [0..<k])))) = k \<and> processed (concat (map cycle_events [0..<k])) = []" for k
    by (induction k) (simp_all add: cycle_events_def)
  moreover from pipeline_catches_up [OF cycles_run [of "glass_config False" 1000]] obtain bs w' evs' where
    "run (pipe_step queue_ops (glass_config False)) bs (cycled_world 1000) = Some (w', evs')"
    "length (processed (concat (map cycle_events [0..<1000]) @ evs')) =
       length (committed (log_part (concat (map cycle_events [0..<1000])))) div 1000"
    by (auto simp: cycled_world_def)
  ultimately show ?thesis by (metis append_Nil div_self processed_append zero_neq_numeral)
qed

text \<open>The same on a Raft node.\<close>

lemma raft_pipeline_catches_up:
  assumes "run (pipe_step raft_ops cfg) as (pipe_init (raft_init buf dl)) = Some (w, evs)"
    and "coll w \<noteq> CollStopped" and "bat w \<noteq> BatExited" and "\<not> p_cancelled w"
  shows "\<exists>bs w' evs'. run (pipe_step raft_ops cfg) bs w = Some (w', evs') \<and>
    set (log_actions raft_ops bs) \<subseteq>
      {RaftConsumer (RaftCallDrainWait 0 0 1), RaftConsumer (RaftDrainRecv 0), RaftConsumer (RaftDrainFull 0)} \<and>
    MainCancel \<notin> set bs \<and> length (processed (evs @ evs')) = length (committed (log_part evs)) div 1000"
  using assms unfolding raft_ops_eq by (rule raft_serving.catches_up)

end
