(* ===== verification/Leader_Lease.thy ===== *)
theory Leader_Lease
  imports Transactions
begin

text \<open>
  \<open>cmd/sequencer/main.go\<close>, the leader lease goroutine: at every tick it asks whether this node
  leads, and gives leadership up when it has led for longer than the lease.  Times are the
  readings of the monotonic clock in nanoseconds.
\<close>

section \<open>The goroutine\<close>

record lease_state =
  leaderStartTime :: int
  wasLeader :: bool

definition lease_init :: lease_state where
  "lease_init = \<lparr>leaderStartTime = zero_time, wasLeader = False\<rparr>"

text \<open>
  What happens around one tick: the answer of \<open>IsLeader\<close>, the reading of \<open>time.Now\<close> (used when
  leadership is new) and that of \<open>time.Since\<close> later in the same round.
\<close>

record lease_tick =
  t_leader :: bool
  t_now :: int
  t_since :: int

text \<open>The new state, and whether \<open>StepDown\<close> was called; its result is ignored.\<close>

definition lease_round :: "int \<Rightarrow> lease_tick \<Rightarrow> lease_state \<Rightarrow> lease_state \<times> bool" where
  "lease_round lease t st =
     (let st1 = (if t_leader t \<and> \<not> wasLeader st then st\<lparr>leaderStartTime := t_now t\<rparr> else st) in
      if t_leader t \<and> t_since t - leaderStartTime st1 > lease
      then (st1\<lparr>wasLeader := False\<rparr>, True)
      else (st1\<lparr>wasLeader := t_leader t\<rparr>, False))"

fun lease_run :: "int \<Rightarrow> lease_tick list \<Rightarrow> lease_state \<Rightarrow> lease_state \<times> bool list" where
  "lease_run lease [] st = (st, [])"
| "lease_run lease (t # ts) st =
     (let (st1, down) = lease_round lease t st; (st2, downs) = lease_run lease ts st1 in (st2, down # downs))"

text \<open>The goroutine only runs with a positive lease and the Raft backend.\<close>

definition lease_enabled :: "int \<Rightarrow> string \<Rightarrow> bool" where
  "lease_enabled leaderLease orderingMode \<longleftrightarrow> leaderLease > 0 \<and> orderingMode = ''raft''"

section \<open>The current term of office\<close>

text \<open>
  The ticks of the uninterrupted leadership observed last, newest first: it ends when the node
  is seen not to lead, and starts afresh after every \<open>StepDown\<close>.
\<close>

fun office :: "lease_tick list \<Rightarrow> bool list \<Rightarrow> lease_tick list \<Rightarrow> lease_tick list" where
  "office (t # ts) (d # ds) cur = office ts ds (if d \<or> \<not> t_leader t then [] else t # cur)"
| "office _ _ cur = cur"

definition office_ok :: "int \<Rightarrow> lease_tick list \<Rightarrow> lease_state \<Rightarrow> bool" where
  "office_ok lease cur st \<longleftrightarrow> wasLeader st = (cur \<noteq> []) \<and> list_all t_leader cur \<and>
     (cur \<noteq> [] \<longrightarrow> leaderStartTime st = t_now (last cur) \<and>
        list_all (\<lambda>t. t_since t - t_now (last cur) \<le> lease) cur)"

lemma lease_round_office:
  assumes "office_ok lease cur st" and "lease_round lease t st = (st', down)"
  shows "office_ok lease (if down \<or> \<not> t_leader t then [] else t # cur) st' \<and>
    (down \<longleftrightarrow> t_leader t \<and> t_since t - t_now (last (t # cur)) > lease)"
  using assms by (auto simp: office_ok_def lease_round_def Let_def split: if_splits)

lemma lease_run_snoc:
  "lease_run lease (ts @ [t]) st =
     (let (st1, downs) = lease_run lease ts st; (st2, down) = lease_round lease t st1 in (st2, downs @ [down]))"
  by (induction ts arbitrary: st) (auto simp: Let_def split: prod.splits)

lemma lease_run_length: "length (snd (lease_run lease ts st)) = length ts"
  by (induction ts arbitrary: st) (simp_all add: Let_def case_prod_beta)

lemma office_snoc:
  "length ds = length ts \<Longrightarrow>
     office (ts @ [t]) (ds @ [d]) cur = (if d \<or> \<not> t_leader t then [] else t # office ts ds cur)"
  by (induction ts ds cur rule: office.induct) auto

lemma lease_run_office:
  "office_ok lease (office ts (snd (lease_run lease ts lease_init)) []) (fst (lease_run lease ts lease_init))"
proof (induction ts rule: rev_induct)
  case Nil
  then show ?case by (simp add: office_ok_def lease_init_def)
next
  case (snoc t ts)
  obtain st downs where r: "lease_run lease ts lease_init = (st, downs)" by fastforce
  obtain st' down where r': "lease_round lease t st = (st', down)" by fastforce
  have "length downs = length ts" using lease_run_length [of lease ts lease_init] r by simp
  moreover have "office_ok lease (office ts downs []) st" using snoc r by simp
  note conjunct1 [OF lease_round_office [OF this r']]
  ultimately show ?case using r r' by (simp add: lease_run_snoc office_snoc)
qed

text \<open>
  C29: the lease is exact.  At any tick of any history the goroutine calls \<open>StepDown\<close> if and only
  if the node leads and more than the lease has passed since the first tick of the current,
  uninterrupted leadership: never early, and at the first tick after the lease has run out.
\<close>

theorem lease_exact:
  "last (snd (lease_run lease (ts @ [t]) lease_init)) \<longleftrightarrow>
     t_leader t \<and> t_since t - t_now (last (t # office ts (snd (lease_run lease ts lease_init)) [])) > lease"
proof -
  obtain st downs where r: "lease_run lease ts lease_init = (st, downs)" by fastforce
  with lease_run_office [of lease ts] have "office_ok lease (office ts downs []) st" by simp
  with r show ?thesis
    using lease_round_office [of lease "office ts downs []" st t]
    by (auto simp: lease_run_snoc Let_def split: prod.splits)
qed

text \<open>
  After a call of \<open>StepDown\<close> that did not work the node counts as newly elected: it stays leader
  for at least another full lease.
\<close>

lemma failed_stepdown_restarts:
  assumes "lease_round lease t st = (st1, True)" and "lease_round lease t' st1 = (st2, down)"
    and "t_since t' - t_now t' \<le> lease"
  shows "\<not> down \<and> (t_leader t' \<longrightarrow> leaderStartTime st2 = t_now t')"
  using assms by (auto simp: lease_round_def Let_def split: if_splits)

end
