(* ===== verification/Raft_Node.thy ===== *)
theory Raft_Node
  imports Raft_Log_Properties Rpc_Server Leader_Lease
begin

text \<open>
  \<open>pkg/sequencing/raft_log.go\<close>, the rest: leadership and membership, which ask the Raft library,
  and snapshots.  The snapshot of the FSM is empty and restoring it does nothing, so that a
  restarted node continues with an empty channel after the last snapshot.
\<close>

section \<open>Leadership and membership\<close>

datatype raft_role = Follower | Candidate | Leader | Shutdown

text \<open>What the library answers at one moment; an error is \<open>Some\<close>.\<close>

record raft_lib =
  lib_State :: raft_role
  lib_LeaderWithID :: "string \<times> string"
  lib_AddVoter :: "string \<Rightarrow> string \<Rightarrow> string option"
  lib_LeadershipTransfer :: "string option"

definition IsLeader :: "raft_lib \<Rightarrow> bool" where
  "IsLeader lib \<longleftrightarrow> lib_State lib = Leader"

definition LeaderAddress :: "raft_lib \<Rightarrow> string" where
  "LeaderAddress lib = fst (lib_LeaderWithID lib)"

definition AddVoter :: "raft_lib \<Rightarrow> string \<Rightarrow> string \<Rightarrow> string option" where
  "AddVoter lib nid address = lib_AddVoter lib nid address"

text \<open>The error returned, and whether a transfer was requested.\<close>

definition StepDown :: "raft_lib \<Rightarrow> string option \<times> bool" where
  "StepDown lib = (if \<not> IsLeader lib then (None, False) else (lib_LeadershipTransfer lib, True))"

definition raft_view :: "raft_lib \<Rightarrow> backend_view" where
  "raft_view lib = RaftBackend (IsLeader lib) (LeaderAddress lib)"

text \<open>
  A round of the lease goroutine on the library: the first look decides, and \<open>StepDown\<close> looks
  again, so that leadership lost in between is not given up twice.
\<close>

definition lease_on_lib ::
  "int \<Rightarrow> raft_lib \<Rightarrow> raft_lib \<Rightarrow> int \<Rightarrow> int \<Rightarrow> lease_state \<Rightarrow> lease_state \<times> bool" where
  "lease_on_lib lease lib lib' now since st =
     (let (st', down) = lease_round lease \<lparr>t_leader = IsLeader lib, t_now = now, t_since = since\<rparr> st
      in (st', down \<and> snd (StepDown lib')))"

text \<open>
  A request to join is carried out by exactly the leader: a node that handles \<open>JoinCluster\<close>
  itself leads, and then the result of \<open>AddVoter\<close> for the requested node decides the answer; any
  other node with a known leader passes the request on unchanged, and without one refuses.
\<close>

lemma join_reaches_leader:
  "JoinCluster (raft_view lib) dial forward (AddVoter lib) req =
     (if lib_State lib = Leader then
        (case lib_AddVoter lib (NodeId req) (RaftAddress req) of
           None \<Rightarrow> (Some \<lparr>Success = True, ErrorMessage = ''''\<rparr>, None)
         | Some e \<Rightarrow> (Some \<lparr>Success = False, ErrorMessage = ''failed to add voter: '' @ e\<rparr>, None))
      else if LeaderAddress lib = [] then
        (Some \<lparr>Success = False, ErrorMessage = ''no leader available in cluster''\<rparr>, None)
      else (case dial (leader_grpc_addr (LeaderAddress lib)) of
              Inl e \<Rightarrow> (None, Some (''failed to connect to leader '' @ leader_grpc_addr (LeaderAddress lib) @
                '' for proxying join: '' @ e))
            | Inr c \<Rightarrow> forward c req))"
  by (simp add: JoinCluster_def raft_view_def IsLeader_def AddVoter_def split: option.split sum.split)

section \<open>Snapshots\<close>

datatype noopRaftSnapshot = NoopRaftSnapshot

definition fsm_Snapshot :: "string + noopRaftSnapshot" where
  "fsm_Snapshot = Inr NoopRaftSnapshot"

text \<open>\<open>Restore\<close> reads nothing and leaves the node as it is.\<close>

definition fsm_Restore :: "bytes \<Rightarrow> raft_world \<Rightarrow> string option \<times> raft_world" where
  "fsm_Restore contents w = (None, w)"

text \<open>\<open>Persist\<close> writes nothing: the sink is closed with what it holds.\<close>

definition fsm_Persist :: "noopRaftSnapshot \<Rightarrow> string option \<Rightarrow> string option \<times> bytes" where
  "fsm_Persist s close_result = (close_result, [])"

text \<open>
  A restart: the library restores the snapshot taken at index \<open>snap\<close>, if there is one, and then
  gives the FSM the entries after it.
\<close>

definition restart_entries :: "u64 \<Rightarrow> (u64 \<times> string) list \<Rightarrow> (u64 \<times> string) list" where
  "restart_entries snap es = filter (\<lambda>(i, _). snap < i) es"

lemma restart_split:
  "sorted_wrt (<) (map fst es) \<Longrightarrow> es = filter (\<lambda>(i, _). i \<le> snap) es @ restart_entries snap es"
proof (induction es)
  case (Cons e es)
  obtain i d where e: "e = (i, d)" by fastforce
  show ?case
  proof (cases "i \<le> snap")
    case True
    with Cons e show ?thesis by (simp add: restart_entries_def not_less [symmetric])
  next
    case False
    with Cons.prems e have "\<forall>x \<in> set es. snap < fst x" by (auto dest: order.strict_trans simp: not_le)
    then have "filter (\<lambda>(i, _). i \<le> snap) es = []" "filter (\<lambda>(i, _). snap < i) es = es"
      by (auto simp: filter_empty_conv filter_id_conv not_le)
    with False e show ?thesis by (simp add: restart_entries_def not_le)
  qed
qed (simp add: restart_entries_def)

text \<open>
  C37: what a restart forwards.  Of the transactions the log had turned into before, a restarted
  node forwards again exactly those after the last snapshot, in order, and never those up to it:
  without a snapshot all of them a second time.
\<close>

theorem restart_forwards_suffix:
  assumes "sorted_wrt (<) (map fst es)"
    and "raft_run as (snd (fsm_Restore contents (raft_init buf dl))) = Some (w, evs)" and "\<not> r_done w"
    and "entries as = restart_entries snap es"
  shows "fsm_outputs es = fsm_outputs (filter (\<lambda>(i, _). i \<le> snap) es) @ committed evs @ fsm_sending (fsm w)"
proof -
  have "raft_run as (raft_init buf dl) = Some (w, evs)" using assms(2) by (simp add: fsm_Restore_def)
  from forwarded_entries [OF this] assms(3,4)
  have "committed evs @ fsm_sending (fsm w) = fsm_outputs (restart_entries snap es)" by simp
  moreover have "fsm_outputs es = fsm_outputs (filter (\<lambda>(i, _). i \<le> snap) es) @ fsm_outputs (restart_entries snap es)"
    using restart_split [OF assms(1), of snap] by (metis fsm_outputs_append)
  ultimately show ?thesis by simp
qed

definition two_entries :: "(u64 \<times> string) list" where
  "two_entries =
     [(1, marshal_proposal \<lparr>SubmittedAtUnixNano = 100, ProposalCiphertext = [7]\<rparr>),
      (2, marshal_proposal \<lparr>SubmittedAtUnixNano = 200, ProposalCiphertext = [8]\<rparr>)]"

definition restarted_actions :: "raft_action list" where
  "restarted_actions =
     [RaftFSM (FsmApply 2 9 (marshal_proposal \<lparr>SubmittedAtUnixNano = 200, ProposalCiphertext = [8]\<rparr>)), RaftFSM FsmSend]"

definition second_tx :: EncryptedTransaction where
  "second_tx = \<lparr>ID = 2, Ciphertext = [8], ArrivedAt = 200\<rparr>"

definition restarted_world :: raft_world where
  "restarted_world = (raft_init 4 (\<lambda>_. None))
     \<lparr>committed_ch := [second_tx], applied := (\<lambda>_. False)(9 := True), lib_index := 2, fsm_index := 2\<rparr>"

lemma restarted_run:
  "raft_run restarted_actions (raft_init 4 (\<lambda>_. None)) = Some (restarted_world, [Committed 9 second_tx])"
  by (simp add: restarted_actions_def restarted_world_def second_tx_def raft_eval)

lemma restarted_entries: "entries restarted_actions = restart_entries 1 two_entries"
  by (simp add: restarted_actions_def restart_entries_def two_entries_def)

theorem restart_forwards_suffix_witness:
  "fsm_outputs two_entries = fsm_outputs (filter (\<lambda>(i, _). i \<le> 1) two_entries) @ [second_tx]"
proof -
  have "raft_run restarted_actions (snd (fsm_Restore [] (raft_init 4 (\<lambda>_. None)))) =
      Some (restarted_world, [Committed 9 second_tx])" using restarted_run by (simp add: fsm_Restore_def)
  moreover have "sorted_wrt (<) (map fst two_entries)" by (simp add: two_entries_def)
  moreover have "\<not> r_done restarted_world" "fsm restarted_world = FsmIdle"
    by (simp_all add: restarted_world_def raft_init_def)
  ultimately show ?thesis using restart_forwards_suffix [OF _ _ _ restarted_entries] by fastforce
qed

text \<open>
  Hence replicas may disagree on the batches after a restart from a snapshot: what the restarted
  node forwards is no prefix of what another node forwards, nor the converse, so that batches of
  1000 start at different transactions.
\<close>

lemma snapshot_restart_diverges:
  "\<exists>as w evs. raft_run as (raft_init 4 (\<lambda>_. None)) = Some (w, evs) \<and> entries as = restart_entries 1 two_entries \<and>
     \<not> prefix (committed evs) (fsm_outputs two_entries) \<and> \<not> prefix (fsm_outputs two_entries) (committed evs)"
proof -
  have "fsm_outputs two_entries = [\<lparr>ID = 1, Ciphertext = [7], ArrivedAt = 100\<rparr>, second_tx]"
    by (simp add: fsm_outputs_def two_entries_def map_filter_simps second_tx_def raft_eval)
  moreover have "second_tx \<noteq> \<lparr>ID = 1, Ciphertext = [7], ArrivedAt = 100\<rparr>" by (simp add: second_tx_def)
  ultimately have "\<not> prefix [second_tx] (fsm_outputs two_entries) \<and> \<not> prefix (fsm_outputs two_entries) [second_tx]"
    by simp
  with restarted_run restarted_entries show ?thesis by (metis committed.simps(1,2))
qed

end
