(* ===== verification/Rpc_Raft.thy ===== *)
theory Rpc_Raft
  imports Rpc_Server Raft_Log_Properties
begin

text \<open>
  \<open>internal/rpc/server.go\<close> over \<open>pkg/sequencing/raft_log.go\<close>: the \<open>SubmitTx\<close> handlers of a Raft leader,
  interleaved with its backend.
\<close>

section \<open>A Raft node answers each call at most once\<close>

lemma raft_answers_step:
  assumes "raft_step a w = Some (w', es)"
  shows "(\<forall>r. r_submits w r = Some RaftReturned \<longrightarrow> r_submits w' r = Some RaftReturned) \<and>
    (answers es = [] \<or> (\<exists>r tx. answers es = [(r, tx)] \<and> r_submits w r \<noteq> Some RaftReturned \<and>
       r_submits w' r = Some RaftReturned))"
  using assms
proof (cases rule: raft_step_cases)
  case (submit b)
  then show ?thesis
    by (cases b) (auto simp: raft_step_defs answers_single split: raft_splits sum.splits)
next
  case (fsm b)
  then show ?thesis by (cases b) (auto simp: raft_step_defs split: raft_splits)
next
  case (drain b)
  then show ?thesis by (cases b) (auto simp: raft_step_defs split: raft_splits)
qed (auto simp: raft_Close_def)

lemma raft_answers_once:
  assumes "raft_run as (raft_init buf dl) = Some (w, evs)"
  shows "distinct (map fst (answers evs)) \<and> (\<forall>r \<in> fst ` set (answers evs). r_submits w r = Some RaftReturned)"
proof (rule run_invariant [OF assms, where P = "\<lambda>_ w evs. distinct (map fst (answers evs)) \<and>
      (\<forall>r \<in> fst ` set (answers evs). r_submits w r = Some RaftReturned)"])
  fix as :: "raft_action list" and evs a es and w w' :: raft_world
  assume "distinct (map fst (answers evs)) \<and> (\<forall>r \<in> fst ` set (answers evs). r_submits w r = Some RaftReturned)"
    and "raft_step a w = Some (w', es)"
  with raft_answers_step [of a w w' es]
  show "distinct (map fst (answers (evs @ es))) \<and>
      (\<forall>r \<in> fst ` set (answers (evs @ es)). r_submits w' r = Some RaftReturned)"
    by force
qed simp

interpretation raft_answers: answering_log "raft_init buf dl" raft_step for buf dl
  by unfold_locales (use raft_answers_once in blast)

section \<open>Reception proofs of a leader\<close>

text \<open>
  C15: however concurrent \<open>SubmitTx\<close> handlers of a Raft leader interleave with its backend, as long as
  the log has not been closed, the Raft library keeps its contract (entries at increasing indices,
  each once, with the bytes proposed) and no call is caught between its deadline and the context's timer, the store
  holds exactly one proof per accepted reply; every proof is that of a transaction this node has
  forwarded for that call; and no two proofs have the same sequence ID.
\<close>

theorem rpc_raft_proofs_sound:
  assumes "run (rpc_step raft_step) as (rpc_init (raft_init buf dl)) = Some (w, evs)"
    and "raft_contract (backend_actions as) (raft_init buf dl)"
    and "run_avoids raft_step deadline_race (backend_actions as) (raft_init buf dl)"
    and "\<not> r_done (backend w)"
  shows "ProofCount w = length (accepted evs) \<and> distinct (accepted evs) \<and>
    (\<forall>p \<in> set (proofs (store w)). \<exists>r tx. r \<in> set (accepted evs) \<and> Committed r tx \<in> set (log_events evs) \<and>
       p = reception_proof tx) \<and>
    distinct (map SequenceID (proofs (store w)))"
proof (rule raft_answers.proofs_sound [OF assms(1)])
  note run = raft_answers.backend_run [OF assms(1)]
  show "Committed r tx \<in> set (log_events evs)" if "(r, tx) \<in> set (answers (log_events evs))" for r tx
    using raft_receipts_run [OF run assms(2,3)] that assms(4) by (auto simp: raft_receipts_ok_def answers_iff)
  show "sorted_wrt (<) (map tx_id (committed (log_events evs)))"
    using raft_log.ids_run [OF run] raft_contract_avoids [OF assms(2)] by simp
qed

text \<open>The leader's run with its handler.\<close>

definition leader_rpc_actions :: "raft_action rpc_action list" where
  "leader_rpc_actions = map Backend leader_actions @ [AddProof 5]"

lemma leader_rpc_run:
  "run (rpc_step raft_step) leader_rpc_actions (rpc_init (raft_init 4 (\<lambda>_. None))) =
     Some ((rpc_init leader_world)\<lparr>store := store_Add (reception_proof leader_tx) NewReceptionStore\<rparr>,
       map LogEvent leader_events @ [ProofAdded 5 leader_tx, Replied 5 True])"
  by (simp add: leader_rpc_actions_def rpc_init_def raft_eval fun_upd_idem)

theorem rpc_raft_proofs_sound_witness:
  "distinct (map SequenceID (proofs (store_Add (reception_proof leader_tx) NewReceptionStore))) \<and>
   (\<exists>r tx. r \<in> {5} \<and> Committed r tx \<in> set leader_events \<and> reception_proof leader_tx = reception_proof tx)"
proof -
  have acts: "backend_actions leader_rpc_actions = leader_actions"
    by (simp add: leader_rpc_actions_def leader_actions_def)
  have "\<not> r_done (backend ((rpc_init leader_world)\<lparr>store := store_Add (reception_proof leader_tx) NewReceptionStore\<rparr>))"
    by (simp add: rpc_init_def leader_world_def raft_init_def)
  with rpc_raft_proofs_sound [OF leader_rpc_run] leader_contract leader_no_race acts show ?thesis
    by (simp add: NewReceptionStore_def store_Add_def)
qed

section \<open>The deadline race\<close>

text \<open>A call that has not come to \<open>raft.Apply\<close> has proposed nothing, and a call that has returned never will.\<close>

definition not_yet_proposed :: "raft_world \<Rightarrow> bool" where
  "not_yet_proposed w \<longleftrightarrow>
     (\<forall>r. r_submits w r = None \<longrightarrow> proposed w r = None) \<and>
     (\<forall>r x p. r_submits w r = Some (RaftMarshalled x p) \<longrightarrow> proposed w r = None)"

lemma not_yet_proposed_step:
  assumes "raft_step a w = Some (w', es)" and "not_yet_proposed w"
  shows "not_yet_proposed w'"
  using assms(1)
proof (cases rule: raft_step_cases)
  case (submit b)
  with assms(2) show ?thesis
    by (cases b) (auto simp: not_yet_proposed_def raft_step_defs split: raft_splits)
next
  case (fsm b)
  with assms(2) show ?thesis
    by (cases b) (auto simp: not_yet_proposed_def raft_step_defs split: raft_splits)
next
  case (drain b)
  with assms(2) raft_drain_frame show ?thesis by (fastforce simp: not_yet_proposed_def)
qed (use assms(2) in \<open>auto simp: not_yet_proposed_def raft_Close_def\<close>)

definition gave_up :: "nat \<Rightarrow> raft_world \<Rightarrow> bool" where
  "gave_up r w \<longleftrightarrow> r_submits w r = Some RaftReturned \<and> proposed w r = None"

lemma gave_up_step:
  assumes "raft_step a w = Some (w', es)" and "gave_up r w"
  shows "gave_up r w'"
  using assms(1)
proof (cases rule: raft_step_cases)
  case (submit b)
  with assms(2) show ?thesis by (cases b) (auto simp: gave_up_def raft_step_defs split: raft_splits)
next
  case (fsm b)
  with assms(2) show ?thesis by (cases b) (auto simp: gave_up_def raft_step_defs split: raft_splits)
next
  case (drain b)
  with assms(2) raft_drain_frame show ?thesis by (fastforce simp: gave_up_def)
qed (use assms(2) in \<open>auto simp: gave_up_def raft_Close_def\<close>)

lemma gave_up_run:
  assumes "run (rpc_step raft_step) bs w = Some (w', es)" and "gave_up r (backend w)"
  shows "gave_up r (backend w')"
proof (rule run_invariant [OF assms(1), where P = "\<lambda>_ w _. gave_up r (backend w)"])
  fix a es and v v' :: "raft_world rpc_world"
  assume "gave_up r (backend v)" and "rpc_step raft_step a v = Some (v', es)"
  then show "gave_up r (backend v')"
    by (cases a) (auto split: option.splits prod.splits dest: gave_up_step)
qed (rule assms(2))

text \<open>
  C40: a submission can be acknowledged that was never proposed.  In every state the handlers of a Raft
  node and its backend can reach: if a call has not yet been handed to Raft, its deadline has passed
  and the context's timer has not fired, so that \<open>ctx.Err()\<close> is still nil, then
  \<open>SubmitWithReceipt\<close> may return the zero transaction without an error.  The client is then told that
  its transaction was accepted, the store gains a proof with sequence ID 0, nothing is committed, and
  however the node goes on the transaction is never handed to Raft.
\<close>

theorem rpc_false_acceptance:
  assumes "run (rpc_step raft_step) as (rpc_init (raft_init buf dl)) = Some (w, evs)"
    and "r_submits (backend w) r = Some (RaftMarshalled x p)"
    and "deadline (backend w) x = Some t" and "t \<le> now" and "r_ctx_err (backend w) x = None"
  shows "\<exists>w' es. run (rpc_step raft_step) [Backend (RaftSubmitter (RaftPropose r now)), AddProof r] w = Some (w', es) \<and>
    accepted es = [r] \<and> proofs (store w') = proofs (store w) @ [reception_proof zero_tx] \<and>
    SequenceID (reception_proof zero_tx) = 0 \<and> committed (log_events es) = [] \<and>
    (\<forall>bs w'' es'. run (rpc_step raft_step) bs w' = Some (w'', es') \<longrightarrow> proposed (backend w'') r = None)"
proof -
  have "not_yet_proposed (backend w)"
    by (rule run_invariant [OF raft_answers.backend_run [OF assms(1)], where P = "\<lambda>_ w _. not_yet_proposed w"])
      (simp add: not_yet_proposed_def raft_init_def, rule not_yet_proposed_step)
  with assms(2) have "proposed (backend w) r = None" by (simp add: not_yet_proposed_def)
  then have up: "gave_up r ((backend w)\<lparr>r_submits := (r_submits (backend w))(r \<mapsto> RaftReturned)\<rparr>)" by (simp add: gave_up_def)
  let ?w' = "w\<lparr>backend := (backend w)\<lparr>r_submits := (r_submits (backend w))(r \<mapsto> RaftReturned)\<rparr>,
      pending_proof := (pending_proof w)(r := None), store := store_Add (reception_proof zero_tx) (store w)\<rparr>"
  have "run (rpc_step raft_step) [Backend (RaftSubmitter (RaftPropose r now)), AddProof r] w =
      Some (?w', [LogEvent (SubmitReturned r (Inr zero_tx)), ProofAdded r zero_tx, Replied r True])"
    using assms(2-5) by (simp add: raft_return_def ctx_return_def)
  moreover have "proposed (backend w'') r = None" if "run (rpc_step raft_step) bs ?w' = Some (w'', es')" for bs w'' es'
    using gave_up_run [OF that] up by (simp add: gave_up_def)
  ultimately show ?thesis
    by (intro exI [of _ ?w'] exI conjI) (auto simp: reception_proof_def zero_tx_def)
qed

text \<open>A call whose deadline is the moment at which it looks at it.\<close>

theorem rpc_false_acceptance_witness:
  "\<exists>w evs w' es. run (rpc_step raft_step) [Backend (RaftSubmitter (RaftCallSubmit 5 0 [7] 100))] (rpc_init (raft_init 4 [0 \<mapsto> 101])) =
      Some (w, evs) \<and>
    run (rpc_step raft_step) [Backend (RaftSubmitter (RaftPropose 5 101)), AddProof 5] w = Some (w', es) \<and>
    accepted es = [5] \<and> map SequenceID (proofs (store w')) = [0] \<and> committed (log_events es) = [] \<and> proposed (backend w') 5 = None"
proof -
  let ?p = "marshal_proposal \<lparr>SubmittedAtUnixNano = UnixNano 100, ProposalCiphertext = [7]\<rparr>"
  let ?w = "(rpc_init (raft_init 4 [0 \<mapsto> 101]))\<lparr>backend := (raft_init 4 [0 \<mapsto> 101])\<lparr>r_submits := [5 \<mapsto> RaftMarshalled 0 ?p]\<rparr>\<rparr>"
  have start: "run (rpc_step raft_step) [Backend (RaftSubmitter (RaftCallSubmit 5 0 [7] 100))] (rpc_init (raft_init 4 [0 \<mapsto> 101])) =
      Some (?w, [LogEvent (SubmitCalled 5 [7])])"
    by (simp add: rpc_init_def raft_init_def Let_def)
  obtain w' es where "run (rpc_step raft_step) [Backend (RaftSubmitter (RaftPropose 5 101)), AddProof 5] ?w = Some (w', es)"
    "accepted es = [5]" "proofs (store w') = proofs (store ?w) @ [reception_proof zero_tx]" "SequenceID (reception_proof zero_tx) = 0"
    "committed (log_events es) = []" "\<forall>bs w'' es'. run (rpc_step raft_step) bs w' = Some (w'', es') \<longrightarrow> proposed (backend w'') 5 = None"
    using rpc_false_acceptance [OF start, of 5 0 ?p 101 101] by (auto simp: raft_init_def)
  moreover from this(6) [rule_format, of "[]"] have "proposed (backend w') 5 = None" by simp
  ultimately show ?thesis using start by (auto simp: rpc_init_def NewReceptionStore_def simp del: run.simps)
qed

end
