(* ===== verification/Rpc_Cluster.thy ===== *)
theory Rpc_Cluster
  imports Rpc_Server
begin

text \<open>
  \<open>internal/rpc/server.go\<close> on several nodes: a follower's \<open>SubmitTx\<close> calls \<open>SubmitTx\<close> of the node it holds
  for the leader, which may hold another node for the leader and forward in turn.
\<close>

section \<open>Forwarding from node to node\<close>

text \<open>
  A node as its handler sees it: its view of the cluster and its backend's answer to a
  submission.  Nodes are named by the address they serve gRPC on; \<open>dial\<close> gives the node a
  connection leads to, or the error of \<open>getProxyClient\<close>.
\<close>

record cluster_node =
  cn_view :: backend_view
  cn_submit :: "bytes \<Rightarrow> string + EncryptedTransaction"

type_synonym stores = "string \<Rightarrow> ReceptionStore"

text \<open>
  What can happen to a call from one node to another: it arrives and so does the answer, it never
  arrives, or the connection fails after the handler there has returned.
\<close>

datatype transport = Carried | RequestLost string | ReplyLost string

text \<open>
  The generated client stub: on any error it returns no acknowledgement.  The error of a handler
  comes back as a gRPC status; \<open>status\<close> is the text the gRPC library makes of it.
\<close>

definition client_SubmitTx ::
  "(string \<Rightarrow> string) \<Rightarrow> transport \<Rightarrow> SubmitAck option \<times> string option \<Rightarrow> SubmitAck option \<times> string option" where
  "client_SubmitTx status t reply =
     (case t of
        RequestLost e \<Rightarrow> (None, Some e)
      | ReplyLost e \<Rightarrow> (None, Some e)
      | Carried \<Rightarrow>
          (case snd reply of
             Some e \<Rightarrow> (None, Some (status e))
           | None \<Rightarrow> (fst reply, None)))"

text \<open>
  The handlers of the nodes a submission reaches, with at most \<open>n\<close> of them: \<open>None\<close> says that the
  submission is still being forwarded.
\<close>

fun cluster_SubmitTx ::
  "(string \<Rightarrow> string) \<Rightarrow> (string \<Rightarrow> string \<Rightarrow> transport) \<Rightarrow> (string \<Rightarrow> string + string) \<Rightarrow> (string \<Rightarrow> cluster_node) \<Rightarrow>
   nat \<Rightarrow> string \<Rightarrow> bytes \<Rightarrow> stores \<Rightarrow> ((SubmitAck option \<times> string option) \<times> stores) option" where
  "cluster_SubmitTx status link dial nodes 0 addr ciphertext st = None"
| "cluster_SubmitTx status link dial nodes (Suc n) addr ciphertext st =
     (let handle = (\<lambda>reply. SubmitTx (cn_view (nodes addr)) dial (\<lambda>c _. client_SubmitTx status (link addr c) reply)
                      (cn_submit (nodes addr)) ciphertext (st addr));
          here = apsnd (\<lambda>s. st(addr := s)) (handle (None, None))
      in case route_of (cn_view (nodes addr)) of
           ForwardTo a \<Rightarrow>
             (case dial a of
                Inl _ \<Rightarrow> Some here
              | Inr c \<Rightarrow>
                 (case link addr c of
                    RequestLost _ \<Rightarrow> Some here
                  | _ \<Rightarrow> map_option (\<lambda>(reply, st'). (fst (handle reply), st'))
                          (cluster_SubmitTx status link dial nodes n c ciphertext st)))
         | _ \<Rightarrow> Some here)"

section \<open>Where a submission ends\<close>

text \<open>
  Node \<open>x\<close> passes submissions on to node \<open>y\<close>: it is a follower, it holds some address for the leader's,
  and port 12345 there can be dialled, is served by \<open>y\<close> and receives the call.
\<close>

definition passes_on ::
  "(string \<Rightarrow> string \<Rightarrow> transport) \<Rightarrow> (string \<Rightarrow> string + string) \<Rightarrow> (string \<Rightarrow> cluster_node) \<Rightarrow> string \<Rightarrow> string \<Rightarrow> bool" where
  "passes_on link dial nodes x y \<longleftrightarrow>
     (case cn_view (nodes x) of
        LocalBackend \<Rightarrow> False
      | RaftBackend leads l \<Rightarrow>
          \<not> leads \<and> l \<noteq> [] \<and> dial (leader_grpc_addr l) = Inr y \<and>
          (case link x y of RequestLost _ \<Rightarrow> False | _ \<Rightarrow> True))"

text \<open>A handler that passes a submission on returns what its stub returns; otherwise it answers itself.\<close>

lemma cluster_forwarded:
  "passes_on link dial nodes x y \<Longrightarrow>
     cluster_SubmitTx status link dial nodes (Suc n) x ct st =
       map_option (apfst (client_SubmitTx status (link x y))) (cluster_SubmitTx status link dial nodes n y ct st)"
  by (auto simp: passes_on_def SubmitTx_def map_option_case apfst_def split: backend_view.splits transport.splits option.splits)

lemma cluster_handled:
  "\<not> Ex (passes_on link dial nodes x) \<Longrightarrow>
     cluster_SubmitTx status link dial nodes (Suc n) x ct st =
       Some (apsnd (\<lambda>s. st(x := s)) (SubmitTx (cn_view (nodes x)) dial (\<lambda>c _. client_SubmitTx status (link x c) (None, None))
         (cn_submit (nodes x)) ct (st x)))"
  by (cases "cn_view (nodes x)") (auto simp: passes_on_def Let_def split: sum.splits transport.splits)



section \<open>Properties\<close>

text \<open>
  C16: one leader, one proof.  If every node but \<open>leader\<close> holds the same reachable node for the leader, that
  node is it, and the calls to it are carried, then a submission to any node is answered after at
  most one forwarding, and the leader's store alone changes, as its handler changes it.  Success is
  reported as the leader reports it.  A failure is reported by the leader itself with an
  acknowledgement that says so, but by any other node with no acknowledgement and the gRPC status
  of the leader's error.
\<close>

theorem cluster_reaches_leader:
  assumes "cn_view (nodes leader) = RaftBackend True laddr"
    and "\<And>a. a \<noteq> leader \<Longrightarrow> cn_view (nodes a) = RaftBackend False laddr"
    and "laddr \<noteq> []" and "dial (leader_grpc_addr laddr) = Inr leader" and "\<And>a. link a leader = Carried"
  shows "cluster_SubmitTx status link dial nodes (Suc (Suc n)) addr ct st =
    Some (case cn_submit (nodes leader) ct of
      Inl e \<Rightarrow>
        (if addr = leader then (Some \<lparr>Accepted = False\<rparr>, Some (''failed to submit transaction: '' @ e))
         else (None, Some (status (''failed to submit transaction: '' @ e))), st)
    | Inr tx \<Rightarrow> ((Some \<lparr>Accepted = True\<rparr>, None), st(leader := store_Add (reception_proof tx) (st leader))))"
proof -
  have "\<not> Ex (passes_on link dial nodes leader)" using assms(1) by (simp add: passes_on_def)
  note here = cluster_handled [OF this]
  show ?thesis
  proof (cases "addr = leader")
    case True
    with here assms(1) show ?thesis by (simp add: SubmitTx_def del: cluster_SubmitTx.simps split: sum.splits)
  next
    case False
    then have "passes_on link dial nodes addr leader" using assms by (simp add: passes_on_def)
    from cluster_forwarded [OF this] here assms(1,5) False show ?thesis
      by (simp add: SubmitTx_def client_SubmitTx_def del: cluster_SubmitTx.simps split: sum.splits)
  qed
qed

text \<open>Two nodes, the first leading; the second forwards to it.\<close>

definition pair_tx :: EncryptedTransaction where
  "pair_tx = \<lparr>ID = 3, Ciphertext = [7], ArrivedAt = 100\<rparr>"

definition pair_nodes :: "(bytes \<Rightarrow> string + EncryptedTransaction) \<Rightarrow> string \<Rightarrow> cluster_node" where
  "pair_nodes submit a = \<lparr>cn_view = RaftBackend (a = ''a:12345'') ''a:7000'', cn_submit = submit\<rparr>"

lemma leader_grpc_example: "leader_grpc_addr ''a:7000'' = ''a:12345''" "leader_grpc_addr ''b:7000'' = ''b:12345''"
  using SplitHostPort_JoinHostPort [of "''a''" "''7000''"] SplitHostPort_JoinHostPort [of "''b''" "''7000''"]
  by (simp_all add: leader_grpc_addr_def JoinHostPort_def)

theorem cluster_reaches_leader_witness:
  "cluster_SubmitTx (\<lambda>e. ''rpc error: '' @ e) (\<lambda>_ _. Carried) Inr (pair_nodes (\<lambda>_. Inr pair_tx)) 2 ''b:12345'' [7] (\<lambda>_. NewReceptionStore) =
     Some ((Some \<lparr>Accepted = True\<rparr>, None),
       (\<lambda>_. NewReceptionStore)(''a:12345'' := store_Add (reception_proof pair_tx) NewReceptionStore)) \<and>
   cluster_SubmitTx (\<lambda>e. ''rpc error: '' @ e) (\<lambda>_ _. Carried) Inr (pair_nodes (\<lambda>_. Inl ''closed'')) 2 ''b:12345'' [7] (\<lambda>_. NewReceptionStore) =
     Some ((None, Some ''rpc error: failed to submit transaction: closed''), (\<lambda>_. NewReceptionStore))"
  using cluster_reaches_leader [of "pair_nodes (\<lambda>_. Inr pair_tx)" "''a:12345''" "''a:7000''" Inr "\<lambda>_ _. Carried"
      "\<lambda>e. ''rpc error: '' @ e" 0 "''b:12345''" "[7]" "\<lambda>_. NewReceptionStore"]
    cluster_reaches_leader [of "pair_nodes (\<lambda>_. Inl ''closed'')" "''a:12345''" "''a:7000''" Inr "\<lambda>_ _. Carried"
      "\<lambda>e. ''rpc error: '' @ e" 0 "''b:12345''" "[7]" "\<lambda>_. NewReceptionStore"]
  by (simp add: pair_nodes_def leader_grpc_example numeral_2_eq_2 del: cluster_SubmitTx.simps)




end
