(* ===== verification/Go_Path.thy ===== *)
theory Go_Path
  imports Go_Strings
begin

text \<open>Go's \<open>filepath.Join\<close> and \<open>filepath.Clean\<close> on Unix paths.\<close>

fun clean_components :: "bool \<Rightarrow> string list \<Rightarrow> string list \<Rightarrow> string list" where
  "clean_components rooted [] acc = rev acc"
| "clean_components rooted (c # cs) acc =
     (if c = [] \<or> c = ''.'' then clean_components rooted cs acc
      else if c = ''..'' then
        (case acc of
           [] \<Rightarrow> clean_components rooted cs (if rooted then [] else [c])
         | a # acc' \<Rightarrow> clean_components rooted cs (if a = ''..'' then c # acc else acc'))
      else clean_components rooted cs (c # acc))"

fun join_components :: "string list \<Rightarrow> string" where
  "join_components [] = []"
| "join_components [c] = c"
| "join_components (c # cs) = c @ ''/'' @ join_components cs"

definition filepath_Clean :: "string \<Rightarrow> string" where
  "filepath_Clean path =
     (if path = [] then ''.''
      else let rooted = (hd path = CHR ''/'');
               out = join_components (clean_components rooted (Split path CHR ''/'') [])
           in if rooted then CHR ''/'' # out else if out = [] then ''.'' else out)"

text \<open>Leading empty elements are ignored; an all-empty list gives the empty path.\<close>

definition filepath_Join :: "string list \<Rightarrow> string" where
  "filepath_Join elems =
     (case dropWhile (\<lambda>e. e = []) elems of
        [] \<Rightarrow> []
      | es \<Rightarrow> filepath_Clean (join_components es))"

end
