(* ===== verification/Raft_Setup.thy ===== *)
theory Raft_Setup
  imports Raft_Log Go_Path
begin

text \<open>
  \<open>pkg/sequencing/raft_log.go\<close>, \<open>NewRaftOrderedLog\<close>: validation, opening of the transport and
  the stores, start of the node and bootstrap.  The operating system and the Raft packages
  are the record \<open>raft_platform\<close> of fallible operations; the resources opened and closed along
  each path are the trace of effects.
\<close>

record RaftPeer =
  PeerID :: string
  PeerAddress :: string

record RaftOrderedLogConfig =
  NodeID :: string
  BindAddress :: string
  Bootstrap :: bool
  Peers :: "RaftPeer list"
  CommitBuffer :: int
  DataDir :: string

datatype bootstrap_result = BootstrapOk | ErrCantBootstrap | BootstrapError string

text \<open>\<open>None\<close> is success, \<open>Some e\<close> an error.  The transport knows its local address.\<close>

record raft_platform =
  ResolveTCPAddr :: "string \<Rightarrow> string option"
  NewTCPTransport :: "string \<Rightarrow> string + string"
  MkdirAll :: "string \<Rightarrow> string option"
  NewBoltStore :: "string \<Rightarrow> string option"
  NewFileSnapshotStore :: "string \<Rightarrow> string option"
  NewRaft :: "string \<Rightarrow> string option"
  BootstrapCluster :: "(string \<times> string) list \<Rightarrow> bootstrap_result"

datatype setup_effect =
    TransportOpened | TransportClosed | DirCreated string | StoreOpened string
  | NodeStarted | NodeShutdown | ClusterBootstrapped "(string \<times> string) list"

text \<open>The initial voter set.\<close>

definition valid_peer :: "RaftPeer \<Rightarrow> bool" where
  "valid_peer p \<longleftrightarrow> \<not> (is_blank (PeerID p) \<or> is_blank (PeerAddress p))"

fun collect_servers ::
  "string \<Rightarrow> RaftPeer list \<Rightarrow> (string \<times> string) list \<times> bool \<Rightarrow> (string \<times> string) list \<times> bool" where
  "collect_servers self [] acc = acc"
| "collect_servers self (p # ps) (servers, seenSelf) =
     (if valid_peer p
      then collect_servers self ps (servers @ [(PeerID p, PeerAddress p)], seenSelf \<or> PeerID p = self)
      else collect_servers self ps (servers, seenSelf))"

definition bootstrap_servers :: "RaftOrderedLogConfig \<Rightarrow> string \<Rightarrow> (string \<times> string) list" where
  "bootstrap_servers cfg localAddr =
     (let (servers, seenSelf) = collect_servers (NodeID cfg) (Peers cfg) ([], False);
          servers1 = (if \<not> seenSelf then servers @ [(NodeID cfg, localAddr)] else servers)
      in if length servers1 = 0 then servers1 @ [(NodeID cfg, localAddr)] else servers1)"

definition setup_bootstrap ::
  "raft_platform \<Rightarrow> RaftOrderedLogConfig \<Rightarrow> string \<Rightarrow> setup_effect list \<Rightarrow>
   (string + raft_world) \<times> setup_effect list" where
  "setup_bootstrap env cfg localAddr tr =
     (let ok = Inr (raft_init (CommitBuffer cfg) (\<lambda>_. None)) in
      if Bootstrap cfg then
        let servers = bootstrap_servers cfg localAddr in
        (case BootstrapCluster env servers of
           BootstrapOk \<Rightarrow> (ok, tr @ [ClusterBootstrapped servers])
         | ErrCantBootstrap \<Rightarrow> (ok, tr)
         | BootstrapError e \<Rightarrow>
             (Inl (''bootstrap raft cluster: '' @ e), tr @ [NodeShutdown, TransportClosed]))
      else (ok, tr))"

definition setup_stores ::
  "raft_platform \<Rightarrow> RaftOrderedLogConfig \<Rightarrow> string \<Rightarrow> (string + raft_world) \<times> setup_effect list" where
  "setup_stores env cfg localAddr =
     (let logStorePath = filepath_Join [DataDir cfg, ''raft-log.bolt''];
          stableStorePath = filepath_Join [DataDir cfg, ''raft-stable.bolt''];
          snapshotDir = filepath_Join [DataDir cfg, ''snapshots''];
          t0 = [TransportOpened]
      in case MkdirAll env (DataDir cfg) of
        Some e \<Rightarrow> (Inl (''create raft data dir: '' @ e), t0 @ [TransportClosed])
      | None \<Rightarrow> (let t1 = t0 @ [DirCreated (DataDir cfg)] in case NewBoltStore env logStorePath of
        Some e \<Rightarrow> (Inl (''create raft log store: '' @ e), t1 @ [TransportClosed])
      | None \<Rightarrow> (let t2 = t1 @ [StoreOpened logStorePath] in case NewBoltStore env stableStorePath of
        Some e \<Rightarrow> (Inl (''create raft stable store: '' @ e), t2 @ [TransportClosed])
      | None \<Rightarrow> (let t3 = t2 @ [StoreOpened stableStorePath] in case NewFileSnapshotStore env snapshotDir of
        Some e \<Rightarrow> (Inl (''create raft snapshot store: '' @ e), t3 @ [TransportClosed])
      | None \<Rightarrow> (case NewRaft env (NodeID cfg) of
        Some e \<Rightarrow> (Inl (''create raft node: '' @ e), t3 @ [TransportClosed])
      | None \<Rightarrow> setup_bootstrap env cfg localAddr (t3 @ [NodeStarted]))))))"

definition NewRaftOrderedLog ::
  "raft_platform \<Rightarrow> RaftOrderedLogConfig \<Rightarrow> (string + raft_world) \<times> setup_effect list" where
  "NewRaftOrderedLog env cfg =
     (if is_blank (NodeID cfg) then (Inl ''raft node ID is required'', [])
      else if is_blank (BindAddress cfg) then (Inl ''raft bind address is required'', [])
      else if is_blank (DataDir cfg) then (Inl ''raft data directory is required'', [])
      else (case ResolveTCPAddr env (BindAddress cfg) of
              Some e \<Rightarrow> (Inl (''resolve raft bind address: '' @ e), [])
            | None \<Rightarrow>
               (case NewTCPTransport env (BindAddress cfg) of
                  Inl e \<Rightarrow> (Inl (''create raft transport: '' @ e), [])
                | Inr localAddr \<Rightarrow> setup_stores env cfg localAddr)))"

section \<open>Properties\<close>

lemma collect_servers_append:
  "collect_servers self ps (ss, seen) =
     (ss @ map (\<lambda>p. (PeerID p, PeerAddress p)) (filter valid_peer ps),
      seen \<or> self \<in> PeerID ` set (filter valid_peer ps))"
  by (induction ps arbitrary: ss seen) auto

text \<open>
  The bootstrap configuration consists of the peers with a nonblank ID and address, in the
  order given, followed by this node at its own address unless it is among them: it is never
  empty and always contains this node.
\<close>

lemma bootstrap_servers_complete:
  "bootstrap_servers cfg localAddr =
     map (\<lambda>p. (PeerID p, PeerAddress p)) (filter valid_peer (Peers cfg)) @
     (if NodeID cfg \<in> PeerID ` set (filter valid_peer (Peers cfg)) then [] else [(NodeID cfg, localAddr)]) \<and>
   NodeID cfg \<in> fst ` set (bootstrap_servers cfg localAddr)"
proof -
  have *: "bootstrap_servers cfg localAddr =
     map (\<lambda>p. (PeerID p, PeerAddress p)) (filter valid_peer (Peers cfg)) @
     (if NodeID cfg \<in> PeerID ` set (filter valid_peer (Peers cfg)) then [] else [(NodeID cfg, localAddr)])"
    by (auto simp: bootstrap_servers_def collect_servers_append Let_def filter_empty_conv)
  show ?thesis unfolding * by (auto simp: image_iff)
qed

definition opened :: "setup_effect \<Rightarrow> setup_effect list \<Rightarrow> nat" where
  "opened e tr = length (filter (\<lambda>x. x = e) tr)"

text \<open>
  Starting a node never leaks its listening transport: on every error path the transport
  opened is closed exactly once, and on success it is open and the node has the requested (or
  the default) buffer.
\<close>

lemma setup_transport_balanced:
  "case NewRaftOrderedLog env cfg of
     (Inl e, tr) \<Rightarrow> opened TransportOpened tr = opened TransportClosed tr \<and>
       opened NodeStarted tr = opened NodeShutdown tr
   | (Inr w, tr) \<Rightarrow> opened TransportOpened tr = 1 \<and> opened TransportClosed tr = 0 \<and>
       opened NodeStarted tr = 1 \<and> opened NodeShutdown tr = 0 \<and>
       commit_buffer w = effective_commit_buffer (CommitBuffer cfg)"
  by (auto simp: NewRaftOrderedLog_def setup_stores_def setup_bootstrap_def opened_def Let_def raft_init_def
      split: option.splits sum.splits bootstrap_result.splits)

text \<open>
  The Bolt stores are not released that way: when the stable store cannot be opened, the
  log store opened before it stays open although no node exists.
\<close>

lemma setup_leaks_log_store:
  assumes "\<not> is_blank (NodeID cfg)" "\<not> is_blank (BindAddress cfg)" "\<not> is_blank (DataDir cfg)"
    and "ResolveTCPAddr env (BindAddress cfg) = None" and "NewTCPTransport env (BindAddress cfg) = Inr a"
    and "MkdirAll env (DataDir cfg) = None"
    and "NewBoltStore env (filepath_Join [DataDir cfg, ''raft-log.bolt'']) = None"
    and "NewBoltStore env (filepath_Join [DataDir cfg, ''raft-stable.bolt'']) = Some e"
  shows "NewRaftOrderedLog env cfg =
    (Inl (''create raft stable store: '' @ e),
     [TransportOpened, DirCreated (DataDir cfg),
      StoreOpened (filepath_Join [DataDir cfg, ''raft-log.bolt'']), TransportClosed])"
  using assms by (simp add: NewRaftOrderedLog_def setup_stores_def Let_def)

end
