(* ===== verification/Sequencer_Startup.thy ===== *)
theory Sequencer_Startup
  imports Privacy_Layer Raft_Setup Rpc_Server Encrypted_Mempool
begin

text \<open>
  \<open>cmd/sequencer/main.go\<close>, start-up: the key files (with \<open>SaveKeyToFile\<close> and
  \<open>LoadKeyFromFile\<close> of \<open>pkg/privacy\<close> and the C++ functions behind them), the peer list, the
  join of a fresh node and the choice of the ordering backend.
\<close>

section \<open>Key files\<close>

type_synonym file_system = "string \<Rightarrow> bytes option"

text \<open>
  How writing a file can end: not opened, stopped after some bytes so that the stream is not
  \<open>good()\<close>, buffered but lost in part when \<open>close()\<close> flushes, whose failure nobody looks at, or complete.
\<close>

datatype write_outcome = CannotOpen | WriteStops nat | CloseLoses nat | WriteOk

definition save_key_to_file ::
  "write_outcome \<Rightarrow> string \<Rightarrow> bytes \<Rightarrow> file_system \<Rightarrow> int \<times> file_system" where
  "save_key_to_file oc path key fs =
     (case oc of
        CannotOpen \<Rightarrow> (0, fs)
      | WriteStops k \<Rightarrow> (0, fs(path \<mapsto> take k key))
      | CloseLoses k \<Rightarrow> (1, fs(path \<mapsto> take k key))
      | WriteOk \<Rightarrow> (1, fs(path \<mapsto> key)))"

definition load_key_from_file :: "string \<Rightarrow> nat \<Rightarrow> file_system \<Rightarrow> int \<times> bytes" where
  "load_key_from_file path len fs =
     (case fs path of
        None \<Rightarrow> (0, replicate len 0)
      | Some b \<Rightarrow> if length b < len then (0, b @ replicate (len - length b) 0) else (1, take len b))"

definition SaveKeyToFile ::
  "write_outcome \<Rightarrow> string \<Rightarrow> bytes \<Rightarrow> file_system \<Rightarrow> privacy_error option \<times> file_system" where
  "SaveKeyToFile oc path key fs =
     (if length key = 0 then (Some EmptyKey, fs)
      else let (ok, fs') = save_key_to_file oc path key fs in
        if ok \<noteq> 1 then (Some (SaveFailed path), fs') else (None, fs'))"

definition LoadKeyFromFile :: "string \<Rightarrow> int \<Rightarrow> file_system \<Rightarrow> privacy_error + bytes" where
  "LoadKeyFromFile path expectedLen fs =
     (if expectedLen \<le> 0 then Inl BadExpectedLen
      else let (ok, buf) = load_key_from_file path (nat expectedLen) fs in
        if ok \<noteq> 1 then Inl (LoadFailed path) else Inr buf)"

definition pubPath :: string where "pubPath = ''keys/sequencer_public.key''"
definition secPath :: string where "secPath = ''keys/sequencer_private.key''"

datatype key_error = KeyDir string | KeyPrivacy privacy_error

text \<open>
  \<open>loadOrCreateSequencerKeys\<close>: \<open>mkdir\<close> is the result of creating \<open>keys/\<close>, \<open>pubOut\<close> and \<open>secOut\<close>
  how the two writes end.
\<close>

definition loadOrCreateSequencerKeys ::
  "string option \<Rightarrow> sodium \<Rightarrow> write_outcome \<Rightarrow> write_outcome \<Rightarrow> file_system \<Rightarrow>
   (key_error + (bytes \<times> bytes)) \<times> file_system" where
  "loadOrCreateSequencerKeys mkdir lib pubOut secOut fs =
     (case mkdir of
        Some e \<Rightarrow> (Inl (KeyDir e), fs)
      | None \<Rightarrow>
         (case (LoadKeyFromFile pubPath (int PublicKeyBytes) fs, LoadKeyFromFile secPath (int SecretKeyBytes) fs) of
            (Inr pub, Inr sec) \<Rightarrow> (Inr (pub, sec), fs)
          | _ \<Rightarrow>
             (case GenerateSequencerKeys lib of
                Inl e \<Rightarrow> (Inl (KeyPrivacy e), fs)
              | Inr (pub, sec) \<Rightarrow>
                 (case SaveKeyToFile pubOut pubPath pub fs of
                    (Some e, fs1) \<Rightarrow> (Inl (KeyPrivacy e), fs1)
                  | (None, fs1) \<Rightarrow>
                     (case SaveKeyToFile secOut secPath sec fs1 of
                        (Some e, fs2) \<Rightarrow> (Inl (KeyPrivacy e), fs2)
                      | (None, fs2) \<Rightarrow> (Inr (pub, sec), fs2))))))"

lemma paths_differ [simp]: "pubPath \<noteq> secPath" "secPath \<noteq> pubPath"
  by (simp_all add: pubPath_def secPath_def)

lemma LoadKeyFromFile_Inr:
  "0 < n \<Longrightarrow> LoadKeyFromFile path n fs = Inr k \<longleftrightarrow>
     (\<exists>b. fs path = Some b \<and> nat n \<le> length b \<and> k = take (nat n) b)"
  by (auto simp: LoadKeyFromFile_def load_key_from_file_def split: option.splits if_splits)

lemma LoadKeyFromFile_cong: "fs path = fs' path \<Longrightarrow> LoadKeyFromFile path n fs = LoadKeyFromFile path n fs'"
  by (simp add: LoadKeyFromFile_def load_key_from_file_def)

text \<open>What reaches the disk of a key reported as saved.\<close>

fun on_disk :: "write_outcome \<Rightarrow> bytes \<Rightarrow> bytes" where
  "on_disk (CloseLoses k) key = take k key"
| "on_disk _ key = key"

lemma SaveKeyToFile_None:
  "SaveKeyToFile oc path key fs = (None, fs') \<Longrightarrow> fs' = fs(path \<mapsto> on_disk oc key) \<and> key \<noteq> []"
  by (auto simp: SaveKeyToFile_def save_key_to_file_def split: if_splits write_outcome.splits)

lemma keys_loaded:
  assumes "LoadKeyFromFile pubPath (int PublicKeyBytes) fs = Inr pub"
    and "LoadKeyFromFile secPath (int SecretKeyBytes) fs = Inr sec"
  shows "loadOrCreateSequencerKeys None lib pubOut secOut fs = (Inr (pub, sec), fs)"
  using assms unfolding loadOrCreateSequencerKeys_def by simp

lemma keys_created:
  assumes "loadOrCreateSequencerKeys None lib pubOut secOut fs = (Inr (pub, sec), fs')"
  shows "(fs' = fs \<and> LoadKeyFromFile pubPath (int PublicKeyBytes) fs = Inr pub \<and>
      LoadKeyFromFile secPath (int SecretKeyBytes) fs = Inr sec) \<or>
    (GenerateSequencerKeys lib = Inr (pub, sec) \<and> fs' = fs(pubPath \<mapsto> on_disk pubOut pub, secPath \<mapsto> on_disk secOut sec))"
  using assms unfolding loadOrCreateSequencerKeys_def
  by (simp split: sum.splits prod.splits option.splits) (blast dest: SaveKeyToFile_None)+

lemma generated_lengths:
  assumes "GenerateSequencerKeys lib = Inr (pub, sec)"
    and "case box_keypair lib of Some (p, s) \<Rightarrow> length p = PublicKeyBytes \<and> length s = SecretKeyBytes | None \<Rightarrow> True"
  shows "length pub = PublicKeyBytes \<and> length sec = SecretKeyBytes"
  using assms by (auto simp: GenerateSequencerKeys_def generate_sequencer_keys_def split: option.splits if_splits)

text \<open>
  C30: key persistence.  Whatever start-up returned without error, loaded or created with both files
  flushed in full when they were closed, the next start-up returns again, whatever the generator
  and the disk would do then, and changes no file: clients can keep encrypting to the same key.
\<close>

theorem keys_persist:
  assumes "loadOrCreateSequencerKeys None lib pubOut secOut fs = (Inr (pub, sec), fs')"
    and "case box_keypair lib of Some (p, s) \<Rightarrow> length p = PublicKeyBytes \<and> length s = SecretKeyBytes | None \<Rightarrow> True"
    and "\<forall>k. pubOut \<noteq> CloseLoses k" and "\<forall>k. secOut \<noteq> CloseLoses k"
  shows "loadOrCreateSequencerKeys None lib' pubOut' secOut' fs' = (Inr (pub, sec), fs')"
  using keys_created [OF assms(1)]
proof (elim disjE conjE)
  assume gen: "GenerateSequencerKeys lib = Inr (pub, sec)"
    and fs': "fs' = fs(pubPath \<mapsto> on_disk pubOut pub, secPath \<mapsto> on_disk secOut sec)"
  have "on_disk pubOut pub = pub" using assms(3) by (cases pubOut) simp_all
  moreover have "on_disk secOut sec = sec" using assms(4) by (cases secOut) simp_all
  ultimately show ?thesis using generated_lengths [OF gen assms(2)]
    by (intro keys_loaded) (simp_all add: LoadKeyFromFile_Inr fs')
qed (simp add: keys_loaded)

lemmas key_defs = loadOrCreateSequencerKeys_def LoadKeyFromFile_def load_key_from_file_def
  SaveKeyToFile_def save_key_to_file_def Let_def

theorem keys_persist_witness:
  "loadOrCreateSequencerKeys None glass_sodium CannotOpen CannotOpen
     [pubPath \<mapsto> replicate 32 1, secPath \<mapsto> replicate 32 2] =
   (Inr (replicate 32 1, replicate 32 2), [pubPath \<mapsto> replicate 32 1, secPath \<mapsto> replicate 32 2])"
  by (rule keys_persist [where lib = glass_sodium and fs = "\<lambda>_. None" and pubOut = WriteOk and secOut = WriteOk])
    (simp_all add: key_defs GenerateSequencerKeys_def generate_sequencer_keys_def glass_sodium_def)

text \<open>
  A full disk goes unnoticed.  If the flush of the private key at \<open>close()\<close> loses bytes, start-up
  succeeds and serves with the new keys; the next start-up rejects the short file and replaces both.
\<close>

lemma keys_lost_after_short_flush:
  assumes "LoadKeyFromFile pubPath (int PublicKeyBytes) fs = Inl e"
    and "GenerateSequencerKeys lib = Inr (pub, sec)" and "pub \<noteq> []" and "sec \<noteq> []" and "k < SecretKeyBytes"
    and "GenerateSequencerKeys lib' = Inr (pub', sec')" and "pub' \<noteq> []" and "sec' \<noteq> []"
  shows "\<exists>fs'. loadOrCreateSequencerKeys None lib WriteOk (CloseLoses k) fs = (Inr (pub, sec), fs') \<and>
    fst (loadOrCreateSequencerKeys None lib' WriteOk WriteOk fs') = Inr (pub', sec')"
proof -
  let ?fs = "fs(pubPath \<mapsto> pub, secPath \<mapsto> take k sec)"
  have "LoadKeyFromFile secPath (int SecretKeyBytes) ?fs = Inl (LoadFailed secPath)"
    using assms(5) by (simp add: LoadKeyFromFile_def load_key_from_file_def)
  then have "fst (loadOrCreateSequencerKeys None lib' WriteOk WriteOk ?fs) = Inr (pub', sec')"
    using assms(6-8) by (auto simp: loadOrCreateSequencerKeys_def SaveKeyToFile_def save_key_to_file_def split: sum.splits)
  moreover have "loadOrCreateSequencerKeys None lib WriteOk (CloseLoses k) fs = (Inr (pub, sec), ?fs)"
    using assms(1-4) by (simp add: loadOrCreateSequencerKeys_def SaveKeyToFile_def save_key_to_file_def)
  ultimately show ?thesis by blast
qed

text \<open>
  An interrupted replacement of the keys goes unnoticed.  If the public key is missing
  while a private key exists, and the new private key cannot be written, start-up fails; but
  the next start-up succeeds with the new public and the old private key, a pair that does not
  match.
\<close>

lemma keys_mismatch_after_failed_save:
  assumes "fs pubPath = None" and "fs secPath = Some old" and "length old = SecretKeyBytes"
    and "GenerateSequencerKeys lib = Inr (pub, sec)" and "length pub = PublicKeyBytes" and "sec \<noteq> []"
  shows "\<exists>fs'. loadOrCreateSequencerKeys None lib WriteOk CannotOpen fs =
      (Inl (KeyPrivacy (SaveFailed secPath)), fs') \<and>
    loadOrCreateSequencerKeys None lib' pubOut' secOut' fs' = (Inr (pub, old), fs')"
  using assms by (simp add: key_defs) auto

section \<open>The peer list\<close>

text \<open>The errors that end start-up.\<close>

datatype startup_error =
    PrivacyInitFailed privacy_error
  | KeySetupFailed key_error
  | InvalidRaftPeer string
  | DialJoin string
  | JoinRpc string
  | JoinRefused string
  | BackendFailed string
  | UnsupportedOrdering string
  | ListenFailed string

fun parse_parts :: "string list \<Rightarrow> startup_error + RaftPeer list" where
  "parse_parts [] = Inr []"
| "parse_parts (p # ps) =
     (let part = TrimSpace p in
      if part = [] then parse_parts ps
      else let fields = SplitN2 part CHR ''='' in
        if length fields \<noteq> 2 then Inl (InvalidRaftPeer part)
        else (case parse_parts ps of
                Inl e \<Rightarrow> Inl e
              | Inr peers \<Rightarrow>
                  Inr (\<lparr>PeerID = TrimSpace (fields ! 0), PeerAddress = TrimSpace (fields ! 1)\<rparr> # peers)))"

definition parseRaftPeers :: "string \<Rightarrow> startup_error + RaftPeer list" where
  "parseRaftPeers spec =
     (let spec' = TrimSpace spec in if spec' = [] then Inr [] else parse_parts (Split spec' CHR '',''))"

text \<open>The documented form of a peer list, \<open>id=host:port,id=host:port\<close>.\<close>

fun show_peers :: "RaftPeer list \<Rightarrow> string" where
  "show_peers [] = []"
| "show_peers [p] = PeerID p @ CHR ''='' # PeerAddress p"
| "show_peers (p # q # ps) = PeerID p @ CHR ''='' # PeerAddress p @ CHR '','' # show_peers (q # ps)"

definition plain_peer :: "RaftPeer \<Rightarrow> bool" where
  "plain_peer p \<longleftrightarrow> PeerID p \<noteq> [] \<and> PeerAddress p \<noteq> [] \<and>
     list_all (\<lambda>c. graphic c \<and> c \<noteq> CHR '','') (PeerID p @ PeerAddress p) \<and> CHR ''='' \<notin> set (PeerID p)"

lemma SplitN2_first: "c \<notin> set a \<Longrightarrow> SplitN2 (a @ c # b) c = [a, b]"
  by (induction a) auto

lemma Split_none: "c \<notin> set a \<Longrightarrow> Split a c = [a]"
  by (induction a) auto

lemma Split_first: "c \<notin> set a \<Longrightarrow> Split (a @ c # b) c = a # Split b c"
  by (induction a) auto

lemma TrimSpace_all_graphic: "list_all graphic s \<Longrightarrow> TrimSpace s = s"
proof (cases "s = []")
  case True
  have "find (\<lambda>r. r \<noteq> [] \<and> starts_with [] r) rs = None" for rs
    by (auto simp: find_None_iff starts_with_def)
  then have "strip_front rs [] = []" for rs by (subst strip_front.simps) simp
  with True show ?thesis by (simp add: TrimSpace_def)
qed (simp add: TrimSpace_graphic list_all_iff)

lemma graphic_separators [simp]: "graphic CHR ''=''" "graphic CHR '',''"
  by (simp_all add: graphic_def)

lemma plain_peer_graphic:
  assumes "plain_peer p"
  shows "list_all graphic (PeerID p)" and "list_all graphic (PeerAddress p)"
  using assms by (auto simp: plain_peer_def list_all_iff)

lemma show_peers_graphic: "list_all plain_peer ps \<Longrightarrow> list_all graphic (show_peers ps)"
  by (induction ps rule: show_peers.induct) (simp_all add: plain_peer_graphic)

lemma parse_one:
  assumes "plain_peer p"
  shows "parse_parts ((PeerID p @ CHR ''='' # PeerAddress p) # ps) = map_sum id (Cons p) (parse_parts ps)"
proof -
  have "CHR ''='' \<notin> set (PeerID p)" using assms by (simp add: plain_peer_def)
  then show ?thesis
    using assms plain_peer_graphic [OF assms]
    by (auto simp: TrimSpace_all_graphic SplitN2_first Let_def split: sum.split)
qed

lemma parse_shown:
  "list_all plain_peer ps \<Longrightarrow> ps \<noteq> [] \<Longrightarrow> parse_parts (Split (show_peers ps) CHR '','') = Inr ps"
proof (induction ps rule: show_peers.induct)
  case (2 p)
  then have "CHR '','' \<notin> set (PeerID p @ CHR ''='' # PeerAddress p)"
    by (auto simp: plain_peer_def list_all_iff)
  with 2 show ?case by (simp add: Split_none parse_one del: parse_parts.simps(2))
next
  case (3 p q ps)
  then have "CHR '','' \<notin> set (PeerID p @ CHR ''='' # PeerAddress p)"
    by (auto simp: plain_peer_def list_all_iff)
  with 3 Split_first [of "CHR '',''" "PeerID p @ CHR ''='' # PeerAddress p" "show_peers (q # ps)"]
  show ?case by (simp add: parse_one del: parse_parts.simps(2))
qed simp

text \<open>
  The peer list round trip.  Every list of peers whose IDs and addresses are nonempty
  printable strings without commas, and without an equals sign in the ID, is read back from its
  documented form.
\<close>

lemma parseRaftPeers_roundtrip:
  assumes "list_all plain_peer ps"
  shows "parseRaftPeers (show_peers ps) = Inr ps"
proof (cases "ps = []")
  case True
  then show ?thesis by (simp add: parseRaftPeers_def TrimSpace_all_graphic)
next
  case False
  then have "show_peers ps \<noteq> []" by (cases ps rule: show_peers.cases) auto
  with False assms show ?thesis
    by (simp add: parseRaftPeers_def TrimSpace_all_graphic show_peers_graphic parse_shown)
qed

section \<open>Start-up\<close>

definition defaultRaftDataDir :: "string \<Rightarrow> string" where
  "defaultRaftDataDir raftNodeID = filepath_Join [''.local'', ''raft'', ''data'', raftNodeID]"

datatype ordered_log_backend = TxQueueBackend queue_world | RaftBackendLog raft_world

definition newOrderedLog ::
  "raft_platform \<Rightarrow> string \<Rightarrow> string \<Rightarrow> string \<Rightarrow> string \<Rightarrow> string \<Rightarrow> bool \<Rightarrow>
   (startup_error + ordered_log_backend) \<times> setup_effect list" where
  "newOrderedLog env orderingMode raftNodeID raftBind raftPeers raftDataDir raftBootstrap =
     (if orderingMode = ''local'' then (Inr (TxQueueBackend (queue_init 100)), [])
      else if orderingMode = ''raft'' then
        (case parseRaftPeers raftPeers of
           Inl e \<Rightarrow> (Inl e, [])
         | Inr peers \<Rightarrow>
            (let (res, tr) = NewRaftOrderedLog env
               \<lparr>NodeID = raftNodeID, BindAddress = raftBind, Bootstrap = raftBootstrap, Peers = peers,
                CommitBuffer = 0, DataDir = raftDataDir\<rparr>
             in (map_sum BackendFailed RaftBackendLog res, tr)))
      else (Inl (UnsupportedOrdering orderingMode), []))"

text \<open>\<open>logStartupConfiguration\<close>: the lines printed.\<close>

definition show_bool :: "bool \<Rightarrow> string" where
  "show_bool b = (if b then ''true'' else ''false'')"

definition logStartupConfiguration ::
  "string \<Rightarrow> string \<Rightarrow> string \<Rightarrow> string \<Rightarrow> string \<Rightarrow> bool \<Rightarrow> RaftPeer list \<Rightarrow> string list" where
  "logStartupConfiguration orderingMode grpcAddr raftNodeID raftBind raftDataDir raftBootstrap peers =
     [''Ordering backend: '' @ orderingMode, ''gRPC bind: '' @ grpcAddr] @
     (if orderingMode \<noteq> ''raft'' then []
      else [''Raft node ID: '' @ raftNodeID, ''Raft bind: '' @ raftBind, ''Raft data dir: '' @ raftDataDir,
            ''Raft bootstrap: '' @ show_bool raftBootstrap] @
        (if length peers = 0 then [''Raft peers: none configured'']
         else ''Raft peers:'' # map (\<lambda>p. ''  - '' @ PeerID p @ ''='' @ PeerAddress p) peers))"

text \<open>The outcome of \<open>os.Stat\<close>; only a definite absence counts as one.\<close>

datatype stat_result = StatOk | StatNotExist | StatError

definition pathExists :: "(string \<Rightarrow> stat_result) \<Rightarrow> string \<Rightarrow> bool" where
  "pathExists stat path \<longleftrightarrow> stat path \<noteq> StatNotExist"

text \<open>\<open>attemptJoin\<close>: the dial and the RPC are the gRPC library's.\<close>

definition attemptJoin ::
  "(string \<Rightarrow> string option) \<Rightarrow> (string \<Rightarrow> JoinRequest \<Rightarrow> string + JoinResponse) \<Rightarrow> string \<Rightarrow> string \<Rightarrow> string \<Rightarrow>
   startup_error option" where
  "attemptJoin dial rpc joinAddr nodeID raftAddr =
     (case dial joinAddr of
        Some e \<Rightarrow> Some (DialJoin e)
      | None \<Rightarrow>
         (case rpc joinAddr \<lparr>NodeId = nodeID, RaftAddress = raftAddr\<rparr> of
            Inl e \<Rightarrow> Some (JoinRpc e)
          | Inr resp \<Rightarrow> (if \<not> Success resp then Some (JoinRefused (ErrorMessage resp)) else None)))"

record sequencer_flags =
  flag_ordering :: string
  flag_grpc_addr :: string
  flag_raft_node_id :: string
  flag_raft_bind :: string
  flag_raft_data_dir :: string
  flag_raft_bootstrap :: bool
  flag_raft_peers :: string
  flag_raft_join_addr :: string
  flag_leader_lease :: int

text \<open>What start-up asks of the machine it runs on.\<close>

record startup_env =
  env_sodium :: sodium
  env_mkdir_keys :: "string option"
  env_pub_write :: write_outcome
  env_sec_write :: write_outcome
  env_files :: file_system
  env_stat :: "string \<Rightarrow> stat_result"
  env_dial :: "string \<Rightarrow> string option"
  env_join_rpc :: "string \<Rightarrow> JoinRequest \<Rightarrow> string + JoinResponse"
  env_raft :: raft_platform
  env_listen :: "string \<Rightarrow> string option"

datatype startup_effect = JoinAttempted string "startup_error option" | BackendEffect setup_effect

record sequencer_node =
  node_keys :: "bytes \<times> bytes"
  node_backend :: ordered_log_backend
  node_mempool :: EncryptedMempool

definition effective_data_dir :: "sequencer_flags \<Rightarrow> string" where
  "effective_data_dir f =
     (if flag_raft_data_dir f = [] then defaultRaftDataDir (flag_raft_node_id f) else flag_raft_data_dir f)"

text \<open>Whether the node asks to join: a Raft node that neither bootstraps nor has a log.\<close>

definition must_join :: "startup_env \<Rightarrow> sequencer_flags \<Rightarrow> bool" where
  "must_join env f \<longleftrightarrow> flag_ordering f = ''raft'' \<and> \<not> flag_raft_bootstrap f \<and> flag_raft_join_addr f \<noteq> [] \<and>
     \<not> pathExists (env_stat env) (filepath_Join [effective_data_dir f, ''raft-log.bolt''])"

definition main_join :: "startup_env \<Rightarrow> sequencer_flags \<Rightarrow> startup_error option \<times> startup_effect list" where
  "main_join env f =
     (if must_join env f then
        let r = attemptJoin (env_dial env) (env_join_rpc env) (flag_raft_join_addr f)
                  (flag_raft_node_id f) (flag_raft_bind f)
        in (r, [JoinAttempted (flag_raft_join_addr f) r])
      else (None, []))"

definition main_backend ::
  "startup_env \<Rightarrow> sequencer_flags \<Rightarrow> bytes \<times> bytes \<Rightarrow> (startup_error + sequencer_node) \<times> startup_effect list" where
  "main_backend env f keys =
     (let (res, tr) = newOrderedLog (env_raft env) (flag_ordering f) (flag_raft_node_id f) (flag_raft_bind f)
            (flag_raft_peers f) (effective_data_dir f) (flag_raft_bootstrap f)
      in (case res of
            Inl e \<Rightarrow> Inl e
          | Inr olog \<Rightarrow>
             (case env_listen env (flag_grpc_addr f) of
                Some e \<Rightarrow> Inl (ListenFailed e)
              | None \<Rightarrow> Inr \<lparr>node_keys = keys, node_backend = olog, node_mempool = NewEncryptedMempool 1024\<rparr>),
          map BackendEffect tr))"

text \<open>\<open>main\<close>, up to the point where it serves: the node started or the error that ended it.\<close>

definition main_startup ::
  "startup_env \<Rightarrow> sequencer_flags \<Rightarrow> (startup_error + sequencer_node) \<times> startup_effect list" where
  "main_startup env f =
     (case privacy_Init (env_sodium env) of
        Some e \<Rightarrow> (Inl (PrivacyInitFailed e), [])
      | None \<Rightarrow>
     (case fst (loadOrCreateSequencerKeys (env_mkdir_keys env) (env_sodium env)
             (env_pub_write env) (env_sec_write env) (env_files env)) of
        Inl e \<Rightarrow> (Inl (KeySetupFailed e), [])
      | Inr keys \<Rightarrow>
     (case parseRaftPeers (flag_raft_peers f) of
        Inl e \<Rightarrow> (Inl e, [])
      | Inr peers \<Rightarrow>
     (case main_join env f of
        (Some e, tr) \<Rightarrow> (Inl e, tr)
      | (None, tr) \<Rightarrow> (let (res, tr') = main_backend env f keys in (res, tr @ tr'))))))"

section \<open>Order of the start-up steps\<close>

text \<open>Opening a backend has effects only in Raft mode.\<close>

lemma newOrderedLog_effects:
  "newOrderedLog env mode nid bind peers dir boot = (res, tr) \<Longrightarrow> tr \<noteq> [] \<Longrightarrow> mode = ''raft''"
  by (auto simp: newOrderedLog_def split: if_splits)

lemma main_backend_effects:
  "main_backend env f keys = (res, tr) \<Longrightarrow> (\<exists>tr'. tr = map BackendEffect tr') \<and> (tr \<noteq> [] \<longrightarrow> flag_ordering f = ''raft'')"
  by (auto simp: main_backend_def Let_def dest: newOrderedLog_effects split: prod.splits)

text \<open>The steps that end start-up before a join is considered.\<close>

definition startup_reaches_join :: "startup_env \<Rightarrow> sequencer_flags \<Rightarrow> bool" where
  "startup_reaches_join env f \<longleftrightarrow> privacy_Init (env_sodium env) = None \<and>
     (\<exists>keys fs. loadOrCreateSequencerKeys (env_mkdir_keys env) (env_sodium env) (env_pub_write env) (env_sec_write env)
        (env_files env) = (Inr keys, fs)) \<and>
     (\<exists>peers. parseRaftPeers (flag_raft_peers f) = Inr peers)"

lemma main_startup_cases:
  assumes "main_startup env f = (res, tr)"
  obtains (early) "\<not> startup_reaches_join env f" "tr = []"
  | (refused) e where "startup_reaches_join env f" "main_join env f = (Some e, tr)" "res = Inl e"
  | (opens) tj keys bs where "startup_reaches_join env f" "main_join env f = (None, tj)"
      "main_backend env f keys = (res, map BackendEffect bs)" "tr = tj @ map BackendEffect bs"
proof -
  obtain kr fs where keys: "loadOrCreateSequencerKeys (env_mkdir_keys env) (env_sodium env) (env_pub_write env)
      (env_sec_write env) (env_files env) = (kr, fs)" by (rule prod.exhaust)
  obtain jr tj where join: "main_join env f = (jr, tj)" by (rule prod.exhaust)
  show thesis
  proof (cases "startup_reaches_join env f")
    case False
    with assms keys have "tr = []"
      by (auto simp: main_startup_def startup_reaches_join_def split: option.splits sum.splits)
    with False early show ?thesis by blast
  next
    case True
    then obtain ks where start: "main_startup env f =
        (case jr of Some e \<Rightarrow> (Inl e, tj) | None \<Rightarrow> (let (r, tr') = main_backend env f ks in (r, tj @ tr')))"
      using keys join by (auto simp: main_startup_def startup_reaches_join_def split: option.splits)
    obtain r tb where mb: "main_backend env f ks = (r, tb)" by (rule prod.exhaust)
    with main_backend_effects obtain bs where "tb = map BackendEffect bs" by blast
    with True start join mb assms refused opens show ?thesis by (cases jr) auto
  qed
qed

text \<open>
  C31: a node joins before it opens anything.  Once privacy layer, keys and peer list are in order,
  start-up asks to join if and only if the node runs Raft, does not bootstrap, was given an address
  and \<open>raft-log.bolt\<close> is known not to exist in its data directory; it asks once and first of all, a failure
  ends start-up with nothing opened, and transport and stores are opened only in Raft mode.
\<close>

theorem startup_joins_first:
  assumes "main_startup env f = (res, tr)"
  shows "((\<exists>a r. JoinAttempted a r \<in> set tr) \<longleftrightarrow>
      startup_reaches_join env f \<and> flag_ordering f = ''raft'' \<and> flag_raft_bootstrap f = False \<and> flag_raft_join_addr f \<noteq> [] \<and>
      env_stat env (filepath_Join [if flag_raft_data_dir f = [] then filepath_Join [''.local'', ''raft'', ''data'', flag_raft_node_id f]
        else flag_raft_data_dir f, ''raft-log.bolt'']) = StatNotExist) \<and>
    (\<forall>a r. JoinAttempted a r \<in> set tr \<longrightarrow> a = flag_raft_join_addr f \<and> hd tr = JoinAttempted a r \<and>
      (\<exists>bs. tl tr = map BackendEffect bs) \<and> (\<forall>e. r = Some e \<longrightarrow> res = Inl e \<and> tl tr = [])) \<and>
    (\<forall>b. BackendEffect b \<in> set tr \<longrightarrow> flag_ordering f = ''raft'')"
proof -
  have due: "must_join env f \<longleftrightarrow> flag_ordering f = ''raft'' \<and> flag_raft_bootstrap f = False \<and> flag_raft_join_addr f \<noteq> [] \<and>
      env_stat env (filepath_Join [if flag_raft_data_dir f = [] then filepath_Join [''.local'', ''raft'', ''data'', flag_raft_node_id f]
        else flag_raft_data_dir f, ''raft-log.bolt'']) = StatNotExist"
    by (simp add: must_join_def pathExists_def effective_data_dir_def defaultRaftDataDir_def)
  from assms have "((\<exists>a r. JoinAttempted a r \<in> set tr) \<longleftrightarrow> startup_reaches_join env f \<and> must_join env f) \<and>
    (\<forall>a r. JoinAttempted a r \<in> set tr \<longrightarrow> a = flag_raft_join_addr f \<and> hd tr = JoinAttempted a r \<and>
      (\<exists>bs. tl tr = map BackendEffect bs) \<and> (\<forall>e. r = Some e \<longrightarrow> res = Inl e \<and> tl tr = [])) \<and>
    (\<forall>b. BackendEffect b \<in> set tr \<longrightarrow> flag_ordering f = ''raft'')"
  proof (cases rule: main_startup_cases)
    case (opens tj keys bs)
    from main_backend_effects [OF opens(3)] have raft: "b \<in> set bs \<Longrightarrow> flag_ordering f = ''raft''" for b by auto
    show ?thesis
    proof (cases "must_join env f")
      case True
      with opens(2) have "tj = [JoinAttempted (flag_raft_join_addr f) None]" by (auto simp: main_join_def Let_def)
      with True opens raft show ?thesis by auto
    next
      case False
      with opens(2) have "tj = []" by (simp add: main_join_def)
      with False opens raft show ?thesis by auto
    qed
  next
    case (refused e)
    then have "must_join env f" "tr = [JoinAttempted (flag_raft_join_addr f) (Some e)]"
      by (auto simp: main_join_def Let_def split: if_splits)
    with refused show ?thesis by auto
  qed simp
  then show ?thesis unfolding due .
qed

text \<open>A fresh node whose request to join is refused.\<close>

definition refused_flags :: sequencer_flags where
  "refused_flags = \<lparr>flag_ordering = ''raft'', flag_grpc_addr = '':12345'', flag_raft_node_id = ''n2'',
     flag_raft_bind = ''h:7000'', flag_raft_data_dir = ''d'', flag_raft_bootstrap = False, flag_raft_peers = [],
     flag_raft_join_addr = ''h:12345'', flag_leader_lease = 0\<rparr>"

definition refused_env :: startup_env where
  "refused_env = \<lparr>env_sodium = glass_sodium, env_mkdir_keys = None, env_pub_write = WriteOk, env_sec_write = WriteOk,
     env_files = [pubPath \<mapsto> replicate 32 1, secPath \<mapsto> replicate 32 2], env_stat = (\<lambda>_. StatNotExist),
     env_dial = (\<lambda>_. None), env_join_rpc = (\<lambda>_ _. Inr \<lparr>Success = False, ErrorMessage = ''no''\<rparr>),
     env_raft = \<lparr>ResolveTCPAddr = (\<lambda>_. None), NewTCPTransport = Inr, MkdirAll = (\<lambda>_. None),
       NewBoltStore = (\<lambda>_. None), NewFileSnapshotStore = (\<lambda>_. None), NewRaft = (\<lambda>_. None),
       BootstrapCluster = (\<lambda>_. BootstrapOk)\<rparr>,
     env_listen = (\<lambda>_. None)\<rparr>"

lemma refused_startup:
  "main_startup refused_env refused_flags =
     (Inl (JoinRefused ''no''), [JoinAttempted ''h:12345'' (Some (JoinRefused ''no''))])"
proof -
  have "loadOrCreateSequencerKeys None glass_sodium WriteOk WriteOk
      [pubPath \<mapsto> replicate 32 1, secPath \<mapsto> replicate 32 2] =
    (Inr (replicate 32 1, replicate 32 2), [pubPath \<mapsto> replicate 32 1, secPath \<mapsto> replicate 32 2])"
    by (rule keys_loaded) (simp_all add: LoadKeyFromFile_Inr)
  moreover have "parseRaftPeers [] = Inr []"
    by (simp add: parseRaftPeers_def TrimSpace_all_graphic)
  moreover have "privacy_Init glass_sodium = None"
    by (simp add: privacy_Init_def init_privacy_layer_def glass_sodium_def)
  ultimately show ?thesis
    by (simp add: main_startup_def refused_env_def refused_flags_def main_join_def must_join_def
        pathExists_def attemptJoin_def Let_def)
qed

theorem startup_joins_first_witness:
  "startup_reaches_join refused_env refused_flags \<and> env_stat refused_env (filepath_Join [''d'', ''raft-log.bolt'']) = StatNotExist \<and>
   tl (snd (main_startup refused_env refused_flags)) = []"
proof -
  have "tl (snd (main_startup refused_env refused_flags)) = []" by (simp add: refused_startup)
  moreover have "startup_reaches_join refused_env refused_flags \<and>
      env_stat refused_env (filepath_Join [''d'', ''raft-log.bolt'']) = StatNotExist"
    using conjunct1 [OF startup_joins_first [OF refused_startup]] by (simp add: refused_flags_def)
  ultimately show ?thesis by blast
qed

end
