(* ===== verification/Client_Programs.thy ===== *)
theory Client_Programs
  imports Sequencer_Startup
begin

text \<open>
  \<open>cmd/client/main.go\<close>: the command line client, which seals one trade and submits it.
\<close>

section \<open>The command line client\<close>

record client_flags =
  cf_addr :: string
  cf_pubkey :: string
  cf_payload :: string
  cf_side :: string
  cf_pair :: string
  cf_amount :: float64
  cf_price :: float64

text \<open>
  What it meets: the result of creating the channel, libsodium and its randomness, the files, the
  clock, and the sequencer's answer to \<open>SubmitTx\<close>.
\<close>

record client_env =
  ce_connect :: "string \<Rightarrow> string option"
  ce_sodium :: sodium
  ce_rnd :: nat
  ce_files :: file_system
  ce_unix :: int
  ce_submit :: "bytes \<Rightarrow> string + SubmitAck"

datatype client_exit =
    ConnectFailed string | ClientInitFailed privacy_error | KeyLoadFailed privacy_error
  | ClientSealFailed privacy_error | RpcFailed string
  | Submitted bool string

text \<open>The payload: the one given, or a trade with the flags and the time.\<close>

definition trade_payload :: "client_flags \<Rightarrow> int \<Rightarrow> string" where
  "trade_payload f now =
     ''TRADE|'' @ cf_side f @ ''|'' @ cf_pair f @ ''|'' @ format_f 6 (cf_amount f) @ ''|'' @
     format_f 6 (cf_price f) @ ''|'' @ show_int now"

definition client_payload :: "client_flags \<Rightarrow> int \<Rightarrow> string" where
  "client_payload f now = (if cf_payload f = [] then trade_payload f now else cf_payload f)"

text \<open>The exit of the program, and the ciphertexts it sent.\<close>

definition client_main :: "client_env \<Rightarrow> client_flags \<Rightarrow> client_exit \<times> bytes list" where
  "client_main env f =
     (case ce_connect env (cf_addr f) of
        Some e \<Rightarrow> (ConnectFailed e, [])
      | None \<Rightarrow>
     (case privacy_Init (ce_sodium env) of
        Some e \<Rightarrow> (ClientInitFailed e, [])
      | None \<Rightarrow>
     (case LoadKeyFromFile (cf_pubkey f) (int PublicKeyBytes) (ce_files env) of
        Inl e \<Rightarrow> (KeyLoadFailed e, [])
      | Inr pubKey \<Rightarrow>
         (let txPayload = client_payload f (ce_unix env) in
          case SealTransaction (ce_sodium env) (ce_rnd env) (bytes_of_string txPayload) pubKey of
            Inl e \<Rightarrow> (ClientSealFailed e, [])
          | Inr ciphertext \<Rightarrow>
             (case ce_submit env ciphertext of
                Inl e \<Rightarrow> (RpcFailed e, [ciphertext])
              | Inr res \<Rightarrow> (Submitted (Accepted res) txPayload, [ciphertext]))))))"

text \<open>
  C33: only the sealed trade leaves the client, and the sequencer can read it.  If side and pair contain
  no \<open>|\<close> and the payload has fewer than \<open>2^31\<close> bytes, the client sends at most one ciphertext; under the
  key pair whose public half is in the key file it opens to the payload, and the payload of a trade
  splits back into its six fields.
\<close>

theorem client_sends_sealed_trade:
  assumes "client_main env f = (res, sent)" and "ct \<in> set sent"
    and "ce_files env (cf_pubkey f) = Some pub" and "length pub = PublicKeyBytes"
    and "sealed_boxes (ce_sodium env) pub sec" and "length sec = SecretKeyBytes"
    and "CHR ''|'' \<notin> set (cf_side f)" and "CHR ''|'' \<notin> set (cf_pair f)"
    and "length (client_payload f (ce_unix env)) < 2 ^ 31"
  shows "sent = [ct] \<and> DecryptSingle (ce_sodium env) ct pub sec = Inr (bytes_of_string (client_payload f (ce_unix env))) \<and>
    Split (trade_payload f (ce_unix env)) CHR ''|'' =
      [''TRADE'', cf_side f, cf_pair f, format_f 6 (cf_amount f), format_f 6 (cf_price f), show_int (ce_unix env)]"
proof -
  have "LoadKeyFromFile (cf_pubkey f) (int PublicKeyBytes) (ce_files env) = Inr pub"
    using assms(3,4) by (simp add: LoadKeyFromFile_Inr)
  with assms(1,2) have "sent = [ct]"
    "SealTransaction (ce_sodium env) (ce_rnd env) (bytes_of_string (client_payload f (ce_unix env))) pub = Inr ct"
    by (auto simp: client_main_def Let_def split: option.splits sum.splits)
  moreover have "Split (trade_payload f (ce_unix env)) CHR ''|'' =
      [''TRADE'', cf_side f, cf_pair f, format_f 6 (cf_amount f), format_f 6 (cf_price f), show_int (ce_unix env)]"
    using assms(7,8) by (simp add: trade_payload_def Split_first Split_none)
  ultimately show ?thesis using SealTransaction_opens [OF _ assms(5,6)] assms(9) by simp
qed

definition example_env :: client_env where
  "example_env = \<lparr>ce_connect = (\<lambda>_. None), ce_sodium = glass_sodium, ce_rnd = 0,
     ce_files = [''k'' \<mapsto> replicate 32 1], ce_unix = 17, ce_submit = (\<lambda>_. Inr \<lparr>Accepted = True\<rparr>)\<rparr>"

definition example_flags :: client_flags where
  "example_flags = \<lparr>cf_addr = ''a'', cf_pubkey = ''k'', cf_payload = ''x'', cf_side = ''BUY'', cf_pair = ''ETH/USDC'',
     cf_amount = 0x3FF8000000000000, cf_price = 0x40A9000000000000\<rparr>"

lemma example_main:
  "client_main example_env example_flags = (Submitted True ''x'', [replicate 48 0 @ bytes_of_string ''x''])"
  by (simp add: client_main_def example_env_def example_flags_def privacy_Init_def init_privacy_layer_def
      glass_sodium_def LoadKeyFromFile_def load_key_from_file_def SealTransaction_def seal_transaction_def
      client_payload_def Let_def)

theorem client_sends_sealed_trade_witness:
  "DecryptSingle glass_sodium (replicate 48 0 @ bytes_of_string ''x'') (replicate 32 1) (replicate 32 2) =
     Inr (bytes_of_string ''x'') \<and>
   Split (trade_payload example_flags 17) CHR ''|'' =
     [''TRADE'', ''BUY'', ''ETH/USDC'', format_f 6 0x3FF8000000000000, format_f 6 0x40A9000000000000, show_int 17]"
  using client_sends_sealed_trade [OF example_main, of "replicate 48 0 @ bytes_of_string ''x''" "replicate 32 1" "replicate 32 2"]
    glass_sealed [of "replicate 32 1" "replicate 32 2"]
  by (simp add: example_env_def example_flags_def client_payload_def)

end
