(* ===== verification/Go_Float.thy ===== *)
theory Go_Float
  imports Go_Fmt
begin

text \<open>
  Arithmetic of Go's \<open>float64\<close> on non-negative finite values, as IEEE 754 defines it: the exact
  result, rounded to the nearest double, ties to even.
\<close>

section \<open>Rounding a fraction to a double\<close>

text \<open>\<open>top_bit n\<close> is the position of the highest bit of \<open>n > 0\<close>.\<close>

fun top_bit :: "nat \<Rightarrow> nat" where
  "top_bit n = (if n < 2 then 0 else Suc (top_bit (n div 2)))"

declare top_bit.simps [simp del]

text \<open>The largest \<open>k\<close> with \<open>2\<^sup>k \<le> n / d\<close>, for positive \<open>n\<close> and \<open>d\<close>.\<close>

definition floor_log2 :: "nat \<Rightarrow> nat \<Rightarrow> int" where
  "floor_log2 n d = (if d \<le> n then int (top_bit (n div d)) else - int (top_bit ((d - 1) div n)) - 1)"

text \<open>
  The exponent field \<open>e\<close> of a double gives the unit \<open>2\<^bsup>e - 1075\<^esup>\<close> of its significand; a significand rounded up
  to \<open>2\<^sup>5\<^sup>3\<close> carries into the exponent, and subnormal numbers have \<open>e = 1\<close> and no leading bit.
\<close>

definition f64_round :: "nat \<Rightarrow> nat \<Rightarrow> float64" where
  "f64_round n d =
     (if n = 0 then 0
      else let e = nat (max 1 (floor_log2 n d + 1023));
               m = (if e \<le> 1075 then round_half_even (n * 2 ^ (1075 - e)) d else round_half_even n (d * 2 ^ (e - 1075)))
           in word_of_nat (min ((e - 1) * 2 ^ 52 + m) (2047 * 2 ^ 52)))"

text \<open>The value of a non-negative finite double, as a fraction.\<close>

definition f64_ratio :: "float64 \<Rightarrow> nat \<times> nat" where
  "f64_ratio w =
     (let e = f64_exp w; m = f64_mant w in
      if e = 0 then (m, 2 ^ 1074)
      else if 1075 \<le> e then ((2 ^ 52 + m) * 2 ^ (e - 1075), 1)
      else (2 ^ 52 + m, 2 ^ (1075 - e)))"

section \<open>Operations\<close>

definition f64_of_nat :: "nat \<Rightarrow> float64" where
  "f64_of_nat n = f64_round n 1"

definition f64_add :: "float64 \<Rightarrow> float64 \<Rightarrow> float64" where
  "f64_add a b = (let (n, d) = f64_ratio a; (n', d') = f64_ratio b in f64_round (n * d' + n' * d) (d * d'))"

definition f64_inf :: float64 where "f64_inf = 0x7FF0000000000000"

definition f64_nan :: float64 where "f64_nan = 0x7FF8000000000001"

definition f64_div :: "float64 \<Rightarrow> float64 \<Rightarrow> float64" where
  "f64_div a b =
     (let (n, d) = f64_ratio a; (n', d') = f64_ratio b in
      if n' = 0 then (if n = 0 then f64_nan else f64_inf) else f64_round (n * d') (d * n'))"

section \<open>A double is the rounding of its own value\<close>

lemma top_bit_bounds: "0 < n \<Longrightarrow> 2 ^ top_bit n \<le> n \<and> n < 2 ^ Suc (top_bit n)"
proof (induction n rule: top_bit.induct)
  case (1 n)
  show ?case
  proof (cases "n < 2")
    case True
    with 1 show ?thesis by (simp add: top_bit.simps)
  next
    case False
    with 1 have "2 ^ top_bit (n div 2) \<le> n div 2" "n div 2 < 2 ^ Suc (top_bit (n div 2))" by simp_all
    moreover have "top_bit n = Suc (top_bit (n div 2))" using False by (simp add: top_bit.simps)
    ultimately show ?thesis by simp linarith
  qed
qed

lemma top_bit_unique: "2 ^ k \<le> n \<Longrightarrow> n < 2 ^ Suc k \<Longrightarrow> top_bit n = k"
proof -
  assume k: "2 ^ k \<le> n" "n < 2 ^ Suc k"
  have "0 < n" using k(1) by (cases n) simp_all
  from top_bit_bounds [OF this] k have "(2::nat) ^ top_bit n < 2 ^ Suc k" "(2::nat) ^ k < 2 ^ Suc (top_bit n)"
    by linarith+
  then have "top_bit n < Suc k" "k < Suc (top_bit n)" by (simp_all only: power_strict_increasing_iff)
  then show ?thesis by simp
qed

lemma round_half_even_exact [simp]: "0 < b \<Longrightarrow> round_half_even (a * b) b = a"
  by (simp add: round_half_even_def)

text \<open>With \<open>m\<close> a significand of 53 bits, \<open>m \<sqdot> 2\<^bsup>e - 1075\<^esup>\<close> has the exponent field \<open>e\<close>.\<close>

lemma floor_log2_big:
  assumes "2 ^ 52 \<le> m" and "m < 2 ^ 53"
  shows "floor_log2 (m * 2 ^ j) 1 = 52 + int j"
proof -
  have "2 ^ (52 + j) \<le> m * 2 ^ j" "m * 2 ^ j < 2 ^ Suc (52 + j)"
    using assms by (simp_all add: power_add)
  then have "top_bit (m * 2 ^ j) = 52 + j" by (rule top_bit_unique)
  moreover have "1 \<le> m * 2 ^ j" using assms(1) by simp
  ultimately show ?thesis by (simp add: floor_log2_def)
qed

lemma floor_log2_small:
  assumes "2 ^ 52 \<le> m" and "m < 2 ^ 53"
  shows "floor_log2 m (2 ^ j) = 52 - int j"
proof (cases "j \<le> 52")
  case True
  have "(2::nat) ^ 52 = 2 ^ (52 - j) * 2 ^ j" "(2::nat) ^ 53 = 2 ^ Suc (52 - j) * 2 ^ j"
    using True by (simp_all flip: power_add)
  then have "2 ^ (52 - j) \<le> m div 2 ^ j" "m div 2 ^ j < 2 ^ Suc (52 - j)"
    using assms by (simp_all add: less_eq_div_iff_mult_less_eq div_less_iff_less_mult)
  then have "top_bit (m div 2 ^ j) = 52 - j" by (rule top_bit_unique)
  moreover have "(2::nat) ^ j \<le> m" using True assms(1) by (meson order.trans power_increasing one_le_numeral)
  ultimately show ?thesis using True by (simp add: floor_log2_def)
next
  case False
  then obtain i where i: "j = 53 + i" using nat_le_iff_add by (metis Suc_leI eval_nat_numeral(3) not_le)
  have "(2::nat) ^ 53 \<le> 2 ^ j" by (rule power_increasing) (simp_all add: i)
  with assms(2) have lt: "m < 2 ^ j" by (rule less_le_trans)
  have "2 ^ i \<le> (2 ^ j - 1) div m"
  proof -
    have "2 ^ i * m \<le> 2 ^ i * (2 ^ 53 - 1)" using assms(2) by simp
    also have "\<dots> \<le> 2 ^ j - 1" by (simp add: i power_add diff_mult_distrib2 algebra_simps)
    finally show ?thesis using assms(1) by (simp add: less_eq_div_iff_mult_less_eq)
  qed
  moreover have "(2 ^ j - 1) div m < 2 ^ Suc i"
  proof -
    have "2 ^ Suc i * 2 ^ 52 = (2::nat) ^ j" by (simp add: i power_add)
    then have "(2::nat) ^ j \<le> 2 ^ Suc i * m" using assms(1) by (metis mult_le_mono2)
    then have "(2::nat) ^ j - 1 < 2 ^ Suc i * m" using assms(1) by (simp add: Suc_le_lessD less_le_trans)
    then show ?thesis using assms(1) by (simp add: div_less_iff_less_mult)
  qed
  ultimately have "top_bit ((2 ^ j - 1) div m) = i" by (rule top_bit_unique)
  with lt show ?thesis by (simp add: floor_log2_def i)
qed

lemma f64_fields:
  assumes "\<not> f64_sign w"
  shows "unat w = f64_exp w * 2 ^ 52 + f64_mant w \<and> f64_mant w < 2 ^ 52"
proof -
  have "even (unat w div 2 ^ 63)"
    using assms bit_unsigned_iff [of w 63, where 'a = nat] by (simp add: f64_sign_def bit_iff_odd)
  moreover have "unat w div 2 ^ 63 < 2" using unsigned_less [of w] by (simp add: div_less_iff_less_mult)
  ultimately have "unat w div 2 ^ 63 = 0" by (metis One_nat_def less_2_cases odd_one)
  then have "unat w < 2 ^ 63" by (simp add: div_eq_0_iff)
  moreover have "f64_exp w = unat w div 2 ^ 52 mod 2048" by (simp add: f64_exp_def drop_bit_eq_div unat_div_distrib)
  ultimately show ?thesis by (simp add: f64_mant_def)
qed

text \<open>Rounding a significand times its unit gives the double with that significand.\<close>

lemma f64_round_significand:
  assumes "floor_log2 n d + 1023 = int e" and "1 \<le> e" and "e < 2047" and "2 ^ 52 \<le> m" and "m < 2 ^ 53" and "0 < n"
    and "(if e \<le> 1075 then round_half_even (n * 2 ^ (1075 - e)) d else round_half_even n (d * 2 ^ (e - 1075))) = m"
  shows "f64_round n d = word_of_nat (e * 2 ^ 52 + (m - 2 ^ 52))"
proof -
  have e: "nat (max 1 (floor_log2 n d + 1023)) = e" using assms(1,2) by simp
  have bits: "(e - 1) * 2 ^ 52 + m = e * 2 ^ 52 + (m - 2 ^ 52)"
    using assms(2,4) by (cases e) (simp_all add: algebra_simps)
  have "e * 2 ^ 52 + (m - 2 ^ 52) < 2047 * 2 ^ 52"
  proof -
    have "e * 2 ^ 52 + (m - 2 ^ 52) < Suc e * 2 ^ 52" using assms(5) by simp
    also have "\<dots> \<le> 2047 * 2 ^ 52" using assms(3) by simp
    finally show ?thesis .
  qed
  with assms(6,7) e bits show ?thesis by (simp add: f64_round_def Let_def min_def)
qed

lemma f64_round_subnormal:
  assumes "m < 2 ^ 52"
  shows "f64_round m (2 ^ 1074) = word_of_nat m"
proof (cases "m = 0")
  case False
  have "2 ^ 1021 * m \<le> 2 ^ 1021 * (2 ^ 52 - 1)" using assms by simp
  also have "\<dots> \<le> 2 ^ 1074 - 1" by simp
  finally have "2 ^ 1021 \<le> (2 ^ 1074 - 1) div m" using False by (simp add: less_eq_div_iff_mult_less_eq)
  moreover from this have "0 < (2 ^ 1074 - 1) div m" by (metis less_le_trans zero_less_numeral zero_less_power)
  ultimately have "(2::nat) ^ 1021 < 2 ^ Suc (top_bit ((2 ^ 1074 - 1) div m))"
    using top_bit_bounds by (blast intro: le_less_trans)
  then have "1021 \<le> top_bit ((2 ^ 1074 - 1) div m)" by (simp only: power_strict_increasing_iff)
  moreover have "m < 2 ^ 1074" by (rule less_trans [OF assms]) simp
  ultimately have "nat (max 1 (floor_log2 m (2 ^ 1074) + 1023)) = 1" by (simp add: floor_log2_def)
  with False assms show ?thesis
    by (simp add: f64_round_def Let_def min_def)
qed (simp add: f64_round_def)

lemma f64_round_ratio:
  assumes "\<not> f64_sign w" and "f64_exp w < 2047"
  shows "f64_round (fst (f64_ratio w)) (snd (f64_ratio w)) = w"
proof -
  note fields = f64_fields [OF assms(1)]
  have "word_of_nat (unat w) = w" by simp
  with fields have w: "w = word_of_nat (f64_exp w * 2 ^ 52 + f64_mant w)" and m: "f64_mant w < 2 ^ 52" by auto
  consider "f64_exp w = 0" | "0 < f64_exp w" "f64_exp w < 1075" | "1075 \<le> f64_exp w" by linarith
  then show ?thesis
  proof cases
    case 1
    with f64_round_subnormal [OF m] w show ?thesis by (simp add: f64_ratio_def)
  next
    case 2
    let ?M = "2 ^ 52 + f64_mant w"
    have "f64_round ?M (2 ^ (1075 - f64_exp w)) = word_of_nat (f64_exp w * 2 ^ 52 + (?M - 2 ^ 52))"
      by (rule f64_round_significand) (use 2 assms(2) m floor_log2_small [of ?M "1075 - f64_exp w"] in \<open>simp_all add: of_nat_diff\<close>)
    with 2 w show ?thesis by (simp add: f64_ratio_def Let_def)
  next
    case 3
    let ?M = "2 ^ 52 + f64_mant w"
    have "f64_round (?M * 2 ^ (f64_exp w - 1075)) 1 = word_of_nat (f64_exp w * 2 ^ 52 + (?M - 2 ^ 52))"
    proof (rule f64_round_significand)
      show "(if f64_exp w \<le> 1075 then round_half_even (?M * 2 ^ (f64_exp w - 1075) * 2 ^ (1075 - f64_exp w)) 1
          else round_half_even (?M * 2 ^ (f64_exp w - 1075)) (1 * 2 ^ (f64_exp w - 1075))) = ?M"
        using 3 round_half_even_exact [of 1 ?M] by simp
    qed (use 3 assms(2) m floor_log2_big [of ?M "f64_exp w - 1075"] in \<open>simp_all add: of_nat_diff\<close>)
    with 3 w show ?thesis by (simp add: f64_ratio_def Let_def)
  qed
qed

section \<open>Small integers\<close>

text \<open>Integers below \<open>2\<^sup>5\<^sup>3\<close> are doubles, and their sums are exact while they stay below it.\<close>

lemma f64_of_nat_bits:
  assumes "0 < n" and "n < 2 ^ 53"
  shows "f64_of_nat n = word_of_nat ((1023 + top_bit n) * 2 ^ 52 + (n * 2 ^ (52 - top_bit n) - 2 ^ 52))"
    and "2 ^ 52 \<le> n * 2 ^ (52 - top_bit n)" and "n * 2 ^ (52 - top_bit n) < 2 ^ 53" and "top_bit n \<le> 52"
proof -
  let ?e = "top_bit n"
  note b = top_bit_bounds [OF assms(1)]
  have "(2::nat) ^ ?e < 2 ^ 53" using b assms(2) by linarith
  then have e: "?e < 53" by (simp only: power_strict_increasing_iff)
  then show "?e \<le> 52" by simp
  have p: "(2::nat) ^ 52 = 2 ^ ?e * 2 ^ (52 - ?e)" "(2::nat) ^ 53 = 2 ^ Suc ?e * 2 ^ (52 - ?e)"
    using e by (simp_all flip: power_add)
  show m: "2 ^ 52 \<le> n * 2 ^ (52 - ?e)" "n * 2 ^ (52 - ?e) < 2 ^ 53"
    unfolding p using b by (intro mult_le_mono1 mult_less_mono1; simp)+
  show "f64_of_nat n = word_of_nat ((1023 + ?e) * 2 ^ 52 + (n * 2 ^ (52 - ?e) - 2 ^ 52))"
    unfolding f64_of_nat_def
  proof (rule f64_round_significand)
    show "(if 1023 + ?e \<le> 1075 then round_half_even (n * 2 ^ (1075 - (1023 + ?e))) 1
        else round_half_even n (1 * 2 ^ (1023 + ?e - 1075))) = n * 2 ^ (52 - ?e)"
      using e round_half_even_exact [of 1 "n * 2 ^ (52 - ?e)"] by simp
  qed (use e m assms in \<open>simp_all add: floor_log2_def\<close>)
qed

lemma f64_ratio_of_nat:
  assumes "n < 2 ^ 53"
  shows "\<exists>k > 0. f64_ratio (f64_of_nat n) = (n * k, k)"
proof (cases "n = 0")
  case True
  then show ?thesis by (auto simp: f64_of_nat_def f64_round_def f64_ratio_def f64_exp_def f64_mant_def)
next
  case False
  then have n: "0 < n" by simp
  let ?e = "1023 + top_bit n" and ?m = "n * 2 ^ (52 - top_bit n)"
  note bits = f64_of_nat_bits [OF n assms]
  have small: "?e * 2 ^ 52 + (?m - 2 ^ 52) < 2 ^ 64" using bits(3,4) by simp
  then have "unat (word_of_nat (?e * 2 ^ 52 + (?m - 2 ^ 52)) :: float64) = ?e * 2 ^ 52 + (?m - 2 ^ 52)"
    by (subst unat_of_nat) simp
  with bits(1) have u: "unat (f64_of_nat n) = ?e * 2 ^ 52 + (?m - 2 ^ 52)" by (simp only:)
  have "?m - 2 ^ 52 < 2 ^ 52" using bits(2,3) by (simp add: less_diff_conv2)
  moreover have "(e * c + r) div c = e" "(e * c + r) mod c = r" if "r < c" for e c r :: nat using that by simp_all
  ultimately have "(?e * 2 ^ 52 + (?m - 2 ^ 52)) div 2 ^ 52 = ?e" "(?e * 2 ^ 52 + (?m - 2 ^ 52)) mod 2 ^ 52 = ?m - 2 ^ 52"
    by blast+
  with u bits(4) have ex: "f64_exp (f64_of_nat n) = ?e" "f64_mant (f64_of_nat n) = ?m - 2 ^ 52"
    by (simp_all add: f64_exp_def f64_mant_def drop_bit_eq_div unat_div_distrib)
  have msig: "2 ^ 52 + (?m - 2 ^ 52) = ?m" using bits(2) by simp
  show ?thesis
  proof (cases "top_bit n = 52")
    case True
    with ex msig show ?thesis by (intro exI [of _ 1]) (simp add: f64_ratio_def Let_def)
  next
    case False
    with bits(4) have "?e < 1075" "1075 - ?e = 52 - top_bit n" by simp_all
    with ex msig show ?thesis by (intro exI [of _ "2 ^ (52 - top_bit n)"]) (simp add: f64_ratio_def Let_def)
  qed
qed

lemma round_half_even_scale: "0 < k \<Longrightarrow> round_half_even (n * k) (d * k) = round_half_even n d"
proof -
  assume "0 < k"
  then have "d * k < 2 * (n mod d * k) \<longleftrightarrow> d < 2 * (n mod d)" "2 * (n mod d * k) = d * k \<longleftrightarrow> 2 * (n mod d) = d"
    by (simp_all flip: mult.assoc)
  with \<open>0 < k\<close> show ?thesis by (simp add: round_half_even_def Let_def flip: mult_mod_left)
qed

lemma f64_round_scale:
  assumes "0 < k"
  shows "f64_round (n * k) (d * k) = f64_round n d"
proof (cases "n = 0")
  case False
  have "(d * k - 1) div (n * k) = (d - 1) div n"
  proof -
    have "(d * k - 1) div k = d - 1"
      using assms by (cases d; cases k) (simp_all add: div_nat_eqI)
    then show ?thesis by (simp add: mult.commute [of n] div_mult2_eq)
  qed
  with assms have "floor_log2 (n * k) (d * k) = floor_log2 n d" by (simp add: floor_log2_def)
  moreover have "round_half_even (n * k * c) (d * k) = round_half_even (n * c) d"
    "round_half_even (n * k) (d * k * c) = round_half_even n (d * c)" for c
    using round_half_even_scale [OF assms, of "n * c" d] round_half_even_scale [OF assms, of n "d * c"] by (simp_all add: ac_simps)
  moreover have "n * k = 0 \<longleftrightarrow> n = 0" using assms by simp
  ultimately show ?thesis by (simp only: f64_round_def Let_def)
qed (simp add: f64_round_def)

lemma f64_add_of_nat:
  assumes "a < 2 ^ 53" and "b < 2 ^ 53"
  shows "f64_add (f64_of_nat a) (f64_of_nat b) = f64_of_nat (a + b)"
proof -
  obtain j k where jk: "0 < j" "f64_ratio (f64_of_nat a) = (a * j, j)" "0 < k" "f64_ratio (f64_of_nat b) = (b * k, k)"
    using f64_ratio_of_nat assms by meson
  then have "f64_add (f64_of_nat a) (f64_of_nat b) = f64_round ((a + b) * (j * k)) (1 * (j * k))"
    by (simp add: f64_add_def algebra_simps)
  also have "\<dots> = f64_of_nat (a + b)" using jk unfolding f64_of_nat_def by (intro f64_round_scale) simp
  finally show ?thesis .
qed

end
