(* ===== verification/Go_Time.thy ===== *)
theory Go_Time
  imports Go_Float
begin

text \<open>
  \<open>time.Duration\<close> (nanoseconds) and the rendering of durations and times of day by Go's \<open>time\<close> package.
\<close>

section \<open>Durations\<close>

text \<open>\<open>fmtFrac\<close>: a fraction without trailing zeros, and nothing at all for zero.\<close>

definition fmtFrac :: "nat \<Rightarrow> nat \<Rightarrow> string" where
  "fmtFrac prec v =
     (let ds = rev (dropWhile (\<lambda>c. c = CHR ''0'') (rev (pad_zero prec (show_nat v))))
      in if v = 0 then [] else CHR ''.'' # ds)"

text \<open>The micro sign of \<open>\<mu>s\<close> is the two bytes \<open>C2 B5\<close> of UTF-8.\<close>

definition show_abs_duration :: "nat \<Rightarrow> string" where
  "show_abs_duration u =
     (if u = 0 then ''0s''
      else if u < 10 ^ 3 then show_nat u @ ''ns''
      else if u < 10 ^ 6 then show_nat (u div 10 ^ 3) @ fmtFrac 3 (u mod 10 ^ 3) @ [CHR 0xC2, CHR 0xB5, CHR ''s'']
      else if u < 10 ^ 9 then show_nat (u div 10 ^ 6) @ fmtFrac 6 (u mod 10 ^ 6) @ ''ms''
      else (let secs = u div 10 ^ 9; rest = show_nat (secs mod 60) @ fmtFrac 9 (u mod 10 ^ 9) @ ''s'' in
            if secs < 60 then rest
            else if secs < 3600 then show_nat (secs div 60) @ ''m'' @ rest
            else show_nat (secs div 3600) @ ''h'' @ show_nat (secs div 60 mod 60) @ ''m'' @ rest))"

definition Duration_String :: "int \<Rightarrow> string" where
  "Duration_String d = (if d < 0 then CHR ''-'' # show_abs_duration (nat (- d)) else show_abs_duration (nat d))"

text \<open>\<open>Round\<close> to a multiple of \<open>m\<close>, halfway cases away from zero, for values that do not overflow.\<close>

definition Duration_Round :: "int \<Rightarrow> int \<Rightarrow> int" where
  "Duration_Round d m =
     (if m \<le> 0 then d
      else if d < 0 then (let r = (- d) mod m in if r + r < m then d + r else d - m + r)
      else (let r = d mod m in if r + r < m then d - r else d + m - r))"

text \<open>\<open>Seconds()\<close> of a non-negative duration: whole seconds plus the fraction, each as a double.\<close>

definition Duration_Seconds :: "nat \<Rightarrow> float64" where
  "Duration_Seconds d = f64_add (f64_of_nat (d div 10 ^ 9)) (f64_div (f64_of_nat (d mod 10 ^ 9)) (f64_of_nat (10 ^ 9)))"

lemma Duration_examples:
  "Duration_String 0 = ''0s''" "Duration_String 1500000 = ''1.5ms''" "Duration_String 3725000000000 = ''1h2m5s''"
  "Duration_String 20000000000 = ''20s''"
  by (simp_all add: Duration_String_def show_abs_duration_def fmtFrac_def fmt_eval)

section \<open>The time of day\<close>

text \<open>
  \<open>Format("15:04:05.000000000")\<close> of an instant, in a zone \<open>offset\<close> seconds east of Greenwich.
\<close>

definition format_clock :: "int \<Rightarrow> int \<Rightarrow> string" where
  "format_clock offset t =
     (let d = nat ((t + offset * 10 ^ 9) mod (86400 * 10 ^ 9)); secs = d div 10 ^ 9 in
      pad_zero 2 (show_nat (secs div 3600)) @ '':'' @ pad_zero 2 (show_nat (secs div 60 mod 60)) @ '':'' @
      pad_zero 2 (show_nat (secs mod 60)) @ ''.'' @ pad_zero 9 (show_nat (d mod 10 ^ 9)))"

text \<open>Clock times are 18 characters wide, so that the column of the table is aligned.\<close>

lemma length_pad_zero: "n < 10 ^ k \<Longrightarrow> 0 < k \<Longrightarrow> length (pad_zero k (show_nat n)) = k"
  using length_show_nat [of n k] by (simp add: pad_zero_def)

lemma length_format_clock: "length (format_clock offset t) = 18"
proof -
  let ?d = "nat ((t + offset * 10 ^ 9) mod (86400 * 10 ^ 9))"
  have "?d < 86400 * 10 ^ 9" by (simp add: nat_less_iff)
  then have "?d div 10 ^ 9 < 86400" by (simp add: div_less_iff_less_mult)
  then have "?d div 10 ^ 9 div 3600 < 10 ^ 2" by (simp add: div_less_iff_less_mult)
  moreover have "?d div 10 ^ 9 div 60 mod 60 < 10 ^ 2" "?d div 10 ^ 9 mod 60 < 10 ^ 2" "?d mod 10 ^ 9 < 10 ^ 9"
    by (simp_all add: less_trans [OF mod_less_divisor])
  ultimately show ?thesis by (simp add: format_clock_def Let_def length_pad_zero del: power.simps power_numeral)
qed

section \<open>Padding\<close>

text \<open>
  Runes as \<open>utf8.RuneCountInString\<close> counts them: a well-formed sequence is one, and so is every byte
  that begins none.
\<close>

definition cont :: "nat \<Rightarrow> nat \<Rightarrow> nat \<Rightarrow> bool" where
  "cont lo hi b \<longleftrightarrow> lo \<le> b \<and> b \<le> hi"

fun rune_len :: "nat list \<Rightarrow> nat" where
  "rune_len [] = 0"
| "rune_len (a # s) =
     (if cont 0xC2 0xDF a then (case s of b # _ \<Rightarrow> if cont 0x80 0xBF b then 2 else 1 | _ \<Rightarrow> 1)
      else if cont 0xE0 0xEF a then
        (case s of b # c # _ \<Rightarrow>
           if cont (if a = 0xE0 then 0xA0 else 0x80) (if a = 0xED then 0x9F else 0xBF) b \<and> cont 0x80 0xBF c then 3 else 1
         | _ \<Rightarrow> 1)
      else if cont 0xF0 0xF4 a then
        (case s of b # c # d # _ \<Rightarrow>
           if cont (if a = 0xF0 then 0x90 else 0x80) (if a = 0xF4 then 0x8F else 0xBF) b \<and> cont 0x80 0xBF c \<and>
              cont 0x80 0xBF d then 4 else 1
         | _ \<Rightarrow> 1)
      else 1)"

lemma rune_len_pos [simp]: "s \<noteq> [] \<Longrightarrow> 0 < rune_len s"
  by (cases s) (auto split: list.splits)

function rune_count :: "nat list \<Rightarrow> nat" where
  "rune_count s = (if s = [] then 0 else Suc (rune_count (drop (rune_len s) s)))"
  by auto
termination
  by (relation "measure length") auto

declare rune_count.simps [simp del]

definition RuneCountInString :: "string \<Rightarrow> nat" where
  "RuneCountInString s = rune_count (map of_char s)"

text \<open>\<open>%-Ns\<close>: spaces on the right up to a width of \<open>N\<close> runes.\<close>

definition pad_right :: "nat \<Rightarrow> string \<Rightarrow> string" where
  "pad_right n s = s @ replicate (n - RuneCountInString s) CHR '' ''"

text \<open>\<open>%Nd\<close>: on the left.\<close>

definition pad_left :: "nat \<Rightarrow> string \<Rightarrow> string" where
  "pad_left n s = replicate (n - RuneCountInString s) CHR '' '' @ s"

lemma rune_count_ascii: "\<forall>b \<in> set s. b < 0x80 \<Longrightarrow> rune_count s = length s"
proof (induction s)
  case (Cons b s)
  then show ?case by (subst rune_count.simps) (simp add: cont_def)
qed (simp add: rune_count.simps)

end
