(* ===== verification/Load_Test.thy ===== *)
theory Load_Test
  imports Client_Programs Go_Time
begin

text \<open>
  \<open>cmd/rpc-loadtest/main.go\<close>: many client goroutines, each sealing and submitting a number of requests,
  share two atomic counters; when all are done the program prints a summary and sets its exit
  status.
\<close>

section \<open>The client goroutines\<close>


text \<open>
  The goroutine of client \<open>i\<close> is connecting, in its request loop with \<open>j\<close> requests done, or
  finished.  \<open>atomic.Int64\<close> wraps around.  \<open>lt_sent\<close> records what was submitted and what came back.
\<close>

datatype lt_pc = LtConnecting | LtLoop int | LtDone

record lt_world =
  lt_success :: i64
  lt_failed :: i64
  lt_pcs :: "lt_pc list"
  lt_sent :: "(bytes \<times> (string + SubmitAck)) list"


definition lt_payload :: "nat \<Rightarrow> int \<Rightarrow> int \<Rightarrow> string" where
  "lt_payload clientID j now =
     ''loadtest-client-'' @ show_nat clientID @ ''-req-'' @ show_int j @ ''-'' @ show_int now"





section \<open>The summary and the exit\<close>






section \<open>Every request is counted\<close>



text \<open>The submissions the sequencer acknowledged as accepted.\<close>

definition lt_accepted :: "lt_world \<Rightarrow> int" where
  "lt_accepted w = int (length (filter (\<lambda>(ct, reply). reply = Inr \<lparr>Accepted = True\<rparr>) (lt_sent w)))"





lemma lt_accepted_pcs [simp]: "lt_accepted (w\<lparr>lt_pcs := ps\<rparr>) = lt_accepted w" "lt_accepted (w\<lparr>lt_failed := k\<rparr>) = lt_accepted w"
  by (simp_all add: lt_accepted_def)










text \<open>Payloads are distinct: one determines the client, the request and the time.\<close>

lemma digits_then:
  assumes "show_nat i @ CHR ''-'' # s = show_nat j @ CHR ''-'' # t"
  shows "i = j \<and> s = t"
proof -
  have "takeWhile is_digit_char (show_nat k @ CHR ''-'' # u) = show_nat k" for k u
    by (subst takeWhile_append2) (auto dest: show_nat_digits simp: is_digit_char_def)
  with assms have "show_nat i = show_nat j" by metis
  with assms show ?thesis by simp
qed

lemma lt_payload_inject:
  assumes "lt_payload i j t = lt_payload i' j' t'" and "0 \<le> j" and "0 \<le> j'"
  shows "i = i' \<and> j = j' \<and> t = t'"
proof -
  from assms(1) have "show_nat i @ CHR ''-'' # (''req-'' @ show_int j @ ''-'' @ show_int t) =
      show_nat i' @ CHR ''-'' # (''req-'' @ show_int j' @ ''-'' @ show_int t')"
    by (simp add: lt_payload_def)
  from digits_then [OF this] have i: "i = i'" and "show_int j @ ''-'' @ show_int t = show_int j' @ ''-'' @ show_int t'"
    by simp_all
  with assms(2,3) have "show_nat (nat j) @ CHR ''-'' # show_int t = show_nat (nat j') @ CHR ''-'' # show_int t'"
    by (simp add: show_int_def [of j] show_int_def [of j'])
  from digits_then [OF this] i assms(2,3) show ?thesis by auto
qed

end
