(* ===== verification/Local_Queue.thy ===== *)
theory Local_Queue
  imports Tx_Queue_Liveness
begin

text \<open>
  Programs that keep a \<open>TxQueue\<close> for themselves, as \<open>cmd/demo\<close> and \<open>cmd/live-demo\<close> do: they submit with
  \<open>context.Background()\<close>, never close the queue and drain it from one goroutine.  What the queue then
  guarantees is proved once, for every program that drives it this way.
\<close>

section \<open>In-process use of the queue\<close>

text \<open>
  The actions of such a program.  Context 0 is \<open>context.Background()\<close>, which is never done; the
  draining goroutine is consumer 0.
\<close>

fun in_process :: "queue_action \<Rightarrow> bool" where
  "in_process (Submitter (CallSubmit r x ct)) \<longleftrightarrow> x = 0"
| "in_process (Consumer (CallDrainWait c x n)) \<longleftrightarrow> c = 0"
| "in_process (Consumer (CallDrain c n)) \<longleftrightarrow> c = 0"
| "in_process (CtxCancel x e) \<longleftrightarrow> x \<noteq> 0"
| "in_process CallClose \<longleftrightarrow> False"
| "in_process _ \<longleftrightarrow> True"

text \<open>The steps the queue's own goroutine and the calls in progress take by themselves.\<close>

fun queue_internal :: "queue_action \<Rightarrow> bool" where
  "queue_internal (Submitter (CallSubmit r x ct)) \<longleftrightarrow> False"
| "queue_internal (Consumer (CallDrainWait c x n)) \<longleftrightarrow> False"
| "queue_internal (Consumer (CallDrain c n)) \<longleftrightarrow> False"
| "queue_internal (CtxCancel x e) \<longleftrightarrow> False"
| "queue_internal CallClose \<longleftrightarrow> False"
| "queue_internal _ \<longleftrightarrow> True"

fun is_call :: "queue_action \<Rightarrow> bool" where
  "is_call (Submitter (CallSubmit r x ct)) \<longleftrightarrow> True"
| "is_call (Consumer (CallDrainWait c x n)) \<longleftrightarrow> True"
| "is_call (Consumer (CallDrain c n)) \<longleftrightarrow> True"
| "is_call _ \<longleftrightarrow> False"

lemma internal_no_call: "queue_internal a \<Longrightarrow> \<not> is_call a"
  by (cases a rule: queue_internal.cases) auto

lemma internal_in_process: "queue_internal a \<Longrightarrow> in_process a"
  by (cases a rule: queue_internal.cases) auto

definition calm :: "queue_world \<Rightarrow> bool" where
  "calm w \<longleftrightarrow> \<not> done_closed w \<and> ctx_err w 0 = None \<and>
     (\<forall>r q. submits w r = Some (SubSending q) \<or> submits w r = Some (SubWaiting q) \<longrightarrow> req_ctx q = 0) \<and>
     (\<forall>q \<in> set (inflight w). req_ctx q = 0) \<and> (\<forall>r res. resps w r = Some res \<longrightarrow> \<not> isl res) \<and>
     (\<forall>c. drains w c \<noteq> None \<longrightarrow> c = 0)"

fun quiet :: "log_event \<Rightarrow> bool" where
  "quiet (SubmitReturned r res) \<longleftrightarrow> \<not> isl res"
| "quiet (DrainReturned c b e) \<longleftrightarrow> c = 0 \<and> e \<noteq> Some ErrQueueClosed"
| "quiet (Delivered c tx) \<longleftrightarrow> c = 0"
| "quiet _ \<longleftrightarrow> True"

lemma calm_submit:
  "SubmitWithReceipt_step b w = Some (w', es) \<Longrightarrow> in_process (Submitter b) \<Longrightarrow> calm w \<Longrightarrow>
     calm w' \<and> list_all quiet es"
  by (cases b) (auto simp: calm_def step_simps inflight_def split: queue_splits sum.splits)

lemma calm_loop:
  "runAdmissionLoop_step b w = Some (w', es) \<Longrightarrow> shutdown_ok w \<Longrightarrow> calm w \<Longrightarrow> calm w' \<and> list_all quiet es"
  by (cases b) (auto simp: calm_def step_simps inflight_def shutdown_ok_def split: queue_splits)

lemma calm_drain:
  "Drain_step b w = Some (w', es) \<Longrightarrow> in_process (Consumer b) \<Longrightarrow> shutdown_ok w \<Longrightarrow> calm w \<Longrightarrow>
     calm w' \<and> list_all quiet es"
  by (cases b) (auto simp: calm_def step_simps inflight_def shutdown_ok_def split: queue_splits)

lemma calm_step:
  assumes "queue_step a w = Some (w', es)" and "in_process a" and "queue_inv w" and "calm w"
  shows "calm w' \<and> list_all quiet es"
  using assms(1)
proof (cases rule: queue_step_cases)
  case (ctx x e)
  with assms(2,4) show ?thesis by (simp add: calm_def inflight_def)
qed (use assms(2-4) in \<open>auto simp: queue_inv_def dest: calm_submit calm_loop calm_drain\<close>)

text \<open>A submission returns no error and only the one consumer receives anything.\<close>

lemma in_process_run:
  assumes "queue_run as (queue_init cap) = Some (w, evs)" and "list_all in_process as"
  shows "calm w \<and> list_all quiet evs"
proof -
  have "list_all in_process as \<longrightarrow> calm w \<and> list_all quiet evs \<and> queue_inv w"
  proof (rule run_invariant [OF assms(1), where
        P = "\<lambda>as w evs. list_all in_process as \<longrightarrow> calm w \<and> list_all quiet evs \<and> queue_inv w"])
    show "list_all in_process [] \<longrightarrow> calm (queue_init cap) \<and> list_all quiet [] \<and> queue_inv (queue_init cap)"
      by (simp add: queue_inv_init) (simp add: calm_def queue_init_def inflight_def)
  qed (auto dest: calm_step queue_inv_step)
  with assms(2) show ?thesis by blast
qed

lemma quiet_delivered: "list_all quiet es \<Longrightarrow> delivered_to 0 es = delivered es"
  by (induction es rule: delivered.induct) auto

section \<open>Returning calls\<close>

fun is_return :: "log_event \<Rightarrow> bool" where
  "is_return (SubmitReturned r res) \<longleftrightarrow> True"
| "is_return (DrainReturned c b e) \<longleftrightarrow> True"
| "is_return _ \<longleftrightarrow> False"

text \<open>A call that returns does so in a step of its own.\<close>

lemma returns_alone:
  assumes "queue_step a w = Some (w', es)"
  shows "list_all (\<lambda>e. \<not> is_return e) es \<or> (\<exists>r res. es = [SubmitReturned r res]) \<or> (\<exists>c b e. es = [DrainReturned c b e])"
  using assms
proof (cases rule: queue_step_cases)
  case (submit b)
  then show ?thesis by (cases b) (auto simp: step_simps split: queue_splits)
next
  case (loop b)
  then show ?thesis by (cases b) (auto simp: step_simps split: queue_splits)
next
  case (drain b)
  then show ?thesis by (cases b) (auto simp: step_simps split: queue_splits)
qed auto

text \<open>A call of \<open>DrainWait\<close> goes on or returns what it holds, without error only if that is all it wants.\<close>

lemma drain_returns:
  assumes "queue_step a w = Some (w', es)" and "DrainReturned c b e \<in> set es"
  shows "\<exists>d. drains w c = Some d \<and> b = d_batch d \<and> drains w' c = None \<and>
    (e = None \<longrightarrow> d_mode d = NonBlocking \<or> d_size d \<le> int (length b))"
  using assms(1)
proof (cases rule: queue_step_cases)
  case (submit b)
  with assms(2) show ?thesis by (cases b) (auto simp: step_simps split: queue_splits)
next
  case (loop b)
  with assms(2) show ?thesis by (cases b) (auto simp: step_simps split: queue_splits)
next
  case (drain b)
  with assms(2) show ?thesis by (cases b) (auto simp: step_simps split: queue_splits)
qed (use assms(2) in auto)

lemma drain_continues:
  assumes "queue_step a w = Some (w', es)" and "\<not> is_call a" and "\<forall>b e. DrainReturned c b e \<notin> set es"
  shows "map_option (\<lambda>d. (d_size d, d_mode d)) (drains w' c) = map_option (\<lambda>d. (d_size d, d_mode d)) (drains w c)"
  using assms(1)
proof (cases rule: queue_step_cases)
  case (submit b)
  then show ?thesis by (cases b) (auto simp: step_simps split: queue_splits)
next
  case (loop b)
  then show ?thesis by (cases b) (auto simp: step_simps split: queue_splits)
next
  case (drain b)
  with assms(2,3) show ?thesis by (cases b) (auto simp: step_simps split: queue_splits)
qed (simp_all add: queue_Close_def)

lemma no_call_step:
  assumes "queue_step a w = Some (w', es)" and "\<not> is_call a"
  shows "SubmitCalled r ct \<notin> set es"
  using assms(1)
proof (cases rule: queue_step_cases)
  case (submit b)
  with assms(2) show ?thesis by (cases b) (auto simp: step_simps split: queue_splits)
next
  case (loop b)
  then show ?thesis by (cases b) (auto simp: step_simps split: queue_splits)
next
  case (drain b)
  then show ?thesis by (simp add: drain_frame)
qed auto

text \<open>A handler of returning calls is not concerned by other events.\<close>

lemma fold_no_return:
  "(\<And>e w. \<not> is_return e \<Longrightarrow> f e w = w) \<Longrightarrow> list_all (\<lambda>e. \<not> is_return e) es \<Longrightarrow> fold f es w = w"
  by (induction es) simp_all

lemma no_return_batches: "list_all (\<lambda>e. \<not> is_return e) es \<Longrightarrow> batches c es = [] \<and> DrainReturned c b e \<notin> set es"
  by (induction es rule: batches.induct) auto

text \<open>A submission returns once.\<close>

lemma submit_returns:
  assumes "queue_step a w = Some (w', es)"
  shows "SubmitReturned r res \<in> set es \<Longrightarrow> submits w r \<noteq> Some SubReturned \<and> submits w' r = Some SubReturned"
    and "submits w r = Some SubReturned \<Longrightarrow> submits w' r = Some SubReturned"
proof -
  have "(SubmitReturned r res \<in> set es \<longrightarrow> submits w r \<noteq> Some SubReturned \<and> submits w' r = Some SubReturned) \<and>
      (submits w r = Some SubReturned \<longrightarrow> submits w' r = Some SubReturned)"
    using assms
  proof (cases rule: queue_step_cases)
    case (submit b)
    then show ?thesis by (cases b) (auto simp: step_simps split: queue_splits)
  next
    case (loop b)
    then show ?thesis by (cases b) (auto simp: step_simps split: queue_splits)
  next
    case (drain b)
    from drain_frame [OF drain(2)] show ?thesis by simp
  qed (simp_all add: queue_Close_def)
  then show "SubmitReturned r res \<in> set es \<Longrightarrow> submits w r \<noteq> Some SubReturned \<and> submits w' r = Some SubReturned"
    and "submits w r = Some SubReturned \<Longrightarrow> submits w' r = Some SubReturned" by auto
qed

lemma returned_run:
  assumes "queue_run as (queue_init cap) = Some (w, evs)" and "SubmitReturned r res \<in> set evs"
  shows "submits w r = Some SubReturned"
proof -
  have "\<forall>r res. SubmitReturned r res \<in> set evs \<longrightarrow> submits w r = Some SubReturned"
    by (rule run_invariant [OF assms(1), where P = "\<lambda>_ w evs. \<forall>r res. SubmitReturned r res \<in> set evs \<longrightarrow> submits w r = Some SubReturned"])
      (auto dest: submit_returns)
  with assms(2) show ?thesis by blast
qed

section \<open>Programs\<close>

text \<open>Every step of the program is at most one in-process step of its queue.\<close>

locale in_process_program =
  fixes init :: "'s"
    and step :: "'a \<Rightarrow> 's \<Rightarrow> ('s \<times> log_event list) option"
    and queue :: "'s \<Rightarrow> queue_world"
    and cap :: nat
  assumes queue_start: "queue init = queue_init cap"
    and queue_move: "step a s = Some (s', es) \<Longrightarrow>
      queue s' = queue s \<and> es = [] \<or> (\<exists>b. in_process b \<and> queue_step b (queue s) = Some (queue s', es))"
begin

lemma embeds:
  assumes "run step as init = Some (s, evs)"
  obtains bs where "queue_run bs (queue_init cap) = Some (queue s, evs)" "list_all in_process bs" "length bs \<le> length as"
proof -
  have "\<exists>bs. queue_run bs (queue_init cap) = Some (queue s, evs) \<and> list_all in_process bs \<and> length bs \<le> length as"
  proof (rule run_invariant [OF assms, where P = "\<lambda>as s evs. \<exists>bs. queue_run bs (queue_init cap) = Some (queue s, evs) \<and>
      list_all in_process bs \<and> length bs \<le> length as"])
    show "\<exists>bs. queue_run bs (queue_init cap) = Some (queue init, []) \<and> list_all in_process bs \<and> length bs \<le> length []"
      by (simp add: queue_start)
    fix as :: "'a list" and s evs a s' es
    assume "\<exists>bs. queue_run bs (queue_init cap) = Some (queue s, evs) \<and> list_all in_process bs \<and> length bs \<le> length as"
      and st: "step a s = Some (s', es)"
    then obtain bs where bs: "queue_run bs (queue_init cap) = Some (queue s, evs)" "list_all in_process bs" "length bs \<le> length as"
      by blast
    from queue_move [OF st] show "\<exists>bs. queue_run bs (queue_init cap) = Some (queue s', evs @ es) \<and>
        list_all in_process bs \<and> length bs \<le> length (as @ [a])"
    proof
      assume "queue s' = queue s \<and> es = []"
      with bs show ?thesis by (intro exI [of _ bs]) simp
    next
      assume "\<exists>b. in_process b \<and> queue_step b (queue s) = Some (queue s', es)"
      then obtain b where "in_process b" "queue_step b (queue s) = Some (queue s', es)" by blast
      with bs show ?thesis by (intro exI [of _ "bs @ [b]"]) (simp add: run_append)
    qed
  qed
  with that show ?thesis by blast
qed

text \<open>The invariant rule, with the run so far at hand.\<close>

lemma program_induct:
  assumes "run step as init = Some (s, evs)" and "P init []"
    and "\<And>bs s evs a s' es. run step bs init = Some (s, evs) \<Longrightarrow> run step (bs @ [a]) init = Some (s', evs @ es) \<Longrightarrow>
      P s evs \<Longrightarrow> step a s = Some (s', es) \<Longrightarrow> P s' (evs @ es)"
  shows "P s evs"
proof -
  have "run step as init = Some (s, evs) \<and> P s evs"
    by (rule run_invariant [OF assms(1), where P = "\<lambda>as s evs. run step as init = Some (s, evs) \<and> P s evs"])
      (use assms(2,3) in \<open>auto simp: run_append\<close>)
  then show ?thesis ..
qed

lemma program_history:
  assumes "run step as init = Some (s, evs)"
  shows "history_ok (queue s) evs" and "calm (queue s)" and "list_all quiet evs"
  using history_ok_run in_process_run embeds [OF assms] by metis+

text \<open>What the draining goroutine has, and what still waits for it, is what was committed.\<close>

lemma program_fifo:
  assumes "run step as init = Some (s, evs)"
  shows "batches 0 evs @ in_hand (queue s) 0 @ ch (queue s) = committed evs"
proof -
  obtain bs where bs: "queue_run bs (queue_init cap) = Some (queue s, evs)" using embeds [OF assms] by blast
  have "delivered_to 0 evs = delivered evs" by (rule quiet_delivered [OF program_history(3) [OF assms]])
  with queue_batches.batches_run [OF bs, of 0] queue_log.fifo_run [OF bs] show ?thesis by simp
qed

lemma program_ids:
  assumes "run step as init = Some (s, evs)" and "length as < 2 ^ 64"
  shows "sorted_wrt (<) (map tx_id (committed evs))"
proof -
  obtain bs where bs: "queue_run bs (queue_init cap) = Some (queue s, evs)" "length bs \<le> length as"
    using embeds [OF assms(1)] by blast
  with assms(2) have "length bs < 2 ^ 64" by simp
  then show ?thesis using queue_log.ids_run [OF bs(1)] queue_init_avoids [OF bs(1)] by blast
qed

text \<open>Commits belong to calls, one each; a submission that returns is committed.\<close>

lemma program_commits:
  assumes "run step as init = Some (s, evs)"
  shows "distinct (committers evs)"
    and "Committed r tx \<in> set evs \<Longrightarrow> SubmitCalled r (Ciphertext tx) \<in> set evs"
    and "SubmitReturned r res \<in> set evs \<Longrightarrow> \<exists>tx. res = Inr tx \<and> Committed r tx \<in> set evs"
proof -
  note h = program_history [OF assms]
  from h(1) show "distinct (committers evs)" by (simp add: history_ok_def once_ok_def)
  from h(1) show "Committed r tx \<in> set evs \<Longrightarrow> SubmitCalled r (Ciphertext tx) \<in> set evs"
    by (simp add: history_ok_def receipts_ok_def)
  assume "SubmitReturned r res \<in> set evs"
  moreover from this h(3) obtain tx where "res = Inr tx" by (cases res) (auto simp: list_all_iff)
  ultimately show "\<exists>tx. res = Inr tx \<and> Committed r tx \<in> set evs" using h(1)
    by (auto simp: history_ok_def receipts_ok_def)
qed

lemma program_returns_once:
  assumes "run step as init = Some (s, evs)" and "step a s = Some (s', es)" and "SubmitReturned r res \<in> set es"
  shows "SubmitReturned r res' \<notin> set evs"
proof
  assume old: "SubmitReturned r res' \<in> set evs"
  obtain bs where bs: "queue_run bs (queue_init cap) = Some (queue s, evs)" using embeds [OF assms(1)] by blast
  from queue_move [OF assms(2)] assms(3) obtain b where "queue_step b (queue s) = Some (queue s', es)" by auto
  from submit_returns(1) [OF this assms(3)] returned_run [OF bs old] show False by simp
qed

end

end
