(* ===== verification/Demo.thy ===== *)
theory Demo
  imports Local_Queue Go_Time Go_Bytes Privacy_Layer
begin

text \<open>
  \<open>cmd/demo/main.go\<close>: ten client goroutines seal and submit one trade each to a local queue; when all are
  done, \<open>main\<close> drains the queue, reveals what it drained in a table and checks the order.
\<close>

section \<open>Payloads and rows\<close>

abbreviation "numClients \<equiv> 10 :: nat"
abbreviation "demo_batchSize \<equiv> numClients"
abbreviation "queueCap \<equiv> 64 :: nat"

text \<open>The Unix time is an \<open>int64\<close>.\<close>

definition demo_payload :: "nat \<Rightarrow> 64 word \<Rightarrow> string" where
  "demo_payload clientID now =
     ''TRADE|'' @ pad_zero 2 (show_nat clientID) @ ''|BUY|ETH/USDC|'' @ format_f 6 (f64_of_nat clientID) @ ''|'' @
     format_f 6 (f64_add (f64_of_nat 3000) (f64_of_nat clientID)) @ ''|'' @ show_int (sint now)"

definition demo_plaintext :: "sodium \<Rightarrow> bytes \<Rightarrow> bytes \<Rightarrow> EncryptedTransaction \<Rightarrow> bytes" where
  "demo_plaintext lib pubKey secKey tx =
     (case DecryptSingle lib (Ciphertext tx) pubKey secKey of
        Inl _ \<Rightarrow> bytes_of_string ''<decrypt-error>''
      | Inr pt \<Rightarrow> pt)"

definition demo_prefix :: "EncryptedTransaction \<Rightarrow> bytes" where
  "demo_prefix tx = (if length (Ciphertext tx) > 24 then take 24 (Ciphertext tx) else Ciphertext tx)"

text \<open>A row of the table, in a time zone \<open>zone\<close> seconds east of Greenwich.\<close>

definition demo_row :: "sodium \<Rightarrow> bytes \<Rightarrow> bytes \<Rightarrow> int \<Rightarrow> EncryptedTransaction \<Rightarrow> string" where
  "demo_row lib pubKey secKey zone tx =
     pad_right 6 (show_nat (tx_id tx)) @ ''  '' @ pad_right 48 (hex_EncodeToString (demo_prefix tx)) @ ''  '' @
     pad_right 30 (string_of_bytes (demo_plaintext lib pubKey secKey tx)) @ ''  '' @ format_clock zone (ArrivedAt tx)"

definition demo_header :: "string list" where
  "demo_header =
     [pad_right 6 ''SeqID'' @ ''  '' @ pad_right 48 ''Ciphertext(prefix)'' @ ''  '' @ pad_right 30 ''Plaintext'' @ ''  ArrivedAt'',
      replicate 6 CHR ''-'' @ ''  '' @ replicate 48 CHR ''-'' @ ''  '' @ replicate 30 CHR ''-'' @ ''  '' @ replicate 24 CHR ''-'']"

text \<open>The check of the order: the loop compares neighbours and stops at the first violation.\<close>

function demo_fifo_loop :: "EncryptedTransaction list \<Rightarrow> nat \<Rightarrow> bool" where
  "demo_fifo_loop batch i =
     (if i < length batch then
        (if ID (batch ! i) \<le> ID (batch ! (i - 1)) then False else demo_fifo_loop batch (i + 1))
      else True)"
  by auto
termination
  by (relation "measure (\<lambda>(batch, i). length batch - i)") auto

declare demo_fifo_loop.simps [simp del]

definition demo_fifo :: "EncryptedTransaction list \<Rightarrow> bool" where
  "demo_fifo batch = demo_fifo_loop batch 1"

text \<open>The verbs at work.\<close>

lemma demo_payload_example: "demo_payload 3 17 = ''TRADE|03|BUY|ETH/USDC|3.000000|3003.000000|17''"
proof -
  have "f64_of_nat 3 = 0x4008000000000000" "f64_of_nat 3003 = 0x40A7760000000000"
    by (simp_all add: f64_of_nat_bits(1) top_bit.simps)
  moreover have "demo_payload 3 17 = ''TRADE|'' @ pad_zero 2 (show_nat 3) @ ''|BUY|ETH/USDC|'' @ format_f 6 (f64_of_nat 3) @ ''|'' @
      format_f 6 (f64_of_nat 3003) @ ''|'' @ show_int 17"
    by (simp add: demo_payload_def f64_add_of_nat)
  moreover have "replicate 5 CHR ''0'' = ''00000''" by (simp add: numeral_eq_Suc)
  ultimately show ?thesis by (simp add: fmt_eval)
qed

text \<open>No payload is near the two gigabytes at which \<open>DecryptSingle\<close> panics.\<close>

lemma demo_payload_short:
  assumes "i < 100"
  shows "length (demo_payload i now) < 2 ^ 31"
proof -
  have "length (show_nat i) \<le> 2" using assms by (intro length_show_nat) simp_all
  then have "length (pad_zero 2 (show_nat i)) = 2" by (simp add: pad_zero_def)
  moreover have "length (format_f 6 w) \<le> 318" for w using length_format_f [of 6 w] by simp
  note this [of "f64_of_nat i"] this [of "f64_add (f64_of_nat 3000) (f64_of_nat i)"]
  ultimately show ?thesis using length_show_int64 [of now] by (simp add: demo_payload_def)
qed

section \<open>The program\<close>

text \<open>What is printed; error lines carry the error rather than its text.\<close>

datatype demo_line =
    DemoInitFailed privacy_error | DemoKeygenFailed privacy_error
  | DemoSealError nat privacy_error | DemoSubmitError nat log_error | DemoDrainError log_error
  | DemoQueueLength nat | DemoText string | DemoFifo bool

datatype client_pc = ClientStart | ClientSubmitting | ClientDone

datatype demo_pc = DemoWaiting | DemoDraining | DemoEnded

text \<open>The queue, the client goroutines with their variable \<open>payload\<close>, \<open>main\<close> and the output.\<close>

record demo_world =
  demo_q :: queue_world
  demo_clients :: "nat \<Rightarrow> client_pc"
  demo_payloads :: "nat \<Rightarrow> string"
  demo_at :: demo_pc
  demo_out :: "demo_line list"

definition demo_init :: demo_world where
  "demo_init = \<lparr>demo_q = queue_init queueCap, demo_clients = (\<lambda>_. ClientStart), demo_payloads = (\<lambda>_. []),
     demo_at = DemoWaiting, demo_out = []\<rparr>"

text \<open>Client \<open>i\<close> up to its call of \<open>Submit\<close>, at Unix time \<open>now\<close> with randomness \<open>rnd\<close>.\<close>

definition demo_client ::
  "sodium \<Rightarrow> bytes \<Rightarrow> nat \<Rightarrow> 64 word \<Rightarrow> nat \<Rightarrow> demo_world \<Rightarrow> (demo_world \<times> log_event list) option" where
  "demo_client lib pubKey i now rnd w =
     (let payload = demo_payload i now; w1 = w\<lparr>demo_payloads := (demo_payloads w)(i := payload)\<rparr> in
      case SealTransaction lib rnd (bytes_of_string payload) pubKey of
        Inl sealErr \<Rightarrow>
          Some (w1\<lparr>demo_clients := (demo_clients w)(i := ClientDone), demo_out := demo_out w @ [DemoSealError i sealErr]\<rparr>, [])
      | Inr ciphertext \<Rightarrow>
          map_option (\<lambda>(q, es). (w1\<lparr>demo_q := q, demo_clients := (demo_clients w)(i := ClientSubmitting)\<rparr>, es))
            (queue_step (Submitter (CallSubmit i 0 ciphertext)) (demo_q w)))"

text \<open>After \<open>wg.Wait()\<close>: the length of the queue, and the call of \<open>DrainWait\<close> with the 2-second context 1.\<close>

definition demo_drain :: "demo_world \<Rightarrow> (demo_world \<times> log_event list) option" where
  "demo_drain w =
     map_option (\<lambda>(q, es). (w\<lparr>demo_q := q, demo_at := DemoDraining,
                            demo_out := demo_out w @ [DemoQueueLength (queue_Len (demo_q w))]\<rparr>, es))
       (queue_step (Consumer (CallDrainWait 0 1 (int demo_batchSize))) (demo_q w))"

text \<open>From the return of \<open>DrainWait\<close> to the end of \<open>main\<close>.\<close>

definition demo_results ::
  "sodium \<Rightarrow> bytes \<Rightarrow> bytes \<Rightarrow> int \<Rightarrow> EncryptedTransaction list \<Rightarrow> log_error option \<Rightarrow> demo_line list" where
  "demo_results lib pubKey secKey zone batch err =
     (case err of Some e \<Rightarrow> [DemoDrainError e] | None \<Rightarrow> []) @ map DemoText demo_header @
     map (DemoText \<circ> demo_row lib pubKey secKey zone) batch @ [DemoFifo (demo_fifo batch)]"

text \<open>A call of the queue that returns moves the goroutine that made it.\<close>

fun demo_event :: "sodium \<Rightarrow> bytes \<Rightarrow> bytes \<Rightarrow> int \<Rightarrow> log_event \<Rightarrow> demo_world \<Rightarrow> demo_world" where
  "demo_event lib pubKey secKey zone (SubmitReturned i res) w =
     w\<lparr>demo_clients := (demo_clients w)(i := ClientDone),
       demo_out := demo_out w @ (case res of Inl err \<Rightarrow> [DemoSubmitError i err] | Inr _ \<Rightarrow> [])\<rparr>"
| "demo_event lib pubKey secKey zone (DrainReturned c batch err) w =
     w\<lparr>demo_at := DemoEnded, demo_out := demo_out w @ demo_results lib pubKey secKey zone batch err\<rparr>"
| "demo_event lib pubKey secKey zone _ w = w"

datatype demo_action = DemoClient nat "64 word" nat | DemoDrain | DemoTimeout | DemoQueue queue_action

definition demo_move ::
  "sodium \<Rightarrow> bytes \<Rightarrow> bytes \<Rightarrow> int \<Rightarrow> queue_action \<Rightarrow> demo_world \<Rightarrow> (demo_world \<times> log_event list) option" where
  "demo_move lib pubKey secKey zone a w =
     map_option (\<lambda>(q, es). (fold (demo_event lib pubKey secKey zone) es (w\<lparr>demo_q := q\<rparr>), es)) (queue_step a (demo_q w))"

text \<open>Nothing happens after \<open>main\<close> has returned.\<close>

fun demo_step ::
  "sodium \<Rightarrow> bytes \<Rightarrow> bytes \<Rightarrow> int \<Rightarrow> demo_action \<Rightarrow> demo_world \<Rightarrow> (demo_world \<times> log_event list) option" where
  "demo_step lib pubKey secKey zone (DemoClient i now rnd) w =
     (if demo_at w \<noteq> DemoEnded \<and> 1 \<le> i \<and> i \<le> numClients \<and> demo_clients w i = ClientStart
      then demo_client lib pubKey i now rnd w else None)"
| "demo_step lib pubKey secKey zone DemoDrain w =
     (if demo_at w = DemoWaiting \<and> list_all (\<lambda>i. demo_clients w i = ClientDone) [1..<numClients + 1]
      then demo_drain w else None)"
| "demo_step lib pubKey secKey zone DemoTimeout w =
     (if demo_at w = DemoDraining then demo_move lib pubKey secKey zone (CtxCancel 1 DeadlineExceeded) w else None)"
| "demo_step lib pubKey secKey zone (DemoQueue a) w =
     (if demo_at w \<noteq> DemoEnded \<and> queue_internal a then demo_move lib pubKey secKey zone a w else None)"

text \<open>
  \<open>main\<close>, given the steps of its goroutines: the lines printed, and \<open>None\<close> while it has not ended or for
  steps that are not possible.
\<close>

definition demo_main :: "sodium \<Rightarrow> int \<Rightarrow> demo_action list \<Rightarrow> demo_line list option" where
  "demo_main lib zone as =
     (case privacy_Init lib of
        Some err \<Rightarrow> Some [DemoInitFailed err]
      | None \<Rightarrow>
     (case GenerateSequencerKeys lib of
        Inl err \<Rightarrow> Some [DemoKeygenFailed err]
      | Inr (pubKey, secKey) \<Rightarrow>
     (case run (demo_step lib pubKey secKey zone) as demo_init of
        Some (w, _) \<Rightarrow> if demo_at w = DemoEnded then Some (demo_out w) else None
      | None \<Rightarrow> None)))"

section \<open>The check of the order\<close>

lemma demo_fifo_loop_iff:
  "demo_fifo_loop batch i \<longleftrightarrow> (\<forall>k. i \<le> k \<and> k < length batch \<longrightarrow> ID (batch ! (k - 1)) < ID (batch ! k))"
proof (induction batch i rule: demo_fifo_loop.induct)
  case (1 batch i)
  show ?case
  proof (cases "i < length batch")
    case True
    have "(\<forall>k. i \<le> k \<and> k < length batch \<longrightarrow> ID (batch ! (k - 1)) < ID (batch ! k)) \<longleftrightarrow>
        ID (batch ! (i - 1)) < ID (batch ! i) \<and>
        (\<forall>k. i + 1 \<le> k \<and> k < length batch \<longrightarrow> ID (batch ! (k - 1)) < ID (batch ! k))"
      using True by (metis Suc_eq_plus1 Suc_leD Suc_leI le_neq_implies_less order_refl)
    with True 1 show ?thesis by (subst demo_fifo_loop.simps) (auto simp: not_le)
  next
    case False
    then have "demo_fifo_loop batch i" by (simp add: demo_fifo_loop.simps)
    with False show ?thesis by (meson le_less_trans)
  qed
qed

lemma demo_fifo_sorted: "sorted_wrt (<) (map tx_id batch) \<Longrightarrow> demo_fifo batch"
  by (auto simp: demo_fifo_def demo_fifo_loop_iff sorted_wrt_iff_nth_less word_less_nat_alt)

section \<open>The demo is an in-process program\<close>

lemma demo_q_event [simp]: "demo_q (fold (demo_event lib pubKey secKey zone) es w) = demo_q w"
proof (induction es arbitrary: w)
  case (Cons e es)
  moreover have "demo_q (demo_event lib pubKey secKey zone e w) = demo_q w" by (cases e) simp_all
  ultimately show ?case by simp
qed simp

interpretation demo: in_process_program demo_init "demo_step lib pubKey secKey zone" demo_q queueCap
  for lib pubKey secKey zone
proof unfold_locales
  show "demo_q demo_init = queue_init queueCap" by (simp add: demo_init_def)
next
  fix a w w' es
  assume st: "demo_step lib pubKey secKey zone a w = Some (w', es)"
  show "demo_q w' = demo_q w \<and> es = [] \<or> (\<exists>b. in_process b \<and> queue_step b (demo_q w) = Some (demo_q w', es))"
  proof (cases a)
    case (DemoClient i now rnd)
    with st show ?thesis
      by (auto simp: demo_client_def Let_def split: if_splits sum.splits option.splits
          intro!: exI [of _ "Submitter (CallSubmit i 0 _)"])
  next
    case DemoDrain
    with st show ?thesis
      by (auto simp: demo_drain_def split: if_splits intro!: exI [of _ "Consumer (CallDrainWait 0 1 (int demo_batchSize))"])
  next
    case DemoTimeout
    with st show ?thesis
      by (auto simp: demo_move_def split: if_splits intro!: exI [of _ "CtxCancel 1 DeadlineExceeded"])
  next
    case (DemoQueue b)
    with st show ?thesis by (auto simp: demo_move_def internal_in_process split: if_splits)
  qed
qed

lemma demo_event_other: "\<not> is_return e \<Longrightarrow> demo_event lib pubKey secKey zone e w = w"
  by (cases e) simp_all

lemma demo_move_cases [consumes 2, case_names other submit drain]:
  assumes "demo_move lib pubKey secKey zone a w = Some (w', es)" and "\<not> is_call a"
  obtains q where "queue_step a (demo_q w) = Some (q, es)" "list_all (\<lambda>e. \<not> is_return e) es" "w' = w\<lparr>demo_q := q\<rparr>"
  | q i res where "queue_step a (demo_q w) = Some (q, es)" "es = [SubmitReturned i res]"
      "w' = w\<lparr>demo_q := q, demo_clients := (demo_clients w)(i := ClientDone),
        demo_out := demo_out w @ (case res of Inl err \<Rightarrow> [DemoSubmitError i err] | Inr _ \<Rightarrow> [])\<rparr>"
  | q c b err where "queue_step a (demo_q w) = Some (q, es)" "es = [DrainReturned c b err]"
      "w' = w\<lparr>demo_q := q, demo_at := DemoEnded, demo_out := demo_out w @ demo_results lib pubKey secKey zone b err\<rparr>"
proof -
  from assms(1) obtain q where q: "queue_step a (demo_q w) = Some (q, es)"
    "w' = fold (demo_event lib pubKey secKey zone) es (w\<lparr>demo_q := q\<rparr>)" by (auto simp: demo_move_def)
  from returns_alone [OF q(1)] show thesis
    by (elim disjE exE) (use q that in \<open>auto simp: fold_no_return [OF demo_event_other]\<close>)
qed

section \<open>The clients\<close>

text \<open>
  What was submitted is the sealed payload of a client that has started, and a client that is done
  has failed to seal or had its submission return.
\<close>

definition demo_clients_ok :: "sodium \<Rightarrow> bytes \<Rightarrow> demo_world \<Rightarrow> log_event list \<Rightarrow> bool" where
  "demo_clients_ok lib pubKey w evs \<longleftrightarrow>
     (\<forall>i ct. SubmitCalled i ct \<in> set evs \<longrightarrow> 1 \<le> i \<and> i \<le> numClients \<and> demo_clients w i \<noteq> ClientStart \<and>
        (\<exists>rnd. SealTransaction lib rnd (bytes_of_string (demo_payloads w i)) pubKey = Inr ct)) \<and>
     (\<forall>i. demo_clients w i \<noteq> ClientStart \<longrightarrow> (\<exists>now. demo_payloads w i = demo_payload i now)) \<and>
     (\<forall>i. demo_clients w i = ClientDone \<longrightarrow>
        (\<exists>e. DemoSealError i e \<in> set (demo_out w)) \<or> (\<exists>res. SubmitReturned i res \<in> set evs))"

lemma demo_clients_ok_client:
  assumes "demo_clients_ok lib pubKey w evs" and "demo_client lib pubKey i now rnd w = Some (w', es)"
    and "1 \<le> i" "i \<le> numClients" "demo_clients w i = ClientStart"
  shows "demo_clients_ok lib pubKey w' (evs @ es)"
proof (cases "SealTransaction lib rnd (bytes_of_string (demo_payload i now)) pubKey")
  case (Inl e)
  with assms(2) have "es = []" "demo_clients w' = (demo_clients w)(i := ClientDone)"
    "demo_payloads w' = (demo_payloads w)(i := demo_payload i now)" "demo_out w' = demo_out w @ [DemoSealError i e]"
    by (auto simp: demo_client_def Let_def)
  with assms(1,5) show ?thesis by (auto simp: demo_clients_ok_def)
next
  case (Inr ct)
  with assms(2) have "es = [SubmitCalled i ct]" by (auto simp: demo_client_def Let_def split: option.splits)
  moreover from Inr assms(2) have "demo_clients w' = (demo_clients w)(i := ClientSubmitting)"
    "demo_payloads w' = (demo_payloads w)(i := demo_payload i now)" "demo_out w' = demo_out w"
    by (auto simp: demo_client_def Let_def)
  ultimately show ?thesis using assms(1,3-5) Inr by (auto simp: demo_clients_ok_def)
qed

lemma demo_clients_ok_move:
  assumes "demo_clients_ok lib pubKey w evs" and "demo_move lib pubKey secKey zone a w = Some (w', es)" and "\<not> is_call a"
    and returned: "\<And>i res. es = [SubmitReturned i res] \<Longrightarrow> \<exists>ct. SubmitCalled i ct \<in> set evs"
  shows "demo_clients_ok lib pubKey w' (evs @ es)"
  using assms(2,3)
proof (cases rule: demo_move_cases)
  case (other q)
  with assms(1) no_call_step [OF other(1) assms(3)] show ?thesis by (auto simp: demo_clients_ok_def)
next
  case (submit q i res)
  with returned obtain ct where "SubmitCalled i ct \<in> set evs" by blast
  with assms(1) have "demo_clients w i \<noteq> ClientStart" by (auto simp: demo_clients_ok_def)
  with submit assms(1) show ?thesis by (auto simp: demo_clients_ok_def)
next
  case (drain q c b err)
  with assms(1) show ?thesis by (auto simp: demo_clients_ok_def)
qed

lemma demo_clients_ok_run:
  assumes "run (demo_step lib pubKey secKey zone) as demo_init = Some (w, evs)"
  shows "demo_clients_ok lib pubKey w evs"
  using assms
proof (rule demo.program_induct)
  show "demo_clients_ok lib pubKey demo_init []" by (simp add: demo_clients_ok_def demo_init_def)
next
  fix bs w evs a w' es
  assume run': "run (demo_step lib pubKey secKey zone) (bs @ [a]) demo_init = Some (w', evs @ es)"
    and ok: "demo_clients_ok lib pubKey w evs" and st: "demo_step lib pubKey secKey zone a w = Some (w', es)"
  have returned: "\<exists>ct. SubmitCalled i ct \<in> set evs" if "es = [SubmitReturned i res]" for i res
    using demo.program_commits(2,3) [OF run', of i] that by fastforce
  show "demo_clients_ok lib pubKey w' (evs @ es)"
  proof (cases a)
    case (DemoClient i now rnd)
    with st ok show ?thesis by (auto intro: demo_clients_ok_client split: if_splits)
  next
    case DemoDrain
    with st have "es = []" "demo_clients w' = demo_clients w" "demo_payloads w' = demo_payloads w"
      "set (demo_out w) \<subseteq> set (demo_out w')"
      by (auto simp: demo_drain_def step_simps split: if_splits option.splits)
    with ok show ?thesis by (fastforce simp: demo_clients_ok_def)
  next
    case DemoTimeout
    with st ok returned show ?thesis by (auto intro!: demo_clients_ok_move split: if_splits)
  next
    case (DemoQueue b)
    with st ok returned show ?thesis by (auto intro!: demo_clients_ok_move dest: internal_no_call split: if_splits)
  qed
qed

text \<open>When all clients are done and none failed to seal, there is one transaction of each.\<close>

lemma demo_committers:
  assumes "run (demo_step lib pubKey secKey zone) as demo_init = Some (w, evs)"
  shows "set (committers evs) \<subseteq> set [1..<numClients + 1]"
    and "length (committed evs) \<le> numClients"
    and "list_all (\<lambda>i. demo_clients w i = ClientDone) [1..<numClients + 1] \<Longrightarrow> \<forall>i e. DemoSealError i e \<notin> set (demo_out w) \<Longrightarrow>
      length (committed evs) = numClients"
    and "length (committed evs) = numClients \<Longrightarrow> mset (committers evs) = mset [1..<numClients + 1]"
proof -
  note ok = demo_clients_ok_run [OF assms] and commits = demo.program_commits [OF assms]
  have len: "length (committed evs) = length (committers evs)"
    by (simp flip: commits_committed(1) commits_committers)
  show sub: "set (committers evs) \<subseteq> set [1..<numClients + 1]"
    using commits(2) ok by (fastforce simp: committers_iff demo_clients_ok_def)
  have card: "card (set (committers evs)) = length (committers evs)" using commits(1) by (rule distinct_card)
  have ten: "card (set [1..<numClients + 1]) = numClients" by simp
  from card_mono [OF _ sub] card ten len show "length (committed evs) \<le> numClients" by simp
  {
    assume "list_all (\<lambda>i. demo_clients w i = ClientDone) [1..<numClients + 1]" "\<forall>i e. DemoSealError i e \<notin> set (demo_out w)"
    then have "\<exists>res. SubmitReturned i res \<in> set evs" if "i \<in> set [1..<numClients + 1]" for i
      using ok that unfolding demo_clients_ok_def list_all_iff by blast
    with commits(3) have "set [1..<numClients + 1] \<subseteq> set (committers evs)" by (meson committers_iff subsetI)
    with sub have "set (committers evs) = set [1..<numClients + 1]" by (rule subset_antisym)
    with card ten len show "length (committed evs) = numClients" by metis
  }
  assume "length (committed evs) = numClients"
  with card ten len have "card (set (committers evs)) = card (set [1..<numClients + 1])" by simp
  with sub have "set (committers evs) = set [1..<numClients + 1]" by (intro card_subset_eq) simp_all
  with commits(1) show "mset (committers evs) = mset [1..<numClients + 1]" by (intro set_eq_iff_mset_eq_distinct [THEN iffD1]) simp_all
qed

section \<open>The main goroutine\<close>

fun is_seal_error :: "demo_line \<Rightarrow> bool" where
  "is_seal_error (DemoSealError i e) \<longleftrightarrow> True"
| "is_seal_error _ \<longleftrightarrow> False"

definition waits_for_batch :: "queue_world \<Rightarrow> bool" where
  "waits_for_batch q \<longleftrightarrow> map_option (\<lambda>d. (d_size d, d_mode d)) (drains q 0) = Some (int demo_batchSize, Blocking 1)"

text \<open>What has been printed, and what is known of the drained transactions, in each phase.\<close>

definition demo_phase :: "sodium \<Rightarrow> bytes \<Rightarrow> bytes \<Rightarrow> int \<Rightarrow> demo_world \<Rightarrow> log_event list \<Rightarrow> bool" where
  "demo_phase lib pubKey secKey zone w evs \<longleftrightarrow>
     (\<exists>errs n. list_all is_seal_error errs \<and> (errs = [] \<and> demo_at w \<noteq> DemoWaiting \<longrightarrow> n = numClients) \<and>
       (case demo_at w of
          DemoWaiting \<Rightarrow> demo_out w = errs \<and> batches 0 evs = [] \<and> drains (demo_q w) 0 = None
        | DemoDraining \<Rightarrow> demo_out w = errs @ [DemoQueueLength n] \<and> batches 0 evs = [] \<and> waits_for_batch (demo_q w) \<and>
            list_all (\<lambda>i. demo_clients w i = ClientDone) [1..<numClients + 1]
        | DemoEnded \<Rightarrow> (\<exists>err. demo_out w = errs @ DemoQueueLength n # demo_results lib pubKey secKey zone (batches 0 evs) err \<and>
            (err = None \<longrightarrow> numClients \<le> length (batches 0 evs)))))"

lemma demo_phase_keep:
  assumes "demo_phase lib pubKey secKey zone w evs" and "demo_at w \<noteq> DemoEnded" and "demo_at w' = demo_at w" and "demo_out w' = demo_out w"
    and "batches 0 es = []" and "\<forall>i. demo_clients w i = ClientDone \<longrightarrow> demo_clients w' i = ClientDone"
    and "map_option (\<lambda>d. (d_size d, d_mode d)) (drains (demo_q w') 0) = map_option (\<lambda>d. (d_size d, d_mode d)) (drains (demo_q w) 0)"
  shows "demo_phase lib pubKey secKey zone w' (evs @ es)"
proof -
  have "drains (demo_q w) 0 = None \<Longrightarrow> drains (demo_q w') 0 = None" "waits_for_batch (demo_q w) \<Longrightarrow> waits_for_batch (demo_q w')"
    using assms(7) by (simp_all add: waits_for_batch_def)
  with assms(1-6) show ?thesis
    by (cases "demo_at w") (simp_all add: demo_phase_def list_all_iff, blast)
qed

lemma demo_phase_move:
  assumes "demo_phase lib pubKey secKey zone w evs" and "demo_at w \<noteq> DemoEnded"
    and "demo_move lib pubKey secKey zone a w = Some (w', es)" and "\<not> is_call a" and "list_all quiet es"
  shows "demo_phase lib pubKey secKey zone w' (evs @ es)"
  using assms(3,4)
proof (cases rule: demo_move_cases)
  case (other q)
  with drain_continues [OF other(1) assms(4), of 0] no_return_batches [OF other(2)] assms(1,2) show ?thesis
    by (intro demo_phase_keep [OF assms(1,2)]) simp_all
next
  case (submit q i res)
  with assms(5) obtain tx where "res = Inr tx" by (cases res) auto
  with submit drain_continues [OF submit(1) assms(4), of 0] show ?thesis
    by (intro demo_phase_keep [OF assms(1,2)]) simp_all
next
  case (drain q c b err)
  with assms(5) have c: "c = 0" by simp
  with drain_returns [OF drain(1), of 0 b err] drain(2) obtain d where d: "drains (demo_q w) 0 = Some d"
    "err = None \<longrightarrow> d_mode d = NonBlocking \<or> d_size d \<le> int (length b)" by auto
  with assms(1,2) have at: "demo_at w = DemoDraining" by (cases "demo_at w") (auto simp: demo_phase_def)
  with assms(1) obtain errs n where ph: "list_all is_seal_error errs" "errs = [] \<longrightarrow> n = numClients"
    "demo_out w = errs @ [DemoQueueLength n]" "batches 0 evs = []" "waits_for_batch (demo_q w)"
    by (auto simp: demo_phase_def)
  from ph(5) d have "err = None \<longrightarrow> numClients \<le> length b" by (simp add: waits_for_batch_def)
  with drain c ph show ?thesis
    unfolding demo_phase_def by (intro exI [of _ errs] exI [of _ n]) (simp, blast)
qed

lemma demo_phase_client:
  assumes "demo_phase lib pubKey secKey zone w evs" and "demo_client lib pubKey i now rnd w = Some (w', es)"
    and "demo_at w \<noteq> DemoEnded" "1 \<le> i" "i \<le> numClients" "demo_clients w i = ClientStart"
  shows "demo_phase lib pubKey secKey zone w' (evs @ es)"
proof -
  have "i \<in> set [1..<numClients + 1]" using assms(4,5) by simp
  with assms(1,3,6) have at: "demo_at w = DemoWaiting"
    by (cases "demo_at w") (auto simp: demo_phase_def list_all_iff simp del: set_upt)
  show ?thesis
  proof (cases "SealTransaction lib rnd (bytes_of_string (demo_payload i now)) pubKey")
    case (Inl e)
    with assms(1,2) at show ?thesis by (auto simp: demo_phase_def demo_client_def Let_def)
  next
    case (Inr ct)
    with assms(2) have "es = [SubmitCalled i ct]" "drains (demo_q w') = drains (demo_q w)" "demo_at w' = demo_at w" "demo_out w' = demo_out w"
      by (auto simp: demo_client_def Let_def split: option.splits)
    with assms(1) at show ?thesis by (simp add: demo_phase_def)
  qed
qed

lemma demo_phase_drain:
  assumes "run (demo_step lib pubKey secKey zone) as demo_init = Some (w, evs)" and "demo_phase lib pubKey secKey zone w evs"
    and "demo_drain w = Some (w', es)" and "demo_at w = DemoWaiting" and "list_all (\<lambda>i. demo_clients w i = ClientDone) [1..<numClients + 1]"
  shows "demo_phase lib pubKey secKey zone w' (evs @ es)"
proof -
  from assms(2,4) have ph: "list_all is_seal_error (demo_out w)" "batches 0 evs = []" "drains (demo_q w) 0 = None"
    by (simp_all add: demo_phase_def)
  with demo.program_fifo [OF assms(1)] have "queue_Len (demo_q w) = length (committed evs)"
    by (simp add: queue_Len_def in_hand_def)
  with demo_committers(3) [OF assms(1,5)] have n: "demo_out w = [] \<longrightarrow> queue_Len (demo_q w) = numClients" by simp
  from assms(3) ph(3) have "es = []" "waits_for_batch (demo_q w')" "demo_at w' = DemoDraining" "demo_clients w' = demo_clients w"
    "demo_out w' = demo_out w @ [DemoQueueLength (queue_Len (demo_q w))]"
    by (auto simp: demo_drain_def waits_for_batch_def step_simps)
  with ph n assms(5) show ?thesis unfolding demo_phase_def by (intro exI [of _ "demo_out w"] exI [of _ "queue_Len (demo_q w)"]) simp
qed

lemma demo_phase_run:
  assumes "run (demo_step lib pubKey secKey zone) as demo_init = Some (w, evs)"
  shows "demo_phase lib pubKey secKey zone w evs"
  using assms
proof (rule demo.program_induct)
  show "demo_phase lib pubKey secKey zone demo_init []" by (simp add: demo_phase_def demo_init_def queue_init_def)
next
  fix bs w evs a w' es
  assume run: "run (demo_step lib pubKey secKey zone) bs demo_init = Some (w, evs)"
    and run': "run (demo_step lib pubKey secKey zone) (bs @ [a]) demo_init = Some (w', evs @ es)"
    and ok: "demo_phase lib pubKey secKey zone w evs" and st: "demo_step lib pubKey secKey zone a w = Some (w', es)"
  have quiet: "list_all quiet es" using demo.program_history(3) [OF run'] by simp
  show "demo_phase lib pubKey secKey zone w' (evs @ es)"
  proof (cases a)
    case (DemoClient i now rnd)
    with st ok show ?thesis by (auto intro: demo_phase_client split: if_splits)
  next
    case DemoDrain
    with st show ?thesis by (intro demo_phase_drain [OF run ok]) (auto split: if_splits)
  next
    case DemoTimeout
    with st ok quiet show ?thesis by (auto intro: demo_phase_move split: if_splits)
  next
    case (DemoQueue b)
    with st ok quiet show ?thesis by (auto intro: demo_phase_move dest: internal_no_call split: if_splits)
  qed
qed

section \<open>What the demo shows\<close>

lemma demo_main_run:
  assumes "demo_main lib zone as = Some out" and "privacy_Init lib = None" and "GenerateSequencerKeys lib = Inr (pubKey, secKey)"
  obtains w evs where "run (demo_step lib pubKey secKey zone) as demo_init = Some (w, evs)" "demo_at w = DemoEnded" "demo_out w = out"
  using assms by (auto simp: demo_main_def split: option.splits if_splits)

text \<open>The transactions of a run open to the payloads of their clients.\<close>

lemma demo_plaintexts:
  assumes "run (demo_step lib pubKey secKey zone) as demo_init = Some (w, evs)"
    and "sealed_boxes lib pubKey secKey" and "length secKey = SecretKeyBytes"
  shows "map (demo_plaintext lib pubKey secKey) (committed evs) = map (\<lambda>i. bytes_of_string (demo_payloads w i)) (committers evs)"
proof -
  have "demo_plaintext lib pubKey secKey tx = bytes_of_string (demo_payloads w i)" if "(i, tx) \<in> set (commits evs)" for i tx
  proof -
    from that demo.program_commits(2) [OF assms(1)] have "SubmitCalled i (Ciphertext tx) \<in> set evs"
      by (simp add: commits_committed(2))
    with demo_clients_ok_run [OF assms(1)] obtain rnd now
      where seal: "SealTransaction lib rnd (bytes_of_string (demo_payloads w i)) pubKey = Inr (Ciphertext tx)"
        and "i \<le> numClients" "demo_payloads w i = demo_payload i now"
      unfolding demo_clients_ok_def by blast
    then have "length (bytes_of_string (demo_payloads w i)) < 2 ^ 31"
      using demo_payload_short [of i now] by simp
    from SealTransaction_opens [OF seal assms(2,3) this] show ?thesis by (simp add: demo_plaintext_def)
  qed
  then have "map (demo_plaintext lib pubKey secKey \<circ> snd) (commits evs) = map ((\<lambda>i. bytes_of_string (demo_payloads w i)) \<circ> fst) (commits evs)"
    by auto
  then show ?thesis by (simp flip: commits_committed(1) commits_committers)
qed

text \<open>
  C35: the demo shows every client's trade once, in sequence order.  Whenever \<open>main\<close> ends without having
  reported a failed seal or a failed drain, in any interleaving of the goroutines, the queue held ten
  transactions after the submissions, the table has one row per transaction by ascending sequence
  number, its plaintexts are exactly the ten clients' payloads, and the line on FIFO order says
  \<open>true\<close>.
\<close>

theorem demo_shows_every_trade:
  assumes "demo_main lib zone as = Some out" and "length as < 2 ^ 64"
    and "privacy_Init lib = None" and "GenerateSequencerKeys lib = Inr (pubKey, secKey)"
    and "sealed_boxes lib pubKey secKey" and "length secKey = SecretKeyBytes"
    and "\<forall>i e. DemoSealError i e \<notin> set out" and "\<forall>e. DemoDrainError e \<notin> set out"
  shows "\<exists>batch now. out = DemoQueueLength numClients # map DemoText demo_header @
      map (DemoText \<circ> demo_row lib pubKey secKey zone) batch @ [DemoFifo True] \<and>
    sorted_wrt (<) (map tx_id batch) \<and>
    mset (map (demo_plaintext lib pubKey secKey) batch) =
      mset (map (\<lambda>i. bytes_of_string (demo_payload i (now i))) [1..<numClients + 1])"
proof -
  obtain w evs where w: "run (demo_step lib pubKey secKey zone) as demo_init = Some (w, evs)" "demo_at w = DemoEnded" "demo_out w = out"
    by (rule demo_main_run [OF assms(1,3,4)])
  obtain errs n err where ph: "list_all is_seal_error errs" "errs = [] \<longrightarrow> n = numClients"
    "out = errs @ DemoQueueLength n # demo_results lib pubKey secKey zone (batches 0 evs) err"
    "err = None \<longrightarrow> numClients \<le> length (batches 0 evs)"
    using demo_phase_run [OF w(1)] w(2,3) by (auto simp: demo_phase_def)
  have errs: "errs = []" using ph(1,3) assms(7) by (cases errs rule: list.exhaust; cases "hd errs") auto
  have err: "err = None" using ph(3) assms(8) by (cases err) (auto simp: demo_results_def)
  have fifo: "batches 0 evs @ in_hand (demo_q w) 0 @ ch (demo_q w) = committed evs" by (rule demo.program_fifo [OF w(1)])
  from arg_cong [OF fifo, of length] demo_committers(2) [OF w(1)] ph(4) err
  have len: "length (committed evs) = numClients" and "length (in_hand (demo_q w) 0 @ ch (demo_q w)) = 0"
    unfolding length_append by linarith+
  with fifo have batch: "batches 0 evs = committed evs" by (metis append_Nil2 length_0_conv)
  have ids: "sorted_wrt (<) (map tx_id (committed evs))" by (rule demo.program_ids [OF w(1) assms(2)])
  have "\<forall>i. \<exists>now. i \<in> set (committers evs) \<longrightarrow> demo_payloads w i = demo_payload i now"
    using demo_clients_ok_run [OF w(1)] demo.program_commits(2) [OF w(1)] by (fastforce simp: demo_clients_ok_def committers_iff)
  then obtain now where now: "\<And>i. i \<in> set (committers evs) \<Longrightarrow> demo_payloads w i = demo_payload i (now i)" by metis
  then have "map (demo_plaintext lib pubKey secKey) (committed evs) = map (\<lambda>i. bytes_of_string (demo_payload i (now i))) (committers evs)"
    by (simp add: demo_plaintexts [OF w(1) assms(5,6)])
  then have "mset (map (demo_plaintext lib pubKey secKey) (committed evs)) =
      mset (map (\<lambda>i. bytes_of_string (demo_payload i (now i))) [1..<numClients + 1])"
    using demo_committers(4) [OF w(1) len] by (metis mset_map)
  with ids ph errs err batch demo_fifo_sorted [OF ids] show ?thesis
    by (intro exI [of _ "committed evs"] exI [of _ now]) (simp add: demo_results_def)
qed

text \<open>A run in which the clients submit one after the other.\<close>

abbreviation demo_glass :: "demo_action \<Rightarrow> demo_world \<Rightarrow> (demo_world \<times> log_event list) option" where
  "demo_glass \<equiv> demo_step glass_sodium (replicate 32 1) (replicate 32 2) 0"

definition demo_round :: "nat \<Rightarrow> demo_action list" where
  "demo_round i =
     [DemoClient i 0 0, DemoQueue (Submitter (SendRequest i)), DemoQueue (Admission LoopTake), DemoQueue (Admission (LoopStamp 0)),
      DemoQueue (Admission LoopCommit), DemoQueue (Submitter (TakeResponse i))]"

definition demo_tx :: "nat \<Rightarrow> EncryptedTransaction" where
  "demo_tx i = \<lparr>ID = of_nat i, Ciphertext = replicate 48 0 @ bytes_of_string (demo_payload i 0), ArrivedAt = 0\<rparr>"

definition demo_after :: "nat \<Rightarrow> demo_world" where
  "demo_after k = demo_init
     \<lparr>demo_q := (queue_init queueCap)\<lparr>ch := map demo_tx [1..<k + 1], nextID := of_nat k,
                  submits := (\<lambda>r. if r \<in> {1..k} then Some SubReturned else None)\<rparr>,
      demo_clients := (\<lambda>i. if i \<in> {1..k} then ClientDone else ClientStart),
      demo_payloads := (\<lambda>i. if i \<in> {1..k} then demo_payload i 0 else [])\<rparr>"

lemma demo_payload_nonempty [simp]: "demo_payload i now \<noteq> []"
  by (simp add: demo_payload_def)

lemma demo_round_run:
  assumes "k < numClients"
  shows "\<exists>evs. run demo_glass (demo_round (Suc k)) (demo_after k) = Some (demo_after (Suc k), evs)"
  using assms
  by (simp add: demo_round_def demo_after_def demo_init_def queue_init_def demo_client_def demo_move_def Let_def SealTransaction_def
      seal_transaction_def glass_sodium_def step_simps demo_tx_def)
    (auto simp: fun_eq_iff add.commute)

lemma demo_rounds_run:
  "k \<le> numClients \<Longrightarrow> \<exists>evs. run demo_glass (concat (map demo_round [1..<k + 1])) demo_init = Some (demo_after k, evs)"
proof (induction k)
  case 0
  have "demo_after 0 = demo_init" by (simp add: demo_after_def demo_init_def queue_init_def)
  then show ?case by simp
next
  case (Suc k)
  then obtain evs where "run demo_glass (concat (map demo_round [1..<k + 1])) demo_init = Some (demo_after k, evs)" by auto
  moreover obtain es where "run demo_glass (demo_round (Suc k)) (demo_after k) = Some (demo_after (Suc k), es)"
    using demo_round_run [of k] Suc.prems by auto
  ultimately show ?case by (simp add: run_append)
qed

text \<open>A queue that holds enough fills the batch of \<open>main\<close>.\<close>

lemma demo_receives:
  assumes "demo_at w = DemoDraining" and "drains (demo_q w) 0 = Some \<lparr>d_batch = b, d_size = int (length b + length (ch (demo_q w))), d_mode = m\<rparr>"
  shows "\<exists>w' evs. run (demo_step lib pubKey secKey zone)
      (replicate (length (ch (demo_q w))) (DemoQueue (Consumer (DrainRecv 0))) @ [DemoQueue (Consumer (DrainFull 0))]) w = Some (w', evs) \<and>
    demo_at w' = DemoEnded \<and> demo_out w' = demo_out w @ demo_results lib pubKey secKey zone (b @ ch (demo_q w)) None"
  using assms
proof (induction "ch (demo_q w)" arbitrary: w b)
  case Nil
  then show ?case by (simp add: demo_move_def step_simps flip: Nil.hyps)
next
  case (Cons tx rest)
  let ?d = "\<lparr>d_batch = b @ [tx], d_size = int (length (b @ [tx]) + length rest), d_mode = m\<rparr>"
  let ?w = "w\<lparr>demo_q := (demo_q w)\<lparr>ch := rest, drains := (drains (demo_q w))(0 \<mapsto> ?d)\<rparr>\<rparr>"
  have "demo_step lib pubKey secKey zone (DemoQueue (Consumer (DrainRecv 0))) w = Some (?w, [Delivered 0 tx])"
    using Cons.prems by (simp add: demo_move_def step_simps flip: Cons.hyps(2))
  moreover obtain w' evs where "run (demo_step lib pubKey secKey zone)
      (replicate (length rest) (DemoQueue (Consumer (DrainRecv 0))) @ [DemoQueue (Consumer (DrainFull 0))]) ?w = Some (w', evs)"
    "demo_at w' = DemoEnded" "demo_out w' = demo_out w @ demo_results lib pubKey secKey zone (b @ tx # rest) None"
    using Cons.hyps(1) [of ?w "b @ [tx]"] Cons.prems(1) by auto
  ultimately show ?case by (simp flip: Cons.hyps(2))
qed

definition demo_example :: "demo_action list" where
  "demo_example = concat (map demo_round [1..<numClients + 1]) @ [DemoDrain] @
     replicate numClients (DemoQueue (Consumer (DrainRecv 0))) @ [DemoQueue (Consumer (DrainFull 0))]"

lemma demo_example_main:
  "demo_main glass_sodium 0 demo_example =
     Some (DemoQueueLength numClients # demo_results glass_sodium (replicate 32 1) (replicate 32 2) 0 (map demo_tx [1..<numClients + 1]) None)"
proof -
  let ?d = "\<lparr>d_batch = [], d_size = int demo_batchSize, d_mode = Blocking 1\<rparr>"
  let ?w = "(demo_after numClients)\<lparr>demo_q := (demo_q (demo_after numClients))\<lparr>drains := (drains (demo_q (demo_after numClients)))(0 \<mapsto> ?d)\<rparr>,
    demo_at := DemoDraining, demo_out := [DemoQueueLength numClients]\<rparr>"
  obtain evs where "run demo_glass (concat (map demo_round [1..<numClients + 1])) demo_init = Some (demo_after numClients, evs)"
    using demo_rounds_run [of numClients] by blast
  moreover have "demo_glass DemoDrain (demo_after numClients) = Some (?w, [])"
    by (simp add: demo_after_def demo_init_def queue_init_def demo_drain_def step_simps queue_Len_def list_all_iff)
  moreover obtain w es where "run demo_glass (replicate numClients (DemoQueue (Consumer (DrainRecv 0))) @ [DemoQueue (Consumer (DrainFull 0))]) ?w =
      Some (w, es)" "demo_at w = DemoEnded"
    "demo_out w = DemoQueueLength numClients # demo_results glass_sodium (replicate 32 1) (replicate 32 2) 0 (map demo_tx [1..<numClients + 1]) None"
    using demo_receives [of ?w "[]" "Blocking 1" glass_sodium "replicate 32 1" "replicate 32 2" 0]
    by (auto simp: demo_after_def)
  ultimately have "\<exists>w evs. run demo_glass demo_example demo_init = Some (w, evs) \<and> demo_at w = DemoEnded \<and>
      demo_out w = DemoQueueLength numClients # demo_results glass_sodium (replicate 32 1) (replicate 32 2) 0 (map demo_tx [1..<numClients + 1]) None"
    by (simp add: demo_example_def run_append)
  then show ?thesis by (auto simp: demo_main_def glass_start)
qed

theorem demo_shows_every_trade_witness:
  "\<exists>batch now. DemoQueueLength numClients # demo_results glass_sodium (replicate 32 1) (replicate 32 2) 0 (map demo_tx [1..<numClients + 1]) None =
      DemoQueueLength numClients # map DemoText demo_header @
      map (DemoText \<circ> demo_row glass_sodium (replicate 32 1) (replicate 32 2) 0) batch @ [DemoFifo True] \<and>
    sorted_wrt (<) (map tx_id batch) \<and>
    mset (map (demo_plaintext glass_sodium (replicate 32 1) (replicate 32 2)) batch) =
      mset (map (\<lambda>i. bytes_of_string (demo_payload i (now i))) [1..<numClients + 1])"
  by (rule demo_shows_every_trade [OF demo_example_main])
    (auto simp: demo_example_def demo_round_def demo_results_def glass_sealed glass_start length_concat comp_def sum_list_triv)

end
