(* ===== verification/Live_Demo.thy ===== *)
theory Live_Demo
  imports Local_Queue Go_Time Go_Json Privacy_Layer
begin

text \<open>
  \<open>cmd/live-demo/main.go\<close>: a goroutine sends 50 random trades through a local queue while \<open>main\<close>, at every
  tick of a timer, drains up to five of them and redraws the screen.  The two share the counters and
  the list of recent submissions under a mutex, which \<open>main\<close> holds from the tick to the end of the
  frame.
\<close>

section \<open>Trades\<close>

text \<open>The random numbers of one iteration, the clock and the randomness of the seal.\<close>

record trade =
  rand_client :: nat
  rand_side :: nat
  rand_pair :: nat
  rand_amount :: nat
  rand_price :: nat
  trade_now :: time
  seal_rnd :: nat

text \<open>The ranges of \<open>rand.Intn\<close>.\<close>

definition trade_ok :: "trade \<Rightarrow> bool" where
  "trade_ok r \<longleftrightarrow> rand_client r < 20 \<and> rand_side r < 2 \<and> rand_pair r < 3 \<and> rand_amount r < 100 \<and> rand_price r < 5000"

definition trade_client :: "trade \<Rightarrow> string" where
  "trade_client r = pad_zero 2 (show_nat (rand_client r + 1))"

definition tradeType :: "trade \<Rightarrow> string" where
  "tradeType r = [''BUY'', ''SELL''] ! rand_side r"

definition trade_pair :: "trade \<Rightarrow> string" where
  "trade_pair r = [''ETH/USDC'', ''BTC/USDC'', ''SOL/USDC''] ! rand_pair r"

definition trade_amount :: "trade \<Rightarrow> float64" where
  "trade_amount r = f64_of_nat (rand_amount r + 1)"

definition trade_price :: "trade \<Rightarrow> float64" where
  "trade_price r = f64_add (f64_of_nat 1000) (f64_of_nat (rand_price r))"

definition live_payload :: "trade \<Rightarrow> string" where
  "live_payload r =
     ''TRADE|'' @ trade_client r @ ''|'' @ tradeType r @ ''|'' @ trade_pair r @ ''|'' @ format_f 2 (trade_amount r) @ ''|'' @
     format_f 2 (trade_price r) @ ''|'' @ show_int (sint (UnixNano (trade_now r)))"

definition live_info :: "trade \<Rightarrow> string" where
  "live_info r =
     ''Client '' @ trade_client r @ '' | '' @ tradeType r @ '' '' @ trade_pair r @ '' | '' @ format_f 2 (trade_amount r) @
     '' @ '' @ format_f 0 (trade_price r)"

text \<open>No payload is near the two gigabytes at which \<open>DecryptSingle\<close> panics.\<close>

lemma live_payload_short:
  assumes "trade_ok r"
  shows "length (live_payload r) < 2 ^ 31"
proof -
  have "length (show_nat (rand_client r + 1)) \<le> 2" using assms by (intro length_show_nat) (simp_all add: trade_ok_def)
  then have "length (trade_client r) = 2" by (simp add: trade_client_def pad_zero_def)
  moreover have "length (tradeType r) \<le> 4" using assms by (auto simp: trade_ok_def tradeType_def less_Suc_eq numeral_2_eq_2)
  moreover have "length (trade_pair r) = 8" using assms by (auto simp: trade_ok_def trade_pair_def less_Suc_eq numeral_3_eq_3)
  moreover have "length (format_f 2 w) \<le> 314" for w using length_format_f [of 2 w] by simp
  note this [of "trade_amount r"] this [of "trade_price r"]
  ultimately show ?thesis using length_show_int64 [of "UnixNano (trade_now r)"] by (simp add: live_payload_def)
qed

section \<open>The screen\<close>

text \<open>Escape sequences, and the runes of the decoration as UTF-8.\<close>

definition escape :: "string \<Rightarrow> string" where
  "escape s = CHR 0x1B # CHR ''['' # s"

abbreviation "clearScreen \<equiv> escape ''2J'' @ escape ''H''"
abbreviation "reset \<equiv> escape ''0m''"
abbreviation "green \<equiv> escape ''32m''"
abbreviation "blue \<equiv> escape ''34m''"
abbreviation "yellow \<equiv> escape ''33m''"
abbreviation "cyan \<equiv> escape ''36m''"
abbreviation "bold \<equiv> escape ''1m''"

abbreviation "closed_lock \<equiv> utf8_rune 0x1F510"
abbreviation "heavy_bar \<equiv> utf8_rune 0x2501"
abbreviation "upright \<equiv> utf8_rune 0x2502"
abbreviation "check_mark \<equiv> utf8_rune 0x2713"

text \<open>Errors carry the error rather than its text; a row shows one transaction.\<close>

datatype live_line =
    LiveInitFailed privacy_error | LiveKeygenFailed privacy_error
  | LiveSealError privacy_error | LiveSubmitError log_error
  | LiveText string | LiveRow string

definition live_banner :: "string list" where
  "live_banner =
     [clearScreen @ bold @ cyan @ closed_lock @ '' SECURE-ORDER LIVE SEQUENCER '' @ closed_lock @ reset,
      cyan @ concat (replicate 51 heavy_bar) @ reset, '''']"

definition live_stats :: "int \<Rightarrow> nat \<Rightarrow> nat \<Rightarrow> nat \<Rightarrow> string list" where
  "live_stats elapsed submitted processed queued =
     [bold @ ''Uptime:'' @ reset @ '' '' @ Duration_String (Duration_Round elapsed (10 ^ 9)) @ ''  |  '' @
      green @ ''Submitted:'' @ reset @ '' '' @ show_nat submitted @ ''  |  '' @
      yellow @ ''Processed:'' @ reset @ '' '' @ show_nat processed @ ''  |  '' @
      blue @ ''Queue:'' @ reset @ '' '' @ show_nat queued, '''']"

definition live_rule :: "string \<Rightarrow> string" where
  "live_rule colour = colour @ bold @ [CHR 0x5C] @ concat (replicate 48 heavy_bar) @ ''/'' @ reset"

text \<open>The error of \<open>DecryptSingle\<close> is ignored: its plaintext is then empty.\<close>

definition live_plaintext :: "sodium \<Rightarrow> bytes \<Rightarrow> bytes \<Rightarrow> EncryptedTransaction \<Rightarrow> bytes" where
  "live_plaintext lib pubKey secKey tx = (case DecryptSingle lib (Ciphertext tx) pubKey secKey of Inl _ \<Rightarrow> [] | Inr pt \<Rightarrow> pt)"

definition live_row :: "sodium \<Rightarrow> bytes \<Rightarrow> bytes \<Rightarrow> EncryptedTransaction \<Rightarrow> string" where
  "live_row lib pubKey secKey tx =
     blue @ upright @ reset @ ''  '' @ green @ ''[SeqID: '' @ pad_left 3 (show_nat (tx_id tx)) @ '']'' @ reset @ ''  |  '' @
     yellow @ string_of_bytes (live_plaintext lib pubKey secKey tx) @ reset"

definition live_batch :: "sodium \<Rightarrow> bytes \<Rightarrow> bytes \<Rightarrow> EncryptedTransaction list \<Rightarrow> live_line list" where
  "live_batch lib pubKey secKey batch =
     (if length batch > 0 then
        map LiveText [bold @ utf8_rune 0x1F4E5 @ '' LATEST TRANSACTIONS:'' @ reset, live_rule blue] @
        map (LiveRow \<circ> live_row lib pubKey secKey) batch @ map LiveText [live_rule blue, '''']
      else [])"

definition live_recent :: "string list \<Rightarrow> string list" where
  "live_recent transactions =
     [bold @ utf8_rune 0x1F4CA @ '' RECENT SUBMISSIONS:'' @ reset, live_rule cyan] @
     map (\<lambda>tx. cyan @ upright @ reset @ ''  '' @ check_mark @ ''  '' @ tx) transactions @
     [live_rule cyan, '''',
      green @ utf8_rune 0x1F512 @ '' FIFO ORDERING: ACTIVE | '' @ utf8_rune 0x1F310 @ '' gRPC Port: 50051 | '' @
      closed_lock @ '' Encrypted: YES'' @ reset]"

definition live_farewell :: "nat \<Rightarrow> string list" where
  "live_farewell processed =
     ['''', green @ bold @ utf8_rune 0x2705 @ '' Demo Complete!'' @ reset,
      green @ ''Total Transactions: '' @ show_nat processed @ '' | FIFO Preserved: '' @ check_mark @ reset, '''']"

section \<open>The program\<close>

text \<open>The sender before its \<open>i\<close>-th iteration, in \<open>Submit\<close>, or about to take the mutex.\<close>

datatype sender_pc = SendNext nat | SendSubmitting nat string | SendLocking nat string

text \<open>\<open>main\<close> waits for a tick, is in \<open>DrainWait\<close> (and holds the mutex), or has ended.\<close>

datatype display_pc = LiveIdle | LiveDraining | LiveEnded

text \<open>
  \<open>live_ticks\<close> counts the frames; the call of \<open>DrainWait\<close> in the \<open>n\<close>-th has context \<open>n + 1\<close>, which is cancelled after
  the call and not used again.
  \<open>live_sent\<close> records the payloads submitted.
\<close>

record live_world =
  live_q :: queue_world
  live_sender :: sender_pc
  live_submitted :: nat
  live_processed :: nat
  live_transactions :: "string list"
  live_at :: display_pc
  live_ticks :: nat
  live_out :: "live_line list"
  live_sent :: "string list"

definition live_init :: live_world where
  "live_init = \<lparr>live_q = queue_init 256, live_sender = SendNext 1, live_submitted = 0, live_processed = 0,
     live_transactions = [], live_at = LiveIdle, live_ticks = 0, live_out = map LiveText live_banner, live_sent = []\<rparr>"

text \<open>One iteration of the sender up to its call of \<open>Submit\<close>.\<close>

definition live_send ::
  "sodium \<Rightarrow> bytes \<Rightarrow> nat \<Rightarrow> trade \<Rightarrow> live_world \<Rightarrow> (live_world \<times> log_event list) option" where
  "live_send lib pubKey i r w =
     (case SealTransaction lib (seal_rnd r) (bytes_of_string (live_payload r)) pubKey of
        Inl sealErr \<Rightarrow> Some (w\<lparr>live_sender := SendNext (i + 1), live_out := live_out w @ [LiveSealError sealErr]\<rparr>, [])
      | Inr ciphertext \<Rightarrow>
          map_option (\<lambda>(q, es). (w\<lparr>live_q := q, live_sender := SendSubmitting i (live_info r),
                                  live_sent := live_sent w @ [live_payload r]\<rparr>, es))
            (queue_step (Submitter (CallSubmit i 0 ciphertext)) (live_q w)))"

text \<open>The critical section of the sender.\<close>

definition live_record :: "string \<Rightarrow> live_world \<Rightarrow> live_world" where
  "live_record txInfo w =
     (let transactions = live_transactions w @ [txInfo] in
      w\<lparr>live_submitted := live_submitted w + 1,
        live_transactions := (if length transactions > 15 then drop 1 transactions else transactions)\<rparr>)"

text \<open>A tick, \<open>elapsed\<close> nanoseconds after the start: the top of the frame and the call of \<open>DrainWait\<close>.\<close>

definition live_tick :: "int \<Rightarrow> live_world \<Rightarrow> (live_world \<times> log_event list) option" where
  "live_tick elapsed w =
     map_option (\<lambda>(q, es). (w\<lparr>live_q := q, live_at := LiveDraining, live_ticks := live_ticks w + 1,
        live_out := live_out w @ map LiveText (live_banner @
          live_stats elapsed (live_submitted w) (live_processed w) (queue_Len (live_q w)))\<rparr>, es))
       (queue_step (Consumer (CallDrainWait 0 (live_ticks w + 2) 5)) (live_q w))"

text \<open>The rest of the frame; the loop ends when 50 transactions are processed.\<close>

definition live_frame :: "sodium \<Rightarrow> bytes \<Rightarrow> bytes \<Rightarrow> EncryptedTransaction list \<Rightarrow> live_world \<Rightarrow> live_world" where
  "live_frame lib pubKey secKey batch w =
     (let processed = live_processed w + length batch;
          frame = live_batch lib pubKey secKey batch @ map LiveText (live_recent (live_transactions w)) in
      if processed \<ge> 50
      then w\<lparr>live_processed := processed, live_at := LiveEnded,
             live_out := live_out w @ frame @ map LiveText (live_farewell processed)\<rparr>
      else w\<lparr>live_processed := processed, live_at := LiveIdle, live_out := live_out w @ frame\<rparr>)"

fun live_event :: "sodium \<Rightarrow> bytes \<Rightarrow> bytes \<Rightarrow> log_event \<Rightarrow> live_world \<Rightarrow> live_world" where
  "live_event lib pubKey secKey (SubmitReturned r res) w =
     (case live_sender w of
        SendSubmitting i txInfo \<Rightarrow>
          (case res of
             Inl err \<Rightarrow> w\<lparr>live_sender := SendNext (i + 1), live_out := live_out w @ [LiveSubmitError err]\<rparr>
           | Inr _ \<Rightarrow> w\<lparr>live_sender := SendLocking i txInfo\<rparr>)
      | _ \<Rightarrow> w)"
| "live_event lib pubKey secKey (DrainReturned c batch err) w = live_frame lib pubKey secKey batch w"
| "live_event lib pubKey secKey _ w = w"

datatype live_action = LiveSend trade | LiveRecord | LiveTick int | LiveTimeout | LiveQueue queue_action

definition live_move ::
  "sodium \<Rightarrow> bytes \<Rightarrow> bytes \<Rightarrow> queue_action \<Rightarrow> live_world \<Rightarrow> (live_world \<times> log_event list) option" where
  "live_move lib pubKey secKey a w =
     map_option (\<lambda>(q, es). (fold (live_event lib pubKey secKey) es (w\<lparr>live_q := q\<rparr>), es)) (queue_step a (live_q w))"

fun live_step ::
  "sodium \<Rightarrow> bytes \<Rightarrow> bytes \<Rightarrow> live_action \<Rightarrow> live_world \<Rightarrow> (live_world \<times> log_event list) option" where
  "live_step lib pubKey secKey (LiveSend r) w =
     (case live_sender w of
        SendNext i \<Rightarrow> if live_at w \<noteq> LiveEnded \<and> i \<le> 50 \<and> trade_ok r then live_send lib pubKey i r w else None
      | _ \<Rightarrow> None)"
| "live_step lib pubKey secKey LiveRecord w =
     (case live_sender w of
        SendLocking i txInfo \<Rightarrow>
          if live_at w = LiveIdle then Some ((live_record txInfo w)\<lparr>live_sender := SendNext (i + 1)\<rparr>, []) else None
      | _ \<Rightarrow> None)"
| "live_step lib pubKey secKey (LiveTick elapsed) w = (if live_at w = LiveIdle then live_tick elapsed w else None)"
| "live_step lib pubKey secKey LiveTimeout w =
     (if live_at w = LiveDraining then live_move lib pubKey secKey (CtxCancel (live_ticks w + 1) DeadlineExceeded) w else None)"
| "live_step lib pubKey secKey (LiveQueue a) w =
     (if live_at w \<noteq> LiveEnded \<and> queue_internal a then live_move lib pubKey secKey a w else None)"

text \<open>\<open>main\<close>, given its steps: what is printed, and \<open>None\<close> while it has not ended.\<close>

definition live_main :: "sodium \<Rightarrow> live_action list \<Rightarrow> live_line list option" where
  "live_main lib as =
     (case privacy_Init lib of
        Some err \<Rightarrow> Some [LiveInitFailed err]
      | None \<Rightarrow>
     (case GenerateSequencerKeys lib of
        Inl err \<Rightarrow> Some [LiveKeygenFailed err]
      | Inr (pubKey, secKey) \<Rightarrow>
     (case run (live_step lib pubKey secKey) as live_init of
        Some (w, _) \<Rightarrow> if live_at w = LiveEnded then Some (live_out w) else None
      | None \<Rightarrow> None)))"

section \<open>The live demo is an in-process program\<close>

lemma live_q_event [simp]: "live_q (fold (live_event lib pubKey secKey) es w) = live_q w"
proof (induction es arbitrary: w)
  case (Cons e es)
  moreover have "live_q (live_event lib pubKey secKey e w) = live_q w"
    by (cases e) (simp_all add: live_frame_def Let_def split: sender_pc.splits sum.splits)
  ultimately show ?case by simp
qed simp

interpretation live: in_process_program live_init "live_step lib pubKey secKey" live_q 256
  for lib pubKey secKey
proof unfold_locales
  show "live_q live_init = queue_init 256" by (simp add: live_init_def)
next
  fix a w w' es
  assume st: "live_step lib pubKey secKey a w = Some (w', es)"
  show "live_q w' = live_q w \<and> es = [] \<or> (\<exists>b. in_process b \<and> queue_step b (live_q w) = Some (live_q w', es))"
  proof (cases a)
    case (LiveSend r)
    with st show ?thesis
      by (auto simp: live_send_def split: if_splits sum.splits sender_pc.splits option.splits
          intro!: exI [of _ "Submitter (CallSubmit _ 0 _)"])
  next
    case LiveRecord
    with st show ?thesis by (auto simp: live_record_def Let_def split: if_splits sender_pc.splits)
  next
    case (LiveTick elapsed)
    with st show ?thesis
      by (auto simp: live_tick_def split: if_splits intro!: exI [of _ "Consumer (CallDrainWait 0 (live_ticks w + 2) 5)"])
  next
    case LiveTimeout
    with st show ?thesis
      by (auto simp: live_move_def split: if_splits intro!: exI [of _ "CtxCancel (live_ticks w + 1) DeadlineExceeded"])
  next
    case (LiveQueue b)
    with st show ?thesis by (auto simp: live_move_def internal_in_process split: if_splits)
  qed
qed

lemma live_event_other: "\<not> is_return e \<Longrightarrow> live_event lib pubKey secKey e w = w"
  by (cases e) simp_all

lemma live_move_cases [consumes 2, case_names other submit drain]:
  assumes "live_move lib pubKey secKey a w = Some (w', es)" and "\<not> is_call a"
  obtains q where "queue_step a (live_q w) = Some (q, es)" "list_all (\<lambda>e. \<not> is_return e) es" "w' = w\<lparr>live_q := q\<rparr>"
  | q r res where "queue_step a (live_q w) = Some (q, es)" "es = [SubmitReturned r res]"
      "w' = live_event lib pubKey secKey (SubmitReturned r res) (w\<lparr>live_q := q\<rparr>)"
  | q c b err where "queue_step a (live_q w) = Some (q, es)" "es = [DrainReturned c b err]"
      "w' = live_frame lib pubKey secKey b (w\<lparr>live_q := q\<rparr>)"
proof -
  from assms(1) obtain q where q: "queue_step a (live_q w) = Some (q, es)"
    "w' = fold (live_event lib pubKey secKey) es (w\<lparr>live_q := q\<rparr>)" by (auto simp: live_move_def)
  from returns_alone [OF q(1)] show thesis
    by (elim disjE exE) (use q that in \<open>auto simp: fold_no_return [OF live_event_other] simp del: live_event.simps(1)\<close>)
qed

lemma live_step_cases [consumes 1, case_names failed send recorded tick move]:
  assumes "live_step lib pubKey secKey a w = Some (w', es)"
  obtains i e where "live_sender w = SendNext i" "i \<le> 50" "es = []" "live_at w \<noteq> LiveEnded"
      "w' = w\<lparr>live_sender := SendNext (Suc i), live_out := live_out w @ [LiveSealError e]\<rparr>"
  | i r ct q where "live_sender w = SendNext i" "i \<le> 50" "es = [SubmitCalled i ct]" "live_at w \<noteq> LiveEnded" "trade_ok r"
      "SealTransaction lib (seal_rnd r) (bytes_of_string (live_payload r)) pubKey = Inr ct"
      "w' = w\<lparr>live_q := q, live_sender := SendSubmitting i (live_info r), live_sent := live_sent w @ [live_payload r]\<rparr>"
  | i txInfo where "live_sender w = SendLocking i txInfo" "es = []" "live_at w \<noteq> LiveEnded"
      "w' = (live_record txInfo w)\<lparr>live_sender := SendNext (Suc i)\<rparr>"
  | q s where "es = []" "live_at w \<noteq> LiveEnded"
      "w' = w\<lparr>live_q := q, live_at := LiveDraining, live_ticks := live_ticks w + 1, live_out := live_out w @ map LiveText s\<rparr>"
  | b where "live_move lib pubKey secKey b w = Some (w', es)" "\<not> is_call b" "live_at w \<noteq> LiveEnded"
proof (cases a)
  case (LiveSend r)
  with assms obtain i where i: "live_sender w = SendNext i" "i \<le> 50" "live_at w \<noteq> LiveEnded" "live_send lib pubKey i r w = Some (w', es)" "trade_ok r"
    by (auto split: sender_pc.splits if_splits)
  show ?thesis
  proof (cases "SealTransaction lib (seal_rnd r) (bytes_of_string (live_payload r)) pubKey")
    case (Inl e)
    with i that(1) [of i e] show ?thesis by (simp add: live_send_def)
  next
    case (Inr ct)
    with i(4) have "es = [SubmitCalled i ct]" "\<exists>q. w' = w\<lparr>live_q := q, live_sender := SendSubmitting i (live_info r), live_sent := live_sent w @ [live_payload r]\<rparr>"
      by (auto simp: live_send_def split: option.splits)
    with i Inr that(2) show ?thesis by blast
  qed
next
  case LiveRecord
  with assms that(3) show ?thesis by (auto split: sender_pc.splits if_splits)
next
  case (LiveTick elapsed)
  with assms have "es = []" "live_at w \<noteq> LiveEnded" "\<exists>q s. w' = w\<lparr>live_q := q, live_at := LiveDraining, live_ticks := live_ticks w + 1,
      live_out := live_out w @ map LiveText s\<rparr>"
    by (auto simp: live_tick_def drain_call_def split: if_splits option.splits simp flip: map_append)
  with that(4) show ?thesis by blast
next
  case LiveTimeout
  with assms that(5) show ?thesis by (auto split: if_splits)
next
  case (LiveQueue b)
  with assms that(5) show ?thesis by (auto split: if_splits dest: internal_no_call)
qed

section \<open>What was sent\<close>

text \<open>The calls of \<open>Submit\<close> so far, and the number of failed seals.\<close>

fun calls :: "log_event list \<Rightarrow> (nat \<times> bytes) list" where
  "calls [] = []"
| "calls (SubmitCalled r ct # es) = (r, ct) # calls es"
| "calls (_ # es) = calls es"

lemma calls_append [simp]: "calls (xs @ ys) = calls xs @ calls ys"
  by (induction xs rule: calls.induct) auto

lemma calls_iff: "(r, ct) \<in> set (calls es) \<longleftrightarrow> SubmitCalled r ct \<in> set es"
  by (induction es rule: calls.induct) auto

lemma calls_none: "\<forall>r ct. SubmitCalled r ct \<notin> set es \<Longrightarrow> calls es = []"
  by (metis calls_iff list.set_intros(1) neq_Nil_conv surj_pair)

fun seal_errors :: "live_line list \<Rightarrow> nat" where
  "seal_errors [] = 0"
| "seal_errors (LiveSealError e # ls) = Suc (seal_errors ls)"
| "seal_errors (_ # ls) = seal_errors ls"

lemma seal_errors_append [simp]: "seal_errors (xs @ ys) = seal_errors xs + seal_errors ys"
  by (induction xs rule: seal_errors.induct) auto

lemma seal_errors_text [simp]: "seal_errors (map LiveText s) = 0" "seal_errors (map (LiveRow \<circ> f) txs) = 0"
  by (induction s; simp) (induction txs; simp)

fun live_rows :: "live_line list \<Rightarrow> string list" where
  "live_rows [] = []"
| "live_rows (LiveRow s # ls) = s # live_rows ls"
| "live_rows (_ # ls) = live_rows ls"

lemma live_rows_append [simp]: "live_rows (xs @ ys) = live_rows xs @ live_rows ys"
  by (induction xs rule: live_rows.induct) auto

lemma live_rows_text [simp]: "live_rows (map LiveText s) = []" "live_rows (map (LiveRow \<circ> f) txs) = map f txs"
  by (induction s; simp) (induction txs; simp)

lemma live_frame_simps [simp]:
  "live_sender (live_frame lib pubKey secKey b w) = live_sender w" "live_sent (live_frame lib pubKey secKey b w) = live_sent w"
  "seal_errors (live_out (live_frame lib pubKey secKey b w)) = seal_errors (live_out w)"
  "live_rows (live_out (live_frame lib pubKey secKey b w)) = live_rows (live_out w) @ map (live_row lib pubKey secKey) b"
  "live_processed (live_frame lib pubKey secKey b w) = live_processed w + length b"
  "live_at (live_frame lib pubKey secKey b w) = (if live_processed w + length b \<ge> 50 then LiveEnded else LiveIdle)"
  by (simp_all add: live_frame_def Let_def live_batch_def)

text \<open>The iteration the sender enters next.\<close>

fun next_send :: "sender_pc \<Rightarrow> nat" where
  "next_send (SendNext i) = i"
| "next_send (SendSubmitting i s) = Suc i"
| "next_send (SendLocking i s) = Suc i"

text \<open>The calls carry the sealed payloads, in order, and each iteration has one call or one failed seal.\<close>

definition live_sent_ok :: "sodium \<Rightarrow> bytes \<Rightarrow> live_world \<Rightarrow> log_event list \<Rightarrow> bool" where
  "live_sent_ok lib pubKey w evs \<longleftrightarrow>
     list_all2 (\<lambda>(i, ct) p. \<exists>rnd. SealTransaction lib rnd (bytes_of_string p) pubKey = Inr ct) (calls evs) (live_sent w) \<and>
     list_all (\<lambda>p. length p < 2 ^ 31) (live_sent w) \<and> sorted_wrt (<) (map fst (calls evs)) \<and> list_all (\<lambda>i. i < next_send (live_sender w)) (map fst (calls evs)) \<and>
     length (live_sent w) + seal_errors (live_out w) + 1 = next_send (live_sender w) \<and> next_send (live_sender w) \<le> 51"

lemma live_sent_ok_keep:
  assumes "live_sent_ok lib pubKey w evs" and "calls es = []" and "next_send (live_sender w') = next_send (live_sender w)"
    and "live_sent w' = live_sent w" and "seal_errors (live_out w') = seal_errors (live_out w)"
  shows "live_sent_ok lib pubKey w' (evs @ es)"
  using assms by (simp add: live_sent_ok_def)

lemma live_submit_returned:
  "next_send (live_sender (live_event lib pubKey secKey (SubmitReturned r res) w)) = next_send (live_sender w)"
  "live_sent (live_event lib pubKey secKey (SubmitReturned r res) w) = live_sent w"
  "seal_errors (live_out (live_event lib pubKey secKey (SubmitReturned r res) w)) = seal_errors (live_out w)"
  "live_rows (live_out (live_event lib pubKey secKey (SubmitReturned r res) w)) = live_rows (live_out w)"
  "live_processed (live_event lib pubKey secKey (SubmitReturned r res) w) = live_processed w"
  "live_at (live_event lib pubKey secKey (SubmitReturned r res) w) = live_at w"
  by (simp_all split: sender_pc.splits sum.splits)

lemma live_sent_ok_step:
  assumes "live_step lib pubKey secKey a w = Some (w', es)" and "live_sent_ok lib pubKey w evs"
  shows "live_sent_ok lib pubKey w' (evs @ es)"
  using assms(1)
proof (cases rule: live_step_cases)
  case (failed i e)
  with assms(2) show ?thesis by (auto simp: live_sent_ok_def list_all_iff)
next
  case (send i r ct q)
  from assms(2) send(1) have "list_all (\<lambda>j. j < i) (map fst (calls evs))" by (simp add: live_sent_ok_def)
  moreover from send(6) assms(2) have "list_all2 (\<lambda>(i, ct) p. \<exists>rnd. SealTransaction lib rnd (bytes_of_string p) pubKey = Inr ct)
      (calls evs @ [(i, ct)]) (live_sent w @ [live_payload r])"
    unfolding live_sent_ok_def by (intro list_all2_appendI) auto
  ultimately show ?thesis using send live_payload_short [OF send(5)] assms(2)
    by (auto simp: live_sent_ok_def list_all_iff sorted_wrt_append)
next
  case (recorded i txInfo)
  then show ?thesis by (intro live_sent_ok_keep [OF assms(2)]) (simp_all add: live_record_def Let_def)
next
  case (tick q s)
  then show ?thesis by (intro live_sent_ok_keep [OF assms(2)]) simp_all
next
  case (move b)
  then show ?thesis
  proof (cases rule: live_move_cases)
    case (other q)
    with calls_none no_call_step [OF other(1) move(2)] show ?thesis by (intro live_sent_ok_keep [OF assms(2)]) auto
  qed (intro live_sent_ok_keep [OF assms(2)]; simp add: live_submit_returned del: live_event.simps)+
qed

lemma live_sent_ok_run:
  assumes "run (live_step lib pubKey secKey) as live_init = Some (w, evs)"
  shows "live_sent_ok lib pubKey w evs"
  by (rule run_invariant [OF assms, where P = "\<lambda>_. live_sent_ok lib pubKey"])
    (simp add: live_sent_ok_def live_init_def, rule live_sent_ok_step)

section \<open>What is shown\<close>

definition live_shown_ok :: "sodium \<Rightarrow> bytes \<Rightarrow> bytes \<Rightarrow> live_world \<Rightarrow> log_event list \<Rightarrow> bool" where
  "live_shown_ok lib pubKey secKey w evs \<longleftrightarrow>
     live_processed w = length (batches 0 evs) \<and> live_rows (live_out w) = map (live_row lib pubKey secKey) (batches 0 evs) \<and>
     (live_at w = LiveEnded \<longleftrightarrow> 50 \<le> live_processed w)"

lemma live_shown_ok_step:
  assumes "live_step lib pubKey secKey a w = Some (w', es)" and "live_shown_ok lib pubKey secKey w evs" and "list_all quiet es"
  shows "live_shown_ok lib pubKey secKey w' (evs @ es)"
  using assms(1)
proof (cases rule: live_step_cases)
  case (move b)
  then show ?thesis
  proof (cases rule: live_move_cases)
    case (other q)
    with assms(2) no_return_batches [OF other(2)] show ?thesis by (simp add: live_shown_ok_def)
  next
    case (submit q r res)
    with assms(2) show ?thesis by (simp add: live_shown_ok_def live_submit_returned del: live_event.simps)
  next
    case (drain q c b err)
    with assms(2,3) show ?thesis by (simp add: live_shown_ok_def)
  qed
qed (use assms(2) in \<open>auto simp: live_shown_ok_def live_record_def Let_def\<close>)

lemma live_shown_ok_run:
  assumes "run (live_step lib pubKey secKey) as live_init = Some (w, evs)"
  shows "live_shown_ok lib pubKey secKey w evs"
  using assms
proof (rule live.program_induct)
  show "live_shown_ok lib pubKey secKey live_init []" by (simp add: live_shown_ok_def live_init_def)
next
  fix bs w evs a w' es
  assume "run (live_step lib pubKey secKey) (bs @ [a]) live_init = Some (w', evs @ es)"
    and "live_shown_ok lib pubKey secKey w evs" and "live_step lib pubKey secKey a w = Some (w', es)"
  then show "live_shown_ok lib pubKey secKey w' (evs @ es)"
    using live.program_history(3) [of lib pubKey secKey "bs @ [a]" w' "evs @ es"] by (intro live_shown_ok_step) simp_all
qed

section \<open>The order of commits is the order of calls\<close>

text \<open>
  The sender waits for each submission: all calls but the last have returned and are committed, in
  order.
\<close>

definition live_order :: "sender_pc \<Rightarrow> log_event list \<Rightarrow> bool" where
  "live_order pc evs \<longleftrightarrow>
     (case pc of
        SendSubmitting i s \<Rightarrow>
          (\<exists>cs. map fst (calls evs) = cs @ [i] \<and> (committers evs = cs \<or> committers evs = cs @ [i]) \<and>
             (\<forall>j \<in> set cs. \<exists>res. SubmitReturned j res \<in> set evs))
      | _ \<Rightarrow> committers evs = map fst (calls evs) \<and> (\<forall>j \<in> set (map fst (calls evs)). \<exists>res. SubmitReturned j res \<in> set evs))"

text \<open>New commits are of calls that are not committed yet: of the last, if of any.\<close>

lemma new_commits:
  "distinct (xs @ ys) \<Longrightarrow> set (xs @ ys) \<subseteq> set (cs @ [i]) \<Longrightarrow> xs = cs \<or> xs = cs @ [i] \<Longrightarrow> xs @ ys = cs \<or> xs @ ys = cs @ [i]"
proof (elim disjE)
  assume "distinct (xs @ ys)" "set (xs @ ys) \<subseteq> set (cs @ [i])" and xs: "xs = cs"
  then have "set ys \<subseteq> {i}" "distinct ys" by auto
  then have "ys = [] \<or> ys = [i]" by (cases ys rule: list.exhaust; cases "tl ys") auto
  with xs show ?thesis by auto
next
  assume "distinct (xs @ ys)" "set (xs @ ys) \<subseteq> set (cs @ [i])" and xs: "xs = cs @ [i]"
  then have "ys = []" by (cases ys) auto
  with xs show ?thesis by simp
qed

lemma no_new_commits: "distinct (xs @ ys) \<Longrightarrow> set (xs @ ys) \<subseteq> set xs \<Longrightarrow> ys = []"
  by (cases ys) auto

lemma live_order_keep:
  assumes "live_order pc evs" and "calls es = []" and "distinct (committers (evs @ es))"
    and "set (committers (evs @ es)) \<subseteq> set (map fst (calls (evs @ es)))"
  shows "live_order pc (evs @ es)"
proof (cases pc)
  case (SendSubmitting i s)
  with assms(1) obtain cs where cs: "map fst (calls evs) = cs @ [i]" "committers evs = cs \<or> committers evs = cs @ [i]"
    "\<forall>j \<in> set cs. \<exists>res. SubmitReturned j res \<in> set evs" by (auto simp: live_order_def)
  have "committers evs @ committers es = cs \<or> committers evs @ committers es = cs @ [i]"
    by (rule new_commits) (use assms(2-4) cs in \<open>simp_all\<close>)
  with SendSubmitting cs assms(2) show ?thesis by (auto simp: live_order_def)
next
  case (SendNext i)
  with assms have "committers es = []" by (intro no_new_commits [of "committers evs"]) (simp_all add: live_order_def)
  with SendNext assms(1,2) show ?thesis by (auto simp: live_order_def)
next
  case (SendLocking i s)
  with assms have "committers es = []" by (intro no_new_commits [of "committers evs"]) (simp_all add: live_order_def)
  with SendLocking assms(1,2) show ?thesis by (auto simp: live_order_def)
qed

lemma live_order_returned:
  assumes "live_order (SendSubmitting i s) evs" and "Committed r tx \<in> set evs" and "\<forall>res. SubmitReturned r res \<notin> set evs"
    and "distinct (map fst (calls evs))"
  shows "live_order (SendLocking j t) (evs @ [SubmitReturned r res])"
proof -
  from assms(1) obtain cs where cs: "map fst (calls evs) = cs @ [i]" "committers evs = cs \<or> committers evs = cs @ [i]"
    "\<forall>j \<in> set cs. \<exists>res. SubmitReturned j res \<in> set evs" by (auto simp: live_order_def)
  from assms(2) have "r \<in> set (committers evs)" by (auto simp: committers_iff)
  with cs(2,3) assms(3) have "r = i" "committers evs = cs @ [i]" by auto
  with cs show ?thesis by (auto simp: live_order_def)
qed

lemma live_commits_called:
  assumes "run (live_step lib pubKey secKey) as live_init = Some (w, evs)"
  shows "set (committers evs) \<subseteq> set (map fst (calls evs))"
proof
  fix r assume "r \<in> set (committers evs)"
  then obtain tx where "Committed r tx \<in> set evs" unfolding committers_iff ..
  then have "(r, Ciphertext tx) \<in> set (calls evs)" unfolding calls_iff by (rule live.program_commits(2) [OF assms])
  then have "fst (r, Ciphertext tx) \<in> fst ` set (calls evs)" by (rule imageI)
  then show "r \<in> set (map fst (calls evs))" by (simp only: set_map fst_conv)
qed

lemma live_order_move:
  assumes run: "run (live_step lib pubKey secKey) bs live_init = Some (w, evs)"
    and run': "run (live_step lib pubKey secKey) (bs @ [a]) live_init = Some (w', evs @ es)"
    and ok: "live_order (live_sender w) evs" and st: "live_step lib pubKey secKey a w = Some (w', es)"
    and move: "live_move lib pubKey secKey b w = Some (w', es)" "\<not> is_call b"
  shows "live_order (live_sender w') (evs @ es)"
proof -
  note keep = live_order_keep [OF ok _ live.program_commits(1) [OF run'] live_commits_called [OF run']]
  from move show ?thesis
  proof (cases rule: live_move_cases)
    case (other q)
    with keep calls_none no_call_step [OF other(1) move(2)] show ?thesis by simp
  next
    case (submit q r res)
    from submit(2) live.program_commits(3) [OF run', of r res] obtain tx where tx: "res = Inr tx" "Committed r tx \<in> set evs" by auto
    show ?thesis
    proof (cases "live_sender w")
      case (SendSubmitting i s)
      have "\<forall>res. SubmitReturned r res \<notin> set evs" using live.program_returns_once [OF run st] submit(2) by simp
      moreover have "distinct (map fst (calls evs))"
        using live_sent_ok_run [OF run] by (simp add: live_sent_ok_def strict_sorted_iff)
      ultimately show ?thesis
        using live_order_returned [of i s evs r tx] ok tx submit(2,3) SendSubmitting by simp
    qed (use keep submit in simp_all)
  next
    case (drain q c b err)
    with keep show ?thesis by simp
  qed
qed

lemma live_order_step:
  assumes run: "run (live_step lib pubKey secKey) bs live_init = Some (w, evs)"
    and run': "run (live_step lib pubKey secKey) (bs @ [a]) live_init = Some (w', evs @ es)"
    and ok: "live_order (live_sender w) evs" and st: "live_step lib pubKey secKey a w = Some (w', es)"
  shows "live_order (live_sender w') (evs @ es)"
  using st
proof (cases rule: live_step_cases)
  case (move b)
  with live_order_move [OF run run' ok st] show ?thesis by blast
qed (use ok in \<open>auto simp: live_order_def live_record_def Let_def\<close>)

lemma live_order_run:
  assumes "run (live_step lib pubKey secKey) as live_init = Some (w, evs)"
  shows "live_order (live_sender w) evs"
  using assms
proof (rule live.program_induct [where P = "\<lambda>w. live_order (live_sender w)"])
  show "live_order (live_sender live_init) []" by (simp add: live_order_def live_init_def)
qed (rule live_order_step)

lemma keyed_prefix:
  assumes "distinct (map fst ys)" and "map fst xs = take (length xs) (map fst ys)" and "set xs \<subseteq> set ys"
  shows "xs = take (length xs) ys"
proof (rule nth_equalityI)
  have "length xs \<le> length ys" using arg_cong [OF assms(2), of length] by simp
  then show "length xs = length (take (length xs) ys)" by simp
  fix k assume k: "k < length xs"
  with \<open>length xs \<le> length ys\<close> have "fst (xs ! k) = fst (ys ! k)"
    using arg_cong [OF assms(2), of "\<lambda>l. l ! k"] by simp
  moreover have "xs ! k \<in> set ys" "ys ! k \<in> set ys" using k \<open>length xs \<le> length ys\<close> assms(3) by auto
  ultimately show "xs ! k = take (length xs) ys ! k"
    using k assms(1) by (simp add: prod_eq_iff) (metis eq_key_imp_eq_value prod.collapse)
qed

text \<open>The committed ciphertexts open to the payloads sent, in order.\<close>

lemma live_committed:
  assumes "run (live_step lib pubKey secKey) as live_init = Some (w, evs)"
    and "sealed_boxes lib pubKey secKey" and "length secKey = SecretKeyBytes"
  shows "map (live_plaintext lib pubKey secKey) (committed evs) = take (length (committed evs)) (map bytes_of_string (live_sent w))"
    and "length (committed evs) \<le> length (live_sent w)"
proof -
  let ?cs = "map (\<lambda>(r, tx). (r, Ciphertext tx)) (commits evs)"
  from live_sent_ok_run [OF assms(1)] have sent: "distinct (map fst (calls evs))"
    "list_all2 (\<lambda>(i, ct) p. \<exists>rnd. SealTransaction lib rnd (bytes_of_string p) pubKey = Inr ct) (calls evs) (live_sent w)"
    "list_all (\<lambda>p. length p < 2 ^ 31) (live_sent w)"
    by (simp_all add: live_sent_ok_def strict_sorted_iff)
  have fst: "map fst ?cs = committers evs" by (simp add: comp_def case_prod_unfold flip: commits_committers)
  obtain rest where rest: "map fst (calls evs) = committers evs @ rest"
    using live_order_run [OF assms(1)] by (auto simp: live_order_def split: sender_pc.splits)
  have len: "length (commits evs) = length (committed evs)" "length (committers evs) = length (committed evs)"
    by (simp_all flip: commits_committed(1) commits_committers)
  have "set ?cs \<subseteq> set (calls evs)"
    using live.program_commits(2) [OF assms(1)] by (auto simp: commits_committed(2) calls_iff)
  from keyed_prefix [OF sent(1) _ this] fst rest len have "?cs = take (length (committed evs)) (calls evs)" by simp
  then have "map snd ?cs = take (length (committed evs)) (map snd (calls evs))" by (simp only: take_map)
  moreover have "map snd ?cs = map Ciphertext (committed evs)"
    by (simp add: comp_def case_prod_unfold flip: commits_committed(1))
  ultimately have cts: "map Ciphertext (committed evs) = take (length (committed evs)) (map snd (calls evs))" by simp
  have all: "length (calls evs) = length (live_sent w)" using sent(2) by (rule list_all2_lengthD)
  show le: "length (committed evs) \<le> length (live_sent w)"
    using arg_cong [OF rest, of length] len all by simp
  show "map (live_plaintext lib pubKey secKey) (committed evs) = take (length (committed evs)) (map bytes_of_string (live_sent w))"
  proof (rule nth_equalityI)
    fix k assume "k < length (map (live_plaintext lib pubKey secKey) (committed evs))"
    then have k: "k < length (committed evs)" "k < length (live_sent w)" using le by simp_all
    with arg_cong [OF cts, of "\<lambda>l. l ! k"] all have ct: "Ciphertext (committed evs ! k) = snd (calls evs ! k)" by simp
    from list_all2_nthD2 [OF sent(2) k(2)] obtain rnd
      where seal: "SealTransaction lib rnd (bytes_of_string (live_sent w ! k)) pubKey = Inr (snd (calls evs ! k))" by (auto simp: case_prod_unfold)
    have "length (bytes_of_string (live_sent w ! k)) < 2 ^ 31" using sent(3) k(2) by (simp add: list_all_length)
    from SealTransaction_opens [OF seal assms(2,3) this] k ct
    show "map (live_plaintext lib pubKey secKey) (committed evs) ! k = take (length (committed evs)) (map bytes_of_string (live_sent w)) ! k"
      by (simp add: live_plaintext_def)
  qed (use le in simp)
qed

text \<open>
  C36: the live demo shows the trades in the order they were sent.  In every interleaving of the sender,
  the queue and the display, the rows printed so far are those of the first \<open>processed\<close> trades sent, in
  order and by ascending sequence number; at most 50 are sent, and the program has ended only if all
  50 were sent, none failed to seal, and all 50 have been shown: after a single failed seal it never
  ends.
\<close>

theorem live_demo_in_order:
  assumes "run (live_step lib pubKey secKey) as live_init = Some (w, evs)" and "length as < 2 ^ 64"
    and "sealed_boxes lib pubKey secKey" and "length secKey = SecretKeyBytes"
  shows "(\<exists>txs. live_rows (live_out w) = map (live_row lib pubKey secKey) txs \<and> sorted_wrt (<) (map tx_id txs) \<and>
      map (live_plaintext lib pubKey secKey) txs = take (live_processed w) (map bytes_of_string (live_sent w))) \<and>
    live_processed w \<le> length (live_sent w) \<and> length (live_sent w) + seal_errors (live_out w) \<le> 50 \<and>
    (live_at w = LiveEnded \<longleftrightarrow> live_processed w = 50)"
proof -
  note shown = live_shown_ok_run [OF assms(1), unfolded live_shown_ok_def]
  note sent = live_sent_ok_run [OF assms(1), unfolded live_sent_ok_def]
  note committed = live_committed [OF assms(1,3,4)]
  have fifo: "batches 0 evs @ in_hand (live_q w) 0 @ ch (live_q w) = committed evs" by (rule live.program_fifo [OF assms(1)])
  have le: "length (batches 0 evs) \<le> length (committed evs)" using arg_cong [OF fifo, of length] by simp
  have "batches 0 evs = take (live_processed w) (committed evs)" using fifo shown by (metis append_eq_conv_conj)
  then have "map (live_plaintext lib pubKey secKey) (batches 0 evs) =
      take (live_processed w) (take (length (committed evs)) (map bytes_of_string (live_sent w)))"
    by (simp add: committed(1) flip: take_map)
  then have "map (live_plaintext lib pubKey secKey) (batches 0 evs) = take (live_processed w) (map bytes_of_string (live_sent w))"
    using le shown by (simp add: min_absorb1)
  moreover have "sorted_wrt (<) (map tx_id (batches 0 evs @ in_hand (live_q w) 0 @ ch (live_q w)))"
    unfolding fifo by (rule live.program_ids [OF assms(1,2)])
  then have "sorted_wrt (<) (map tx_id (batches 0 evs))" by (simp add: sorted_wrt_append)
  moreover have "live_processed w \<le> length (live_sent w) \<and> length (live_sent w) + seal_errors (live_out w) \<le> 50"
    using shown sent committed(2) le by simp
  ultimately show ?thesis using shown by auto
qed

text \<open>One trade, shown in the first frame.\<close>

definition one_trade :: trade where
  "one_trade = \<lparr>rand_client = 6, rand_side = 1, rand_pair = 0, rand_amount = 41, rand_price = 2000, trade_now = 17, seal_rnd = 0\<rparr>"

lemma one_trade_payload:
  "live_payload one_trade = ''TRADE|07|SELL|ETH/USDC|42.00|3000.00|17''"
  "live_info one_trade = ''Client 07 | SELL ETH/USDC | 42.00 @ 3000''"
proof -
  have "f64_of_nat 42 = 0x4045000000000000" "f64_of_nat 3000 = 0x40A7700000000000"
    by (simp_all add: f64_of_nat_bits(1) top_bit.simps)
  moreover have "trade_price one_trade = f64_of_nat 3000" by (simp add: trade_price_def one_trade_def f64_add_of_nat)
  moreover have "replicate 2 CHR ''0'' = ''00''" by (simp add: numeral_eq_Suc)
  ultimately show "live_payload one_trade = ''TRADE|07|SELL|ETH/USDC|42.00|3000.00|17''"
    "live_info one_trade = ''Client 07 | SELL ETH/USDC | 42.00 @ 3000''"
    by (simp_all add: live_payload_def live_info_def trade_client_def tradeType_def trade_pair_def trade_amount_def one_trade_def
        UnixNano_def fmt_eval)
qed

definition one_trade_actions :: "live_action list" where
  "one_trade_actions =
     [LiveSend one_trade, LiveQueue (Submitter (SendRequest 1)), LiveQueue (Admission LoopTake), LiveQueue (Admission (LoopStamp 5)),
      LiveQueue (Admission LoopCommit), LiveQueue (Submitter (TakeResponse 1)), LiveRecord, LiveTick 0,
      LiveQueue (Consumer (DrainRecv 0)), LiveTimeout, LiveQueue (Consumer (DrainCancelled 0))]"

lemma one_trade_run:
  "\<exists>w evs. run (live_step glass_sodium (replicate 32 1) (replicate 32 2)) one_trade_actions live_init = Some (w, evs) \<and>
     live_processed w = 1 \<and> live_sent w = [live_payload one_trade]"
proof -
  have "live_payload one_trade \<noteq> []" by (simp add: live_payload_def)
  moreover have "trade_ok one_trade" by (simp add: trade_ok_def one_trade_def)
  ultimately show ?thesis
    by (simp add: one_trade_actions_def live_init_def queue_init_def live_send_def live_move_def live_record_def live_tick_def
        live_frame_def SealTransaction_def seal_transaction_def glass_sodium_def step_simps)
qed

theorem live_demo_in_order_witness:
  "\<exists>w evs txs. run (live_step glass_sodium (replicate 32 1) (replicate 32 2)) one_trade_actions live_init = Some (w, evs) \<and>
     live_rows (live_out w) = map (live_row glass_sodium (replicate 32 1) (replicate 32 2)) txs \<and> sorted_wrt (<) (map tx_id txs) \<and>
     map (live_plaintext glass_sodium (replicate 32 1) (replicate 32 2)) txs = [bytes_of_string (live_payload one_trade)] \<and>
     seal_errors (live_out w) \<le> 49 \<and> live_at w \<noteq> LiveEnded"
proof -
  obtain w evs where w: "run (live_step glass_sodium (replicate 32 1) (replicate 32 2)) one_trade_actions live_init = Some (w, evs)"
    "live_processed w = 1" "live_sent w = [live_payload one_trade]" using one_trade_run by blast
  have "length one_trade_actions < 2 ^ 64" by (simp add: one_trade_actions_def)
  from live_demo_in_order [OF w(1) this glass_sealed] w show ?thesis by auto
qed

section \<open>The window of recent submissions\<close>

text \<open>The display holds the last 15 successful submissions, oldest first, and the counter their number.\<close>

lemma live_window:
  assumes "live_transactions w = []" and "live_submitted w = 0"
  shows "live_transactions (fold live_record infos w) = drop (length infos - 15) infos \<and> live_submitted (fold live_record infos w) = length infos"
proof (induction infos rule: rev_induct)
  case (snoc x infos)
  show ?case
  proof (cases "length infos < 15")
    case True
    with snoc show ?thesis by (simp add: live_record_def Let_def)
  next
    case False
    then have "Suc (length infos - 15) = length infos - 14" by arith
    with False have "drop 1 (drop (length infos - 15) infos @ [x]) = drop (length infos + 1 - 15) (infos @ [x])" by simp
    with False snoc show ?thesis by (simp add: live_record_def Let_def)
  qed
qed (simp add: assms)

end
