(* ===== verification/Spec2Isabelle.thy ===== *)
theory Spec2Isabelle
  imports Mempool_Slices Program_Properties Pipeline_Liveness Raft_Node Rpc_Raft Rpc_Cluster Load_Test Demo Live_Demo
begin

text \<open>
  \<^bold>\<open>SecureOrder: a formal model of the sequencer\<close>

  \<^bold>\<open>The program.\<close>  SecureOrder is a sequencer for encrypted transactions.  A client seals a
  payload with the sequencer's public key (\<open>cmd/client\<close>, \<open>pkg/privacy\<close>) and submits the ciphertext
  over gRPC (\<open>internal/rpc\<close>).  The server hands it to an ordered log (\<open>pkg/sequencing/log.go\<close>):
  either the single-node queue (\<open>queue.go\<close>) or a log replicated by Raft (\<open>raft_log.go\<close>).  The log
  fixes the transaction's position, and the server records a reception proof
  (\<open>reception_store.go\<close>).  In \<open>cmd/sequencer/main.go\<close> a collector goroutine moves committed
  transactions into an encrypted mempool (\<open>encrypted_mempool.go\<close>); a second goroutine takes full
  batches of 1000, commits to each with SHA-256 (\<open>commitment.go\<close>), publishes the commitment to the
  contract \<open>OrderVerifier.sol\<close> (\<open>internal/settlement\<close>) and only then decrypts the batch.

  \<^bold>\<open>How it is modelled.\<close>  Sequential code is a function with the names of the source; errors are
  values (\<open>option\<close>, sums, error datatypes), Go's fixed-width integers are words, byte slices are
  lists of 8-bit words.  Concurrent code is a labelled step function
  \<open>action \<Rightarrow> state \<Rightarrow> (state \<times> event list) option\<close> (\<open>Step_System\<close>): an action names the goroutine that
  moves and the branch its \<open>select\<close> takes, and a run is an arbitrary sequence of enabled actions, so
  that a theorem about \<open>run\<close> covers every interleaving.  Nothing is assumed of scheduling except where
  a liveness statement names the goroutine that moves.

  \<^bold>\<open>Theories, in order of import.\<close>
  \<^item> \<open>SO_Prelude\<close>, \<open>Step_System\<close>: machine types, theorem collections, shared list lemmas; runs,
    invariants of runs, runs that avoid a state.
  \<^item> \<open>Go_Sha256\<close>, \<open>Go_Bytes\<close>, \<open>Go_Fmt\<close>, \<open>Go_Strings\<close>, \<open>Go_Path\<close>, \<open>Go_Base64\<close>, \<open>Go_Json\<close>, \<open>Go_Float\<close>, \<open>Go_Time\<close>:
    the parts of Go's standard library the sources call, executable, with their round trips.  Doubles
    are their 64 bits; sums and quotients of non-negative doubles are the exact result, rounded.
  \<^item> \<open>Transactions\<close>, \<open>Commitments\<close>: the transaction record, the errors of a log, the three
    commitments and what they bind.
  \<^item> \<open>Ordered_Log\<close>: the interface of \<open>log.go\<close>.  Locale \<open>ordered_log\<close> states what a backend keeps at
    every step; \<open>batching_log\<close> adds how \<open>DrainWait\<close> builds a batch.  \<open>log_spec\<close> is the abstract log
    (commit at the end under a fresh larger ID, deliver the oldest), and \<open>refines_run\<close> shows once, in
    the locale, that a backend's run is a run of it.
  \<^item> \<open>Tx_Queue\<close>, \<open>Tx_Queue_Properties\<close>, \<open>Tx_Queue_Liveness\<close>: \<open>queue.go\<close>, each \<open>select\<close> an action;
    interpretations \<open>queue_log\<close> and \<open>queue_batches\<close>.
  \<^item> \<open>Raft_Proposal\<close>, \<open>Raft_Log\<close>, \<open>Raft_Log_Properties\<close>, \<open>Raft_Setup\<close>, \<open>Raft_Node\<close>: \<open>raft_log.go\<close>: the
    replicated value and its JSON, one node with its FSM, construction and bootstrap, membership,
    snapshot and restart; interpretations \<open>raft_log\<close> and \<open>raft_batches\<close>.
  \<^item> \<open>Encrypted_Mempool\<close>, \<open>Mempool_Slices\<close>: \<open>encrypted_mempool.go\<close> on values, and the same methods on
    slices over shared backing arrays, with the refinement between the two.
  \<^item> \<open>Settlement\<close>, \<open>Reception_Store\<close>, \<open>Rpc_Server\<close>: publisher selection and publication with the
    contract, the proof store, and the gRPC handlers.  Locale \<open>answering_log\<close> is what the handlers rely
    on of a backend for the accounting of proofs, and \<open>receipt_log\<close> adds that answers are of committed
    transactions, interpreted by the queue (\<open>queue_receipts\<close>).
  \<^item> \<open>Rpc_Raft\<close>, \<open>Rpc_Cluster\<close>: the handlers of a Raft leader (interpretation \<open>raft_answers\<close>), and handlers
    that forward to the handlers of other nodes.
  \<^item> \<open>Privacy_Layer\<close>: the cgo wrapper, the C++ functions it calls with their worker threads under an
    arbitrary schedule, and the stub.
  \<^item> \<open>Sequencer_Startup\<close>, \<open>Leader_Lease\<close>: key files, peers, join, choice of the backend and their order
    in \<open>main\<close>; the lease goroutine.
  \<^item> \<open>Log_Consumers\<close>, \<open>Sequencer_Pipeline\<close>, \<open>Pipeline_Properties\<close>: the collector and the batch
    goroutine over either backend.  Locale \<open>drained_log\<close> extends \<open>batching_log\<close> by what the collector
    relies on and carries the invariant of the pipeline; interpretations \<open>queue_consumers\<close> and
    \<open>raft_consumers\<close>.
  \<^item> \<open>Pipeline_Liveness\<close>: locale \<open>serving_log\<close> extends it by an open log's duty to serve a waiting consumer;
    interpretations \<open>queue_serving\<close> and \<open>raft_serving\<close>.
  \<^item> \<open>Sequencer_Program\<close>, \<open>Program_Properties\<close>: the running program: the pipeline, the publication
    goroutines against the chain, the submissions in flight and the steps of \<open>main\<close>'s shutdown.
    Locale \<open>closing_log\<close> is what that order relies on; interpretations \<open>queue_program\<close> and
    \<open>raft_program\<close>.
  \<^item> \<open>Client_Programs\<close>, \<open>Load_Test\<close>: the client and the load test, up to the text they print.
  \<^item> \<open>Local_Queue\<close>, \<open>Demo\<close>, \<open>Live_Demo\<close>: the two demonstrations.  Locale \<open>in_process_program\<close> is a program whose
    steps are at most one step of a queue it has for itself; what the queue then guarantees is proved
    there and interpreted by both (\<open>demo\<close>, \<open>live\<close>).
  \<^item> this theory: the properties that reach from the log to the chain and from the client to the
    reveal.

  \<^bold>\<open>What is shown.\<close>  Both logs refine the abstract log; IDs increase, receipts are truthful, nothing
  is lost, duplicated or reordered up to and including the batches; the queue is bounded, never
  panics on a channel, and terminates after \<open>Close\<close> with every request answered.  As long as the context
  has not been cancelled and its two goroutines run, the pipeline can go on by itself until all full
  batches are processed.  Reception proofs are accounted for on either backend (on Raft, while the log is
  open and outside the deadline window), and a submission to any node ends at the leader if the nodes
  agree on it and reach it.  Replicas that applied the same entries and have not been closed compute the
  same commitments.  A commitment binds each transaction and
  their order up to a SHA-256 collision, which the proofs exhibit; a published commitment is what the
  contract holds, on the local queue with a live EVM publisher.  What a client seals is what the batch
  goroutine reveals, for any number of decryption threads and plaintexts of fewer than \<open>2^31\<close> bytes.
  Start-up keeps keys that were flushed to disk and joins before it opens anything; the lease goroutine
  steps down exactly when the lease has passed.  A shutdown turns no submission away and keeps every
  receipt truthful.  The demonstrations show every trade once and in order, and the load test's figures
  add up.  Several results record where the code falls short of
  its documentation: the acceptance of a submission that was never proposed, keys lost to a full disk, submissions that circulate between two nodes, transactions stranded in
  the mempool or publications abandoned by a shutdown, a shutdown that hangs, \<open>|\<close> in order fields, proofs stored out of order.

  \<^bold>\<open>Hypotheses on code outside the repository.\<close>  \<open>raft_contract\<close>: the Raft library applies entries
  at strictly increasing indices, each once, and the entry of a local call carries the bytes that call
  proposed.  That two
  nodes apply prefixes of one sequence (state machine safety) is a premise where replicas are
  compared.  \<open>sealed_boxes\<close>: libsodium opens what it sealed, for generated key pairs.
  \<open>chain_executes\<close>: a transaction whose receipt says success was executed by the contract.  go-ethereum,
  libsodium, gRPC, the file system and the clock are records of functions or inputs of the actions; a
  call between nodes is carried, loses its request or loses its reply, and the text of a gRPC status is
  a function.
  \<open>run_avoids\<close> with \<open>deadline_race\<close> excludes the window in which the receipt is false, and a theorem
  shows that window exists.  Each such hypothesis is met by a concrete instance in a witness.

  \<^bold>\<open>Bounds.\<close>  Statements on IDs hold for runs of fewer than \<open>2^64\<close> steps, where the 64-bit counter
  cannot wrap; the counter itself wraps in the model.  Forwarding between nodes has the number of nodes
  visited as fuel; two are enough when the nodes agree on a leader, and a theorem says exactly when
  any number is.  The JSON parser has a nesting bound of 10000,
  the limit of \<open>encoding/json\<close>.  All other loops are structural or have a measure; a \<open>DrainWait\<close> of the
  mempool is a function of the ticks seen so far and may still be waiting (\<open>None\<close>).  \<open>C.int(dec.length)\<close> keeps
  32 bits and \<open>C.GoBytes\<close> panics on a negative length; \<open>make\<close> panics on a size that is negative or exceeds
  the address space of 64-bit Linux (\<open>cap_out_of_range\<close>).  A panic is an event or a value of its own
  (\<open>Panicked\<close>, \<open>GoBytesPanic\<close>, \<open>RevealPanicked\<close>); in the program it ends the process, and the runs of the model that
  go on after it are not runs of the program.  Memory that runs out below these limits is not modelled.

  \<^bold>\<open>Not modelled.\<close>  Generated protobuf and gRPC code (requests are records; the client stub of \<open>SubmitTx\<close> is
  in \<open>Rpc_Cluster\<close>); \<open>Register\<close>, which only
  calls it; the C++ batch decryptor, thread pool and mempool, which the Go program does not call; the
  other contracts, scripts and deployment files; the wording of error messages printed by the
  demonstrations (the error itself is in the output) and log lines.  The overall timeout of the load
  test and the cancellation of a context nobody uses any more have no step of their own.  The
  mutex of the EVM publisher makes a publication one step of the chain; its 15 second timeout is an
  error go-ethereum may report.  RPCs other than submissions are not counted as being in flight.
\<close>

section \<open>From commit to chain\<close>

text \<open>The \<open>k\<close>-th batch of a run is the \<open>k\<close>-th thousand of the commit order.\<close>

lemma kth_batch:
  assumes "list_all (\<lambda>b. length b = n) bs" and "concat bs @ rest = xs" and "k < length bs"
  shows "bs ! k = take n (drop (n * k) xs)"
  using assms
proof (induction bs arbitrary: k xs)
  case (Cons b bs)
  show ?case
  proof (cases k)
    case 0
    with Cons.prems show ?thesis by auto
  next
    case (Suc j)
    have "bs ! j = take n (drop (n * j) (concat bs @ rest))"
      using Cons.IH [of "concat bs @ rest" j] Cons.prems Suc by simp
    moreover have "drop (n * k) xs = drop (n * j) (concat bs @ rest)"
      using Cons.prems(1,2) Suc by (auto simp: drop_append)
    ultimately show ?thesis using Suc by simp
  qed
qed simp

lemma processed_event:
  assumes "run (pipe_step ops cfg) as (pipe_init l) = Some (w, evs)" and "PBatch b c p r \<in> set evs"
  shows "c = GenerateBatchCommitment b \<and> (\<exists>hw sched. r = reveal_batch cfg hw sched b)"
proof -
  define ok where "ok e \<longleftrightarrow> (case e of PLog _ \<Rightarrow> True
    | PBatch b c p r \<Rightarrow> c = GenerateBatchCommitment b \<and> (\<exists>hw sched. r = reveal_batch cfg hw sched b))" for e
  have "list_all ok evs"
  proof (rule run_invariant [OF assms(1), where P = "\<lambda>_ _ evs. list_all ok evs"])
    fix as evs a es and w w' :: "'a pipe_world"
    assume "list_all ok evs" and "pipe_step ops cfg a w = Some (w', es)"
    moreover have "ok (PBatch x (GenerateBatchCommitment x) q (reveal_batch cfg hw sched x))" "ok (PLog e)" for x q hw sched e
      unfolding ok_def pipe_event.case by metis+
    ultimately show "list_all ok (evs @ es)"
      by (cases a) (auto simp: log_moves_def list_all_iff split: if_splits coll_pc.splits list.splits
          option.splits bat_pc.splits)
  qed simp
  with assms(2) show ?thesis by (auto simp: list_all_iff ok_def)
qed

lemma processed_split: "processed (es1 @ PBatch b c p r # es2) = processed es1 @ b # processed es2"
  by simp

text \<open>
  C2: what the chain records is the order.  Consider the program with the local queue (not Raft) and a
  live EVM publisher (not the no-op one), on a chain that executes the transactions whose receipts say
  success.  Whenever in a run of it the \<open>k\<close>-th publication goroutine (counted from 0) reports success, at
  whatever time and in whatever order with the others, the contract holds the SHA-256 root of
  exactly the transactions number \<open>1000 k + 1\<close> to \<open>1000 (k + 1)\<close> in commit order.
\<close>

theorem chain_records_order:
  assumes "run (program_step queue_ops CallClose cfg sc) as (program_init (queue_init qcap) c0) = Some (w, evs)"
    and "\<not> rc_is_raft cfg" and "sc_publisher sc = Inr (LiveEVM pub)" and "chain_executes (sc_eth sc) pub view"
    and "program_step queue_ops CallClose cfg sc (Settle k) w = Some (w', [Settled k c None])"
    and "b = take 1000 (drop (1000 * k) (committed (log_part (pipe_part evs))))"
  shows "length b = 1000 \<and> validCommitments (view (chain w')) (sha256 (batch_encoding b))"
proof -
  note pipe_run = program_pipe_run [OF assms(1)]
  let ?batches = "processed (pipe_part evs)"
  from assms(5) have k: "k < length (settling w)" "settling w ! k = Some c"
    and pub: "server_PublishCommitment (sc_eth sc) (sc_publisher sc) c (chain w) = (None, chain w')"
    by (auto split: if_splits option.splits prod.splits)
  have st: "settlements_started (pipe_part evs) = map GenerateBatchCommitment ?batches"
    by (rule local_settlements [OF pipe_run assms(2)])
  with settling_ok_run [OF assms(1)] k have k': "k < length ?batches" "c = GenerateBatchCommitment (?batches ! k)"
    by (auto simp: settling_ok_def Let_def split: if_splits)
  note ex = queue_pipeline_exact_run [OF pipe_run]
  have b: "?batches ! k = b"
    using kth_batch [OF conjunct2 [OF ex] conjunct1 [OF ex] k'(1)] assms(6) by simp
  moreover have "length (?batches ! k) = 1000" using ex k'(1) by (simp add: list_all_iff)
  moreover have "validCommitments (view (chain w')) (sha256 (batch_encoding b))"
    using published_batch_recorded [OF assms(4)] pub k'(2) b
    by (simp add: assms(3) server_PublishCommitment_def server_publisher_def)
  ultimately show ?thesis by simp
qed

text \<open>The run of the pipeline that processes a full batch, inside the program, and its publication.\<close>

definition evm_config :: "(nat, OrderVerifier) settle_config" where
  "evm_config = \<lparr>sc_eth = demo_lib, sc_publisher = Inr (LiveEVM demo_publisher)\<rparr>"

definition published_world :: "(queue_world, OrderVerifier) program" where
  "published_world = \<lparr>pipe = full_world, main_at = MainServing, in_flight = [],
     settling = [Some (GenerateBatchCommitment full_batch)], chain = empty_verifier\<rparr>"

definition published_events :: "program_event list" where
  "published_events = map PipeEvent (concat (map cycle_events [0..<1000]) @
     [PBatch full_batch (GenerateBatchCommitment full_batch) True (reveal_batch (glass_config False) 4 [0, 1] full_batch)])"

lemma published_run:
  "run (program_step queue_ops CallClose (glass_config False) evm_config) (map Pipe full_actions)
     (program_init (queue_init 100) empty_verifier) = Some (published_world, published_events)"
proof -
  have glass_local: "\<not> rc_is_raft (glass_config False)" by (simp add: glass_config_def)
  have cyc: "rpcs_after (concat (map cycle_events ks) @ es) [] = rpcs_after es []"
    "settlements_started (concat (map cycle_events ks)) = []" for ks es
    by (induction ks) (simp_all add: cycle_events_def)
  have "\<not> main_only CallClose a" if "a \<in> set full_actions" for a
    using that by (auto simp: full_actions_def cycle_def main_only_def simp del: upt_rec_numeral)
  then have "list_all (\<lambda>a. \<not> main_only CallClose a) full_actions" by (simp add: list_all_iff)
  from pipe_run_in_program [OF full_run [of "glass_config False"] this,
      where w = "program_init (queue_init 100) empty_verifier" and sc = evm_config]
  show ?thesis
    by (simp add: program_init_def pipe_moves_def published_world_def published_events_def cyc glass_local
        del: upt_rec_numeral)
qed

theorem chain_records_order_witness:
  "validCommitments (commitOrder (sha256 (batch_encoding full_batch)) empty_verifier)
     (sha256 (batch_encoding (take 1000 (committed (log_part (pipe_part published_events))))))"
proof -
  let ?w' = "published_world\<lparr>settling := [None], chain := commitOrder (sha256 (batch_encoding full_batch)) empty_verifier\<rparr>"
  have "program_step queue_ops CallClose (glass_config False) evm_config (Settle 0) published_world =
      Some (?w', [Settled 0 (GenerateBatchCommitment full_batch) None])"
    by (simp add: published_world_def evm_config_def server_PublishCommitment_def server_publisher_def
        GenerateBatchCommitment_encoding demo_publish)
  from chain_records_order [OF published_run _ _ _ this refl, of demo_publisher "\<lambda>s. s"] demo_executes
  show ?thesis by (simp add: evm_config_def glass_config_def del: upt_rec_numeral)
qed

text \<open>
  C18: publications are accounted for.  In every run, on either backend, the \<open>k\<close>-th publication
  goroutine to be started can act exactly if there is a \<open>k\<close>-th batch this node decided to publish, its
  publication has not finished before and the program has not ended; it then hands the commitment
  of exactly that batch to the publisher, and the chain becomes and the program reports what the
  publisher makes of it.  So far no publication has finished twice, those that have published the
  commitments of their batches, and nothing else the program does changes the chain.
\<close>

theorem publications_once:
  assumes "run (program_step ops cls cfg sc) as (program_init l c0) = Some (w, evs)"
  shows "(program_step ops cls cfg sc (Settle k) w = Some (w', es) \<longleftrightarrow>
      main_at w \<noteq> MainExited \<and> k < length (published_batches (pipe_part evs)) \<and> k \<notin> set (map fst (settled evs)) \<and>
      (let c = GenerateBatchCommitment (published_batches (pipe_part evs) ! k);
           (err, chain') = server_PublishCommitment (sc_eth sc) (sc_publisher sc) c (chain w)
       in w' = w\<lparr>settling := (settling w)[k := None], chain := chain'\<rparr> \<and> es = [Settled k c err])) \<and>
    distinct (map fst (settled evs)) \<and>
    (\<forall>(j, c) \<in> set (settled evs). c = GenerateBatchCommitment (published_batches (pipe_part evs) ! j)) \<and>
    (\<forall>a v fs. program_step ops cls cfg sc a w = Some (v, fs) \<and> chain v \<noteq> chain w \<longrightarrow>
       (\<exists>j. a = Settle j) \<or> (\<exists>x. a = ChainMoves x))"
proof (intro conjI)
  let ?bs = "published_batches (pipe_part evs)"
  note st = started_published [OF program_pipe_run [OF assms]]
  note ok = settling_ok_run [OF assms, unfolded settling_ok_def Let_def st]
  show "distinct (map fst (settled evs))" using ok by blast
  show "\<forall>(j, c) \<in> set (settled evs). c = GenerateBatchCommitment (?bs ! j)" using ok by auto
  show "\<forall>a v fs. program_step ops cls cfg sc a w = Some (v, fs) \<and> chain v \<noteq> chain w \<longrightarrow>
      (\<exists>j. a = Settle j) \<or> (\<exists>x. a = ChainMoves x)"
  proof (intro allI impI)
    fix a v fs assume "program_step ops cls cfg sc a w = Some (v, fs) \<and> chain v \<noteq> chain w"
    then show "(\<exists>j. a = Settle j) \<or> (\<exists>x. a = ChainMoves x)"
      by (cases a) (auto simp: pipe_moves_def split: if_splits option.splits)
  qed
  have one_point: "(\<exists>c. (A \<and> B \<and> c = t) \<and> P c) \<longleftrightarrow> A \<and> B \<and> P t" for A B P and t :: string by auto
  have settling: "(k < length (settling w) \<and> settling w ! k = Some c) \<longleftrightarrow>
      (k < length ?bs \<and> k \<notin> set (map fst (settled evs)) \<and> c = GenerateBatchCommitment (?bs ! k))" for c
    using ok by (auto split: if_splits)
  have "program_step ops cls cfg sc (Settle k) w = Some (w', es) \<longleftrightarrow>
      main_at w \<noteq> MainExited \<and> (\<exists>c. (k < length (settling w) \<and> settling w ! k = Some c) \<and>
        (case server_PublishCommitment (sc_eth sc) (sc_publisher sc) c (chain w) of
           (err, chain') \<Rightarrow> w' = w\<lparr>settling := (settling w)[k := None], chain := chain'\<rparr> \<and> es = [Settled k c err]))"
    by (cases "k < length (settling w)"; cases "settling w ! k") (auto split: prod.split)
  then show "program_step ops cls cfg sc (Settle k) w = Some (w', es) \<longleftrightarrow>
      main_at w \<noteq> MainExited \<and> k < length ?bs \<and> k \<notin> set (map fst (settled evs)) \<and>
      (let c = GenerateBatchCommitment (?bs ! k);
           (err, chain') = server_PublishCommitment (sc_eth sc) (sc_publisher sc) c (chain w)
       in w' = w\<lparr>settling := (settling w)[k := None], chain := chain'\<rparr> \<and> es = [Settled k c err])"
    unfolding settling Let_def one_point by simp
qed

theorem publications_once_witness:
  "program_step queue_ops CallClose (glass_config False) evm_config (Settle 0) published_world =
     Some (published_world\<lparr>settling := [None], chain := commitOrder (sha256 (batch_encoding full_batch)) empty_verifier\<rparr>,
       [Settled 0 (GenerateBatchCommitment full_batch) None])"
proof -
  have "published_batches (concat (map cycle_events ks)) = []" for ks by (induction ks) (simp_all add: cycle_events_def)
  then have "published_batches (pipe_part published_events) = [full_batch]" "settled published_events = []"
    by (simp_all add: published_events_def del: upt_rec_numeral map_append)
  moreover have "server_PublishCommitment (sc_eth evm_config) (sc_publisher evm_config) (GenerateBatchCommitment full_batch)
      empty_verifier = (None, commitOrder (sha256 (batch_encoding full_batch)) empty_verifier)"
    by (simp add: evm_config_def server_PublishCommitment_def server_publisher_def GenerateBatchCommitment_encoding demo_publish)
  ultimately show ?thesis
    by (intro iffD2 [OF conjunct1 [OF publications_once [OF published_run]]]) (simp add: published_world_def)
qed

text \<open>
  The program may end before a publication: nothing waits for the goroutines of \<open>settling\<close>.  The
  batch of the run above is processed and reported, the program stops cleanly, and its commitment
  never reaches the chain.
\<close>

lemma exit_abandons_publication:
  "\<exists>w evs. run (program_step queue_ops CallClose (glass_config False) evm_config)
      (map Pipe full_actions @ [SignalCancel, CloseRpcServer, GracefulStop, AllRpcsDone, CloseLog])
      (program_init (queue_init 100) empty_verifier) = Some (w, evs) \<and>
    main_at w = MainExited \<and> settling w = [Some (GenerateBatchCommitment full_batch)] \<and>
    (\<forall>k. program_step queue_ops CallClose (glass_config False) evm_config (Settle k) w = None)"
proof -
  have "\<exists>w evs. run (program_step queue_ops CallClose (glass_config False) evm_config)
      [SignalCancel, CloseRpcServer, GracefulStop, AllRpcsDone, CloseLog] published_world = Some (w, evs) \<and>
    main_at w = MainExited \<and> settling w = [Some (GenerateBatchCommitment full_batch)]"
    by (simp add: published_world_def full_world_def cycled_world_def pipe_moves_def queue_ops_def log_moves_def
        coll_return_def queue_init_def queue_Close_def del: upt_rec_numeral)
  then obtain w evs where "run (program_step queue_ops CallClose (glass_config False) evm_config)
      [SignalCancel, CloseRpcServer, GracefulStop, AllRpcsDone, CloseLog] published_world = Some (w, evs)"
    "main_at w = MainExited" "settling w = [Some (GenerateBatchCommitment full_batch)]" by blast
  then show ?thesis by (simp add: run_append published_run del: run.simps)
qed

text \<open>
  C26: what clients seal is revealed.  If every ciphertext of a processed batch was produced by
  \<open>SealTransaction\<close> with the sequencer's public key from fewer than \<open>2^31\<close> bytes (gRPC delivers messages of
  at most four megabytes), the batch is reported as decrypted in full: nothing of it falls through to
  the per-item path.
\<close>

theorem sealed_batch_revealed:
  assumes "run (pipe_step queue_ops cfg) as (pipe_init (queue_init qcap)) = Some (w, evs)"
    and "PBatch b c p r \<in> set evs"
    and "sealed_boxes (rc_sodium cfg) (rc_pubKey cfg) (rc_secKey cfg)" and "length (rc_secKey cfg) = SecretKeyBytes"
    and "list_all (\<lambda>tx. \<exists>rnd pt. length pt < 2 ^ 31 \<and> SealTransaction (rc_sodium cfg) rnd pt (rc_pubKey cfg) = Inr (Ciphertext tx)) b"
  shows "r = BatchDecrypted 1000"
proof -
  from processed_event [OF assms(1,2)] obtain hw sched where r: "r = reveal_batch cfg hw sched b" by blast
  have "b \<in> set (processed evs)"
    using assms(2) by (metis processed_split in_set_conv_decomp)
  then have len: "length b = 1000" using queue_pipeline_exact_run [OF assms(1)] by (simp add: list_all_iff)
  then obtain tx where "tx \<in> set b" by fastforce
  with assms(5) have pub: "length (rc_pubKey cfg) = PublicKeyBytes"
    by (auto simp: list_all_iff SealTransaction_def split: if_splits)
  have "SealBytes \<le> length (Ciphertext tx) \<and> opens (rc_sodium cfg) (rc_pubKey cfg) (rc_secKey cfg) (Ciphertext tx) \<and>
      length (Ciphertext tx) < SealBytes + 2 ^ 31" if "tx \<in> set b" for tx
  proof -
    from that assms(5) obtain rnd pt where "length pt < 2 ^ 31"
      "SealTransaction (rc_sodium cfg) rnd pt (rc_pubKey cfg) = Inr (Ciphertext tx)" by (auto simp: list_all_iff)
    with assms(3) show ?thesis
      by (auto simp: SealTransaction_def seal_transaction_def sealed_boxes_def opens_def split: if_splits option.splits)
  qed
  with reveal_exact [OF pub assms(4,3), of b hw sched] len r show ?thesis by (simp add: list_all_iff)
qed

theorem sealed_batch_revealed_witness:
  "reveal_batch (glass_config False) 4 [0, 1] full_batch = BatchDecrypted 1000"
proof -
  have "\<exists>rnd pt. length pt < 2 ^ 31 \<and> SealTransaction glass_sodium rnd pt (replicate 32 1) = Inr (Ciphertext tx)" if "tx \<in> set full_batch" for tx
    using that by (intro exI [of _ 0] exI [of _ "[7]"])
      (auto simp: SealTransaction_def seal_transaction_def glass_sodium_def full_batch_def glass_tx_def)
  then show ?thesis
    by (intro sealed_batch_revealed [OF full_run full_event])
      (auto simp: glass_config_def glass_sealed list_all_iff)
qed

text \<open>
  C27: every commitment the sequencer computes is well formed: 64 lower-case hexadecimal digits
  that the EVM publisher's parser reads back as the 32 bytes of the digest.
\<close>

theorem commitments_well_formed:
  assumes "run (pipe_step ops cfg) as (pipe_init l) = Some (w, evs)" and "PBatch b c p r \<in> set evs"
  shows "length c = 64 \<and> set c \<subseteq> set hex_digits \<and>
    parseCommitment32 c = Inr (sha256 (batch_encoding b))"
proof -
  have "c = hex_EncodeToString (sha256 (batch_encoding b))"
    using processed_event [OF assms] by (simp add: GenerateBatchCommitment_encoding)
  moreover have "set (hex_EncodeToString bs) \<subseteq> set hex_digits" for bs
  proof -
    have "hex_digits ! n \<in> set hex_digits" if "n < 16" for n
      by (rule nth_mem) (use that in \<open>simp add: hex_digits_def\<close>)
    moreover have "unat (x :: byte) div 16 < 16" for x by (rule less_mult_imp_div_less) simp
    ultimately have "set (hex_pair x) \<subseteq> set hex_digits" for x by (simp add: hex_pair_def)
    then show ?thesis by (auto simp: hex_EncodeToString_def)
  qed
  ultimately show ?thesis by (simp add: parseCommitment32_hex)
qed

theorem commitments_well_formed_witness:
  "length (GenerateBatchCommitment full_batch) = 64 \<and>
   parseCommitment32 (GenerateBatchCommitment full_batch) = Inr (sha256 (batch_encoding full_batch))"
proof -
  from commitments_well_formed [OF full_run full_event] show ?thesis by blast
qed

end
